theory Spec2Isabelle
  imports Complex_Main "HOL-Library.Monad_Syntax" "HOL-Library.Multiset"
begin

section \<open>The Catan rules engine of \<^verbatim>\<open>src/training/catan_env.py\<close>\<close>

text \<open>
  A shallow embedding of the rules engine. Python's unbounded integers are \<open>int\<close>;
  indices of vertices, edges, hexes and players (always produced by \<^verbatim>\<open>range\<close> or
  stored from such a value) are \<open>nat\<close>. The strings that tag resources, terrains,
  development cards, buildings, phases and actions are datatypes. A dictionary keyed by
  the five resource names is a function \<open>resource \<Rightarrow> int\<close> (every such dictionary of the
  source holds exactly the five keys). A function of the source that can raise
  (\<^verbatim>\<open>IndexError\<close> on a list index out of range, \<^verbatim>\<open>AssertionError\<close> on a missing
  topology, \<^verbatim>\<open>ZeroDivisionError\<close>) returns an \<open>option\<close>, and \<open>None\<close> is the raised
  exception. The pseudo-random generator's raw outputs are explicit parameters.
\<close>

subsection \<open>Constants\<close>

datatype resource = Lumber | Brick | Wool | Grain | Ore

datatype terrain = Forest | Hills | Pasture | Fields | Mountains | Desert

datatype dev_card = Knight | Victory_point | Road_building | Year_of_plenty | Monopoly

datatype building = Settlement | City

datatype harbor_kind = Generic | Specific resource

datatype phase =
    PRE_GAME
  | SETUP_PLACE_SETTLEMENT
  | SETUP_PLACE_ROAD
  | ROLL_DICE
  | DISCARD
  | MOVE_ROBBER
  | STEAL
  | TRADE_BUILD_PLAY
  | ROAD_BUILDING_PLACE
  | YEAR_OF_PLENTY_PICK
  | MONOPOLY_PICK
  | GAME_OVER

datatype py_error = ValueError | IndexError | AssertionError

type_synonym hand = "resource \<Rightarrow> int"

definition RESOURCES :: "resource list" where
  "RESOURCES = [Lumber, Brick, Wool, Grain, Ore]"

definition TERRAIN_DISTRIBUTION :: "terrain list" where
  "TERRAIN_DISTRIBUTION =
     [Forest, Forest, Forest, Forest,
      Hills, Hills, Hills,
      Pasture, Pasture, Pasture, Pasture,
      Fields, Fields, Fields, Fields,
      Mountains, Mountains, Mountains,
      Desert]"

definition NUMBER_TOKEN_DISTRIBUTION :: "int list" where
  "NUMBER_TOKEN_DISTRIBUTION = [2, 3, 3, 4, 4, 5, 5, 6, 6, 8, 8, 9, 9, 10, 10, 11, 11, 12]"

definition DEV_CARD_DISTRIBUTION :: "dev_card list" where
  "DEV_CARD_DISTRIBUTION =
     replicate 14 Knight @ replicate 5 Victory_point @ replicate 2 Road_building
     @ replicate 2 Year_of_plenty @ replicate 2 Monopoly"

fun TERRAIN_TO_RESOURCE :: "terrain \<Rightarrow> resource option" where
  "TERRAIN_TO_RESOURCE Forest = Some Lumber"
| "TERRAIN_TO_RESOURCE Hills = Some Brick"
| "TERRAIN_TO_RESOURCE Pasture = Some Wool"
| "TERRAIN_TO_RESOURCE Fields = Some Grain"
| "TERRAIN_TO_RESOURCE Mountains = Some Ore"
| "TERRAIN_TO_RESOURCE Desert = None"

fun ROAD_COST :: hand where
  "ROAD_COST Lumber = 1" | "ROAD_COST Brick = 1" | "ROAD_COST Wool = 0"
| "ROAD_COST Grain = 0" | "ROAD_COST Ore = 0"

fun SETTLEMENT_COST :: hand where
  "SETTLEMENT_COST Lumber = 1" | "SETTLEMENT_COST Brick = 1" | "SETTLEMENT_COST Wool = 1"
| "SETTLEMENT_COST Grain = 1" | "SETTLEMENT_COST Ore = 0"

fun CITY_COST :: hand where
  "CITY_COST Lumber = 0" | "CITY_COST Brick = 0" | "CITY_COST Wool = 0"
| "CITY_COST Grain = 2" | "CITY_COST Ore = 3"

fun DEV_CARD_COST :: hand where
  "DEV_CARD_COST Lumber = 0" | "DEV_CARD_COST Brick = 0" | "DEV_CARD_COST Wool = 1"
| "DEV_CARD_COST Grain = 1" | "DEV_CARD_COST Ore = 1"

definition MAX_SETTLEMENTS :: int where "MAX_SETTLEMENTS = 5"
definition MAX_CITIES :: int where "MAX_CITIES = 4"
definition MAX_ROADS :: int where "MAX_ROADS = 15"
definition BANK_PER_RESOURCE :: int where "BANK_PER_RESOURCE = 19"
definition VP_TO_WIN :: int where "VP_TO_WIN = 10"
definition MIN_LONGEST_ROAD :: int where "MIN_LONGEST_ROAD = 5"
definition MIN_LARGEST_ARMY :: int where "MIN_LARGEST_ARMY = 3"

definition HEX_SIZE :: real where "HEX_SIZE = 50"

definition STANDARD_HEX_POSITIONS :: "(int \<times> int) list" where
  "STANDARD_HEX_POSITIONS =
     [(0, -2), (1, -2), (2, -2),
      (-1, -1), (0, -1), (1, -1), (2, -1),
      (-2, 0), (-1, 0), (0, 0), (1, 0), (2, 0),
      (-2, 1), (-1, 1), (0, 1), (1, 1),
      (-2, 2), (-1, 2), (0, 2)]"

subsection \<open>Raising list operations\<close>

text \<open>\<^verbatim>\<open>xs[i]\<close> and \<^verbatim>\<open>xs[i] = v\<close> for a non-negative index: out of range they raise.\<close>

definition nth_e :: "'a list \<Rightarrow> nat \<Rightarrow> 'a option" where
  "nth_e xs i = (if i < length xs then Some (xs ! i) else None)"

definition upd_e :: "'a list \<Rightarrow> nat \<Rightarrow> 'a \<Rightarrow> 'a list option" where
  "upd_e xs i v = (if i < length xs then Some (xs[i := v]) else None)"

text \<open>A comprehension or loop whose body can raise: the first exception ends it.\<close>

fun map_e :: "('a \<Rightarrow> 'b option) \<Rightarrow> 'a list \<Rightarrow> 'b list option" where
  "map_e f [] = Some []"
| "map_e f (x # xs) = do { y \<leftarrow> f x; ys \<leftarrow> map_e f xs; Some (y # ys) }"

fun filter_e :: "('a \<Rightarrow> bool option) \<Rightarrow> 'a list \<Rightarrow> 'a list option" where
  "filter_e f [] = Some []"
| "filter_e f (x # xs) = do { b \<leftarrow> f x; ys \<leftarrow> filter_e f xs; Some (if b then x # ys else ys) }"

text \<open>\<^verbatim>\<open>any(...)\<close> over a generator stops at the first true element.\<close>

fun any_e :: "('a \<Rightarrow> bool option) \<Rightarrow> 'a list \<Rightarrow> bool option" where
  "any_e f [] = Some False"
| "any_e f (x # xs) = do { b \<leftarrow> f x; if b then Some True else any_e f xs }"

fun fold_e :: "('a \<Rightarrow> 's \<Rightarrow> 's option) \<Rightarrow> 'a list \<Rightarrow> 's \<Rightarrow> 's option" where
  "fold_e f [] s = Some s"
| "fold_e f (x # xs) s = do { s' \<leftarrow> f x s; fold_e f xs s' }"

subsection \<open>Board topology\<close>

text \<open>
  The source computes corner positions in IEEE double precision. Here a position is a
  pair of exact reals: the rounding error of the source's few multiplications and
  additions (below \<open>10\<^sup>-\<^sup>9\<close>) is far from both the tolerance \<open>0.01\<close> of
  \<^verbatim>\<open>points_equal\<close> and the distance between two distinct corners (at least 25).
\<close>

type_synonym point = "real \<times> real"

definition hex_to_pixel :: "int \<Rightarrow> int \<Rightarrow> real \<Rightarrow> point" where
  "hex_to_pixel q r sz =
     (sz * (sqrt 3 * real_of_int q + (sqrt 3 / 2) * real_of_int r),
      sz * (1.5 * real_of_int r))"

definition hex_corner :: "real \<Rightarrow> real \<Rightarrow> real \<Rightarrow> nat \<Rightarrow> point" where
  "hex_corner cx cy sz i =
     (let angle_deg = 60 * real i - 30;
          angle_rad = pi / 180 * angle_deg
      in (cx + sz * cos angle_rad, cy + sz * sin angle_rad))"

definition hex_corners :: "real \<Rightarrow> real \<Rightarrow> real \<Rightarrow> point list" where
  "hex_corners cx cy sz = map (hex_corner cx cy sz) [0..<6]"

definition points_equal :: "point \<Rightarrow> point \<Rightarrow> bool" where
  "points_equal a b = (\<bar>fst a - fst b\<bar> < 0.01 \<and> \<bar>snd a - snd b\<bar> < 0.01)"

record BoardTopology =
  hex_coords :: "(int \<times> int) list"
  hex_centers :: "point list"
  vertex_positions :: "point list"
  vertex_count :: nat
  edge_count :: nat
  vertex_adjacent_vertices :: "nat list list"
  vertex_adjacent_edges :: "nat list list"
  vertex_adjacent_hexes :: "nat list list"
  edge_endpoints :: "(nat \<times> nat) list"
  edge_adjacent_edges :: "nat list list"
  hex_vertices :: "nat list list"
  hex_edges :: "nat list list"

text \<open>
  Steps 1 and 2 of \<^verbatim>\<open>build_board_topology\<close>: the search for an existing vertex
  (\<^verbatim>\<open>enumerate\<close> with \<^verbatim>\<open>break\<close>) and the loop over the corners of every hex. The
  equality test is a parameter, instantiated with \<open>points_equal\<close> below.
\<close>

fun find_existing :: "('p \<Rightarrow> 'p \<Rightarrow> bool) \<Rightarrow> 'p list \<Rightarrow> 'p \<Rightarrow> nat \<Rightarrow> nat option" where
  "find_existing eq [] corner vid = None"
| "find_existing eq (vp # vps) corner vid =
     (if eq vp corner then Some vid else find_existing eq vps corner (Suc vid))"

definition place_corner ::
  "('p \<Rightarrow> 'p \<Rightarrow> bool) \<Rightarrow> 'p list \<times> nat list \<Rightarrow> 'p \<Rightarrow> 'p list \<times> nat list" where
  "place_corner eq acc corner =
     (case acc of (vps, vids) \<Rightarrow>
        (case find_existing eq vps corner 0 of
           Some existing \<Rightarrow> (vps, vids @ [existing])
         | None \<Rightarrow> (vps @ [corner], vids @ [length vps])))"

definition place_hex ::
  "('p \<Rightarrow> 'p \<Rightarrow> bool) \<Rightarrow> 'p list \<times> nat list list \<Rightarrow> 'p list \<Rightarrow> 'p list \<times> nat list list" where
  "place_hex eq acc corners =
     (case acc of (vps, hex_corner_vids) \<Rightarrow>
        (case foldl (place_corner eq) (vps, []) corners of
           (vps', vids) \<Rightarrow> (vps', hex_corner_vids @ [vids])))"

definition dedup_vertices ::
  "('p \<Rightarrow> 'p \<Rightarrow> bool) \<Rightarrow> 'p list list \<Rightarrow> 'p list \<times> nat list list" where
  "dedup_vertices eq corner_lists = foldl (place_hex eq) ([], []) corner_lists"

text \<open>
  Step 3: edges are consecutive corner pairs of a hex, deduplicated through the
  dictionary \<^verbatim>\<open>edge_map\<close> keyed by \<^verbatim>\<open>(min, max)\<close>. Every \<^verbatim>\<open>vids\<close> holds six entries
  (one per corner), so \<^verbatim>\<open>vids[i]\<close> and \<^verbatim>\<open>vids[(i + 1) % 6]\<close> are in range.
\<close>

type_synonym edge_acc = "(nat \<times> nat) list \<times> (nat \<times> nat \<rightharpoonup> nat)"

definition place_edge :: "nat list \<Rightarrow> edge_acc \<times> nat list \<Rightarrow> nat \<Rightarrow> edge_acc \<times> nat list" where
  "place_edge vids acc i =
     (case acc of ((ends, edge_map), eids) \<Rightarrow>
        (let v1 = vids ! i;
             v2 = vids ! ((i + 1) mod 6);
             key = (min v1 v2, max v1 v2)
         in (case edge_map key of
               None \<Rightarrow> ((ends @ [key], edge_map(key \<mapsto> length ends)),
                         eids @ [length ends])
             | Some eid \<Rightarrow> ((ends, edge_map), eids @ [eid]))))"

definition place_hex_edges :: "edge_acc \<times> nat list list \<Rightarrow> nat list \<Rightarrow> edge_acc \<times> nat list list" where
  "place_hex_edges acc vids =
     (case acc of (em, hex_edge_ids) \<Rightarrow>
        (case foldl (place_edge vids) (em, []) [0..<6] of
           (em', eids) \<Rightarrow> (em', hex_edge_ids @ [eids])))"

definition identify_edges :: "nat list list \<Rightarrow> (nat \<times> nat) list \<times> nat list list" where
  "identify_edges hex_corner_vids =
     (case foldl place_hex_edges (([], Map.empty), []) hex_corner_vids of
        ((ends, edge_map), hex_edge_ids) \<Rightarrow> (ends, hex_edge_ids))"

text \<open>
  Step 4: the adjacency tables. Each table has one list per vertex (or edge) and every
  index written comes from the tables built before, so the writes are in range.
\<close>

definition append_at :: "nat \<Rightarrow> 'a \<Rightarrow> 'a list list \<Rightarrow> 'a list list" where
  "append_at i x t = t[i := t ! i @ [x]]"

definition append_new_at :: "nat \<Rightarrow> 'a \<Rightarrow> 'a list list \<Rightarrow> 'a list list" where
  "append_new_at i x t = (if x \<in> set (t ! i) then t else append_at i x t)"

definition build_v_adj_hexes :: "nat \<Rightarrow> nat list list \<Rightarrow> nat list list" where
  "build_v_adj_hexes n_vertices hvs =
     foldl (\<lambda>t hid. foldl (\<lambda>t vid. append_new_at vid hid t) t (hvs ! hid))
       (replicate n_vertices []) [0..<length hvs]"

definition build_v_adj_edges :: "nat \<Rightarrow> (nat \<times> nat) list \<Rightarrow> nat list list" where
  "build_v_adj_edges n_vertices ends =
     foldl (\<lambda>t (eid, (v1, v2)). append_at v2 eid (append_at v1 eid t))
       (replicate n_vertices []) (enumerate 0 ends)"

definition build_v_adj_verts :: "nat \<Rightarrow> (nat \<times> nat) list \<Rightarrow> nat list list" where
  "build_v_adj_verts n_vertices ends =
     foldl (\<lambda>t (v1, v2). append_new_at v2 v1 (append_new_at v1 v2 t))
       (replicate n_vertices []) ends"

definition build_e_adj_edges :: "(nat \<times> nat) list \<Rightarrow> nat list list \<Rightarrow> nat list list" where
  "build_e_adj_edges ends v_adj_edges =
     foldl (\<lambda>t eid.
        (case ends ! eid of (v1, v2) \<Rightarrow>
           foldl (\<lambda>t adj_eid. if adj_eid \<noteq> eid then append_new_at eid adj_eid t else t)
             (foldl (\<lambda>t adj_eid. if adj_eid \<noteq> eid then append_new_at eid adj_eid t else t)
                t (v_adj_edges ! v1))
             (v_adj_edges ! v2)))
       (replicate (length ends) []) [0..<length ends]"

definition assemble_topology ::
  "(int \<times> int) list \<Rightarrow> point list \<Rightarrow> point list \<Rightarrow> nat list list \<Rightarrow> BoardTopology" where
  "assemble_topology hex_positions centers positions hex_corner_vids =
     (case identify_edges hex_corner_vids of (endpoints, hex_edge_ids) \<Rightarrow>
        (let v_adj_edges = build_v_adj_edges (length positions) endpoints in
         \<lparr> hex_coords = hex_positions,
           hex_centers = centers,
           vertex_positions = positions,
           vertex_count = length positions,
           edge_count = length endpoints,
           vertex_adjacent_vertices = build_v_adj_verts (length positions) endpoints,
           vertex_adjacent_edges = v_adj_edges,
           vertex_adjacent_hexes = build_v_adj_hexes (length positions) hex_corner_vids,
           edge_endpoints = endpoints,
           edge_adjacent_edges = build_e_adj_edges endpoints v_adj_edges,
           hex_vertices = hex_corner_vids,
           hex_edges = hex_edge_ids \<rparr>))"

definition build_board_topology :: "(int \<times> int) list \<Rightarrow> real \<Rightarrow> BoardTopology" where
  "build_board_topology hex_positions sz =
     (let centers = map (\<lambda>(q, r). hex_to_pixel q r sz) hex_positions in
      (case dedup_vertices points_equal (map (\<lambda>(cx, cy). hex_corners cx cy sz) centers) of
         (positions, hex_corner_vids) \<Rightarrow>
           assemble_topology hex_positions centers positions hex_corner_vids))"

text \<open>The topology of a game: \<^verbatim>\<open>build_board_topology()\<close> with its default arguments.\<close>

definition standard_topology :: BoardTopology where
  "standard_topology = build_board_topology STANDARD_HEX_POSITIONS HEX_SIZE"

text \<open>
  The same corners on the integer lattice: the corner \<open>i\<close> of the hex \<open>(q, r)\<close> is
  \<open>(sz * sqrt 3 / 2 * a, sz / 2 * b)\<close> for the pair \<open>(a, b)\<close> below. Used to evaluate
  the deduplication; shown equal to the source's computation in \<open>dedup_lattice\<close>.
\<close>

definition corner_dx :: "int list" where "corner_dx = [1, 1, 0, -1, -1, 0]"
definition corner_dy :: "int list" where "corner_dy = [-1, 1, 2, 1, -1, -2]"

definition lattice_corners :: "int \<times> int \<Rightarrow> (int \<times> int) list" where
  "lattice_corners h = (case h of (q, r) \<Rightarrow>
     map (\<lambda>i. (2 * q + r + corner_dx ! i, 3 * r + corner_dy ! i)) [0..<6])"

definition lattice_point :: "real \<Rightarrow> int \<times> int \<Rightarrow> point" where
  "lattice_point sz p = (sz * (sqrt 3 / 2) * real_of_int (fst p), sz / 2 * real_of_int (snd p))"

text \<open>
  The tables that \<open>build_board_topology\<close> computes for the standard board, written out;
  \<open>standard_topology_tables\<close> proves that they are its result.
\<close>

definition std_lattice_positions :: "(int \<times> int) list" where
  "std_lattice_positions =
     [(- 1, - 7), (- 1, - 5), (- 2, - 4), (- 3, - 5), (- 3, - 7), (- 2, - 8), (1, - 7), (1, -
     5), (0, - 4), (0, - 8), (3, - 7), (3, - 5), (2, - 4), (2, - 8), (- 2, - 2), (- 3, - 1), (-
     4, - 2), (- 4, - 4), (0, - 2), (- 1, - 1), (2, - 2), (1, - 1), (4, - 4), (4, - 2), (3, -
     1), (- 3, 1), (- 4, 2), (- 5, 1), (- 5, - 1), (- 1, 1), (- 2, 2), (1, 1), (0, 2), (3, 1),
     (2, 2), (5, - 1), (5, 1), (4, 2), (- 2, 4), (- 3, 5), (- 4, 4), (0, 4), (- 1, 5), (2, 4),
     (1, 5), (4, 4), (3, 5), (- 1, 7), (- 2, 8), (- 3, 7), (1, 7), (0, 8), (3, 7), (2, 8)]"

definition std_hex_vertices :: "nat list list" where
  "std_hex_vertices =
     [[0, 1, 2, 3, 4, 5], [6, 7, 8, 1, 0, 9], [10, 11, 12, 7, 6, 13], [2, 14, 15, 16, 17, 3],
     [8, 18, 19, 14, 2, 1], [12, 20, 21, 18, 8, 7], [22, 23, 24, 20, 12, 11], [15, 25, 26, 27,
     28, 16], [19, 29, 30, 25, 15, 14], [21, 31, 32, 29, 19, 18], [24, 33, 34, 31, 21, 20],
     [35, 36, 37, 33, 24, 23], [30, 38, 39, 40, 26, 25], [32, 41, 42, 38, 30, 29], [34, 43, 44,
     41, 32, 31], [37, 45, 46, 43, 34, 33], [42, 47, 48, 49, 39, 38], [44, 50, 51, 47, 42, 41],
     [46, 52, 53, 50, 44, 43]]"

definition std_edge_endpoints :: "(nat \<times> nat) list" where
  "std_edge_endpoints =
     [(0, 1), (1, 2), (2, 3), (3, 4), (4, 5), (0, 5), (6, 7), (7, 8), (1, 8), (0, 9), (6, 9),
     (10, 11), (11, 12), (7, 12), (6, 13), (10, 13), (2, 14), (14, 15), (15, 16), (16, 17), (3,
     17), (8, 18), (18, 19), (14, 19), (12, 20), (20, 21), (18, 21), (22, 23), (23, 24), (20,
     24), (11, 22), (15, 25), (25, 26), (26, 27), (27, 28), (16, 28), (19, 29), (29, 30), (25,
     30), (21, 31), (31, 32), (29, 32), (24, 33), (33, 34), (31, 34), (35, 36), (36, 37), (33,
     37), (23, 35), (30, 38), (38, 39), (39, 40), (26, 40), (32, 41), (41, 42), (38, 42), (34,
     43), (43, 44), (41, 44), (37, 45), (45, 46), (43, 46), (42, 47), (47, 48), (48, 49), (39,
     49), (44, 50), (50, 51), (47, 51), (46, 52), (52, 53), (50, 53)]"

definition std_hex_edges :: "nat list list" where
  "std_hex_edges =
     [[0, 1, 2, 3, 4, 5], [6, 7, 8, 0, 9, 10], [11, 12, 13, 6, 14, 15], [16, 17, 18, 19, 20,
     2], [21, 22, 23, 16, 1, 8], [24, 25, 26, 21, 7, 13], [27, 28, 29, 24, 12, 30], [31, 32,
     33, 34, 35, 18], [36, 37, 38, 31, 17, 23], [39, 40, 41, 36, 22, 26], [42, 43, 44, 39, 25,
     29], [45, 46, 47, 42, 28, 48], [49, 50, 51, 52, 32, 38], [53, 54, 55, 49, 37, 41], [56,
     57, 58, 53, 40, 44], [59, 60, 61, 56, 43, 47], [62, 63, 64, 65, 50, 55], [66, 67, 68, 62,
     54, 58], [69, 70, 71, 66, 57, 61]]"

definition std_vertex_adjacent_hexes :: "nat list list" where
  "std_vertex_adjacent_hexes =
     [[0, 1], [0, 1, 4], [0, 3, 4], [0, 3], [0], [0], [1, 2], [1, 2, 5], [1, 4, 5], [1], [2],
     [2, 6], [2, 5, 6], [2], [3, 4, 8], [3, 7, 8], [3, 7], [3], [4, 5, 9], [4, 8, 9], [5, 6,
     10], [5, 9, 10], [6], [6, 11], [6, 10, 11], [7, 8, 12], [7, 12], [7], [7], [8, 9, 13], [8,
     12, 13], [9, 10, 14], [9, 13, 14], [10, 11, 15], [10, 14, 15], [11], [11], [11, 15], [12,
     13, 16], [12, 16], [12], [13, 14, 17], [13, 16, 17], [14, 15, 18], [14, 17, 18], [15],
     [15, 18], [16, 17], [16], [16], [17, 18], [17], [18], [18]]"

definition std_vertex_adjacent_edges :: "nat list list" where
  "std_vertex_adjacent_edges =
     [[0, 5, 9], [0, 1, 8], [1, 2, 16], [2, 3, 20], [3, 4], [4, 5], [6, 10, 14], [6, 7, 13],
     [7, 8, 21], [9, 10], [11, 15], [11, 12, 30], [12, 13, 24], [14, 15], [16, 17, 23], [17,
     18, 31], [18, 19, 35], [19, 20], [21, 22, 26], [22, 23, 36], [24, 25, 29], [25, 26, 39],
     [27, 30], [27, 28, 48], [28, 29, 42], [31, 32, 38], [32, 33, 52], [33, 34], [34, 35], [36,
     37, 41], [37, 38, 49], [39, 40, 44], [40, 41, 53], [42, 43, 47], [43, 44, 56], [45, 48],
     [45, 46], [46, 47, 59], [49, 50, 55], [50, 51, 65], [51, 52], [53, 54, 58], [54, 55, 62],
     [56, 57, 61], [57, 58, 66], [59, 60], [60, 61, 69], [62, 63, 68], [63, 64], [64, 65], [66,
     67, 71], [67, 68], [69, 70], [70, 71]]"

definition std_vertex_adjacent_vertices :: "nat list list" where
  "std_vertex_adjacent_vertices =
     [[1, 5, 9], [0, 2, 8], [1, 3, 14], [2, 4, 17], [3, 5], [4, 0], [7, 9, 13], [6, 8, 12], [7,
     1, 18], [0, 6], [11, 13], [10, 12, 22], [11, 7, 20], [6, 10], [2, 15, 19], [14, 16, 25],
     [15, 17, 28], [16, 3], [8, 19, 21], [18, 14, 29], [12, 21, 24], [20, 18, 31], [23, 11],
     [22, 24, 35], [23, 20, 33], [15, 26, 30], [25, 27, 40], [26, 28], [27, 16], [19, 30, 32],
     [29, 25, 38], [21, 32, 34], [31, 29, 41], [24, 34, 37], [33, 31, 43], [36, 23], [35, 37],
     [36, 33, 45], [30, 39, 42], [38, 40, 49], [39, 26], [32, 42, 44], [41, 38, 47], [34, 44,
     46], [43, 41, 50], [37, 46], [45, 43, 52], [42, 48, 51], [47, 49], [48, 39], [44, 51, 53],
     [50, 47], [46, 53], [52, 50]]"

definition std_edge_adjacent_edges :: "nat list list" where
  "std_edge_adjacent_edges =
     [[5, 9, 1, 8], [0, 8, 2, 16], [1, 16, 3, 20], [2, 20, 4], [3, 5], [0, 9, 4], [10, 14, 7,
     13], [6, 13, 8, 21], [0, 1, 7, 21], [0, 5, 10], [6, 14, 9], [15, 12, 30], [11, 30, 13,
     24], [6, 7, 12, 24], [6, 10, 15], [11, 14], [1, 2, 17, 23], [16, 23, 18, 31], [17, 31, 19,
     35], [18, 35, 20], [2, 3, 19], [7, 8, 22, 26], [21, 26, 23, 36], [16, 17, 22, 36], [12,
     13, 25, 29], [24, 29, 26, 39], [21, 22, 25, 39], [30, 28, 48], [27, 48, 29, 42], [24, 25,
     28, 42], [11, 12, 27], [17, 18, 32, 38], [31, 38, 33, 52], [32, 52, 34], [33, 35], [18,
     19, 34], [22, 23, 37, 41], [36, 41, 38, 49], [31, 32, 37, 49], [25, 26, 40, 44], [39, 44,
     41, 53], [36, 37, 40, 53], [28, 29, 43, 47], [42, 47, 44, 56], [39, 40, 43, 56], [48, 46],
     [45, 47, 59], [42, 43, 46, 59], [27, 28, 45], [37, 38, 50, 55], [49, 55, 51, 65], [50, 65,
     52], [32, 33, 51], [40, 41, 54, 58], [53, 58, 55, 62], [49, 50, 54, 62], [43, 44, 57, 61],
     [56, 61, 58, 66], [53, 54, 57, 66], [46, 47, 60], [59, 61, 69], [56, 57, 60, 69], [54, 55,
     63, 68], [62, 68, 64], [63, 65], [50, 51, 64], [57, 58, 67, 71], [66, 71, 68], [62, 63,
     67], [60, 61, 70], [69, 71], [66, 67, 70]]"

subsection \<open>Harbors, players and the game state\<close>

text \<open>The field \<^verbatim>\<open>type\<close> of a harbor is \<open>kind\<close>; the field \<^verbatim>\<open>id\<close> of a player is \<open>player_id\<close>.\<close>

record Harbor =
  kind :: harbor_kind
  vertices :: "nat \<times> nat"

definition get_trade_ratio :: "Harbor list \<Rightarrow> nat list \<Rightarrow> resource \<Rightarrow> int" where
  "get_trade_ratio hs player_vertices r =
     foldl (\<lambda>ratio h.
        (let has_access = (fst (vertices h) \<in> set player_vertices
                           \<or> snd (vertices h) \<in> set player_vertices)
         in if \<not> has_access then ratio
            else if kind h = Generic then min ratio 3
            else if kind h = Specific r then min ratio 2
            else ratio))
       4 hs"

definition empty_resources :: hand where
  "empty_resources = (\<lambda>r. 0)"

definition has_resources :: "hand \<Rightarrow> hand \<Rightarrow> bool" where
  "has_resources hnd cost = list_all (\<lambda>r. hnd r \<ge> cost r) RESOURCES"

definition total_resources :: "hand \<Rightarrow> int" where
  "total_resources hnd = sum_list (map hnd RESOURCES)"

record PlayerState =
  player_id :: nat
  resources :: hand
  dev_cards :: "dev_card list"
  new_dev_cards :: "dev_card list"
  knights_played :: int
  remaining_settlements :: int
  remaining_cities :: int
  remaining_roads :: int
  has_played_dev_card_this_turn :: bool

definition new_player :: "nat \<Rightarrow> PlayerState" where
  "new_player i =
     \<lparr> player_id = i, resources = empty_resources, dev_cards = [], new_dev_cards = [],
       knights_played = 0, remaining_settlements = MAX_SETTLEMENTS,
       remaining_cities = MAX_CITIES, remaining_roads = MAX_ROADS,
       has_played_dev_card_this_turn = False \<rparr>"

record CatanState =
  phase :: phase
  current_player :: nat
  player_count :: nat
  turn_number :: int
  topology :: "BoardTopology option"
  hex_terrains :: "terrain list"
  hex_numbers :: "int option list"
  vertex_buildings :: "(building \<times> nat) option list"
  edge_roads :: "nat option list"
  harbors :: "Harbor list"
  robber_hex :: nat
  players :: "PlayerState list"
  dev_card_deck :: "dev_card list"
  bank :: hand
  longest_road_player :: "nat option"
  longest_road_length :: int
  largest_army_player :: "nat option"
  largest_army_size :: int
  last_roll :: "(int \<times> int) option"
  setup_round :: nat
  setup_index :: nat
  players_needing_discard :: "nat list"
  road_building_roads_left :: int
  last_placed_vertex :: "nat option"
  winner :: "nat option"

text \<open>\<^verbatim>\<open>topo = state.topology; assert topo is not None\<close>\<close>

definition get_topology :: "CatanState \<Rightarrow> BoardTopology option" where
  "get_topology s = topology s"

text \<open>In-place change of one player's record, \<^verbatim>\<open>state.players[pid].f = ...\<close>.\<close>

definition update_player :: "nat \<Rightarrow> (PlayerState \<Rightarrow> PlayerState) \<Rightarrow> CatanState \<Rightarrow> CatanState option" where
  "update_player pid f s =
     do { p \<leftarrow> nth_e (players s) pid;
          Some (s\<lparr>players := (players s)[pid := f p]\<rparr>) }"

definition add_resource :: "resource \<Rightarrow> int \<Rightarrow> PlayerState \<Rightarrow> PlayerState" where
  "add_resource r n p = p\<lparr>resources := (resources p)(r := resources p r + n)\<rparr>"

definition bank_add :: "resource \<Rightarrow> int \<Rightarrow> CatanState \<Rightarrow> CatanState" where
  "bank_add r n s = s\<lparr>bank := (bank s)(r := bank s r + n)\<rparr>"

definition get_setup_order :: "nat \<Rightarrow> nat list" where
  "get_setup_order n = [0..<n] @ rev [0..<n]"

subsection \<open>Longest road\<close>

text \<open>
  \<^verbatim>\<open>_lr_dfs\<close>: the loop over the edges at a vertex is \<open>lr_dfs_edges\<close>. The set
  \<^verbatim>\<open>visited_edges\<close> is shared and restored after each edge (\<^verbatim>\<open>add\<close>, then
  \<^verbatim>\<open>discard\<close>), so the recursive call sees it with the edge added and the rest of the
  loop sees it unchanged.
\<close>

function lr_dfs :: "CatanState \<Rightarrow> BoardTopology \<Rightarrow> nat \<Rightarrow> nat list \<Rightarrow> nat \<Rightarrow> nat list \<Rightarrow> int option"
  and lr_dfs_edges ::
    "CatanState \<Rightarrow> BoardTopology \<Rightarrow> nat \<Rightarrow> nat list \<Rightarrow> nat \<Rightarrow> nat list \<Rightarrow> nat list \<Rightarrow> int \<Rightarrow> int option"
  where
  "lr_dfs s topo player player_edges vertex visited_edges =
     do { es \<leftarrow> nth_e (vertex_adjacent_edges topo) vertex;
          lr_dfs_edges s topo player player_edges vertex visited_edges es 0 }"
| "lr_dfs_edges s topo player player_edges vertex visited_edges [] max_len = Some max_len"
| "lr_dfs_edges s topo player player_edges vertex visited_edges (eid # es) max_len =
     (if eid \<notin> set player_edges then
        lr_dfs_edges s topo player player_edges vertex visited_edges es max_len
      else if eid \<in> set visited_edges then
        lr_dfs_edges s topo player player_edges vertex visited_edges es max_len
      else
        do { ends \<leftarrow> nth_e (edge_endpoints topo) eid;
             let next_v = (if fst ends = vertex then snd ends else fst ends);
             bldg \<leftarrow> nth_e (vertex_buildings s) next_v;
             let blocked = (case bldg of None \<Rightarrow> False | Some b \<Rightarrow> snd b \<noteq> player);
             if blocked then
               lr_dfs_edges s topo player player_edges vertex visited_edges es (max max_len 1)
             else
               do { sub \<leftarrow> lr_dfs s topo player player_edges next_v (eid # visited_edges);
                    lr_dfs_edges s topo player player_edges vertex visited_edges es
                      (max max_len (1 + sub)) } })"
  by pat_completeness auto
termination
  by (relation "inv_image (less_than <*lex*> less_than <*lex*> less_than)
        (\<lambda>x. case x of
           Inl (s, topo, player, pes, v, vis) \<Rightarrow> (card (set pes - set vis), 1::nat, 0::nat)
         | Inr (s, topo, player, pes, v, vis, es, m) \<Rightarrow> (card (set pes - set vis), 0, length es))")
    (auto simp: card_gt_0_iff intro!: diff_less)

definition calculate_longest_road :: "CatanState \<Rightarrow> nat \<Rightarrow> int option" where
  "calculate_longest_road s player =
     do { topo \<leftarrow> get_topology s;
          player_edges \<leftarrow> filter_e (\<lambda>eid. do { r \<leftarrow> nth_e (edge_roads s) eid; Some (r = Some player) })
                            [0..<edge_count topo];
          if player_edges = [] then Some 0
          else
            do { ends \<leftarrow> map_e (nth_e (edge_endpoints topo)) player_edges;
                 let start_vertices = remdups (concat (map (\<lambda>e. [fst e, snd e]) ends));
                 lens \<leftarrow> map_e (\<lambda>sv. lr_dfs s topo player player_edges sv []) start_vertices;
                 Some (foldl (\<lambda>max_length l. if l > max_length then l else max_length) 0 lens) } }"

text \<open>The two scans of \<^verbatim>\<open>update_longest_road\<close> over \<^verbatim>\<open>range(state.player_count)\<close>.\<close>

definition lr_scan_keep ::
  "CatanState \<Rightarrow> nat \<Rightarrow> nat option \<times> int \<Rightarrow> (nat option \<times> int) option" where
  "lr_scan_keep s pid acc =
     (case acc of (longest_player, longest_length) \<Rightarrow>
        do { l \<leftarrow> calculate_longest_road s pid;
             Some (if l \<ge> MIN_LONGEST_ROAD then
                     (if longest_player = None then (Some pid, l)
                      else if l > longest_length then (Some pid, l)
                      else (longest_player, longest_length))
                   else (longest_player, longest_length)) })"

definition lr_scan_scratch ::
  "CatanState \<Rightarrow> nat \<Rightarrow> nat option \<times> int \<Rightarrow> (nat option \<times> int) option" where
  "lr_scan_scratch s pid acc =
     (case acc of (longest_player, longest_length) \<Rightarrow>
        do { l \<leftarrow> calculate_longest_road s pid;
             Some (if l \<ge> MIN_LONGEST_ROAD \<and> l > longest_length then (Some pid, l)
                   else (longest_player, longest_length)) })"

definition update_longest_road :: "CatanState \<Rightarrow> CatanState option" where
  "update_longest_road s =
     do { acc \<leftarrow> fold_e (lr_scan_keep s) [0..<player_count s]
                   (longest_road_player s, longest_road_length s);
          acc' \<leftarrow> (case fst acc of
                     None \<Rightarrow> Some acc
                   | Some holder \<Rightarrow>
                       do { cur \<leftarrow> calculate_longest_road s holder;
                            if cur < MIN_LONGEST_ROAD then
                              fold_e (lr_scan_scratch s) [0..<player_count s] (None, 0)
                            else Some acc });
          Some (s\<lparr>longest_road_player := fst acc', longest_road_length := snd acc'\<rparr>) }"

subsection \<open>Largest army and victory points\<close>

definition la_scan :: "CatanState \<Rightarrow> nat \<Rightarrow> nat option \<times> int \<Rightarrow> (nat option \<times> int) option" where
  "la_scan s pid acc =
     (case acc of (largest_player, largest_size) \<Rightarrow>
        do { p \<leftarrow> nth_e (players s) pid;
             let knights = knights_played p;
             Some (if knights \<ge> MIN_LARGEST_ARMY then
                     (if largest_player = None then (Some pid, knights)
                      else if knights > largest_size then (Some pid, knights)
                      else (largest_player, largest_size))
                   else (largest_player, largest_size)) })"

definition update_largest_army :: "CatanState \<Rightarrow> CatanState option" where
  "update_largest_army s =
     do { acc \<leftarrow> fold_e (la_scan s) [0..<player_count s]
                   (largest_army_player s, largest_army_size s);
          Some (s\<lparr>largest_army_player := fst acc, largest_army_size := snd acc\<rparr>) }"

definition count_vp_cards :: "dev_card list \<Rightarrow> int" where
  "count_vp_cards cs = int (length (filter (\<lambda>c. c = Victory_point) cs))"

definition calculate_vp :: "CatanState \<Rightarrow> nat \<Rightarrow> int option" where
  "calculate_vp s player =
     do { topo \<leftarrow> get_topology s;
          vp \<leftarrow> fold_e (\<lambda>vid vp.
                  do { b \<leftarrow> nth_e (vertex_buildings s) vid;
                       Some (case b of
                               None \<Rightarrow> vp
                             | Some bo \<Rightarrow> if snd bo = player
                                           then vp + (if fst bo = City then 2 else 1) else vp) })
                 [0..<vertex_count topo] 0;
          let vp = (if longest_road_player s = Some player then vp + 2 else vp);
          let vp = (if largest_army_player s = Some player then vp + 2 else vp);
          p \<leftarrow> nth_e (players s) player;
          Some (vp + count_vp_cards (dev_cards p) + count_vp_cards (new_dev_cards p)) }"

definition check_game_over :: "CatanState \<Rightarrow> CatanState option" where
  "check_game_over s =
     do { vp \<leftarrow> calculate_vp s (current_player s);
          Some (if vp \<ge> VP_TO_WIN
                then s\<lparr>phase := GAME_OVER, winner := Some (current_player s)\<rparr>
                else s) }"

subsection \<open>Building and road validity\<close>

text \<open>The leading underscore of a private helper's name is dropped.\<close>

definition owns_road :: "CatanState \<Rightarrow> nat \<Rightarrow> nat \<Rightarrow> bool option" where
  "owns_road s player eid = do { r \<leftarrow> nth_e (edge_roads s) eid; Some (r = Some player) }"

definition is_occupied :: "CatanState \<Rightarrow> nat \<Rightarrow> bool option" where
  "is_occupied s vid = do { b \<leftarrow> nth_e (vertex_buildings s) vid; Some (b \<noteq> None) }"

definition is_vertex_accessible :: "CatanState \<Rightarrow> nat \<Rightarrow> nat \<Rightarrow> bool option" where
  "is_vertex_accessible s player vertex =
     do { bldg \<leftarrow> nth_e (vertex_buildings s) vertex;
          case bldg of
            Some b \<Rightarrow> Some (snd b = player)
          | None \<Rightarrow>
              do { topo \<leftarrow> get_topology s;
                   es \<leftarrow> nth_e (vertex_adjacent_edges topo) vertex;
                   any_e (owns_road s player) es } }"

definition get_valid_road_edges_no_resource_check :: "CatanState \<Rightarrow> nat \<Rightarrow> nat list option" where
  "get_valid_road_edges_no_resource_check s player =
     do { topo \<leftarrow> get_topology s;
          p \<leftarrow> nth_e (players s) player;
          if remaining_roads p \<le> 0 then Some []
          else filter_e (\<lambda>eid.
                 do { r \<leftarrow> nth_e (edge_roads s) eid;
                      if r \<noteq> None then Some False
                      else do { ends \<leftarrow> nth_e (edge_endpoints topo) eid;
                                a1 \<leftarrow> is_vertex_accessible s player (fst ends);
                                if a1 then Some True
                                else is_vertex_accessible s player (snd ends) } })
                 [0..<edge_count topo] }"

definition get_valid_road_edges :: "CatanState \<Rightarrow> nat \<Rightarrow> nat list option" where
  "get_valid_road_edges s player =
     do { p \<leftarrow> nth_e (players s) player;
          if remaining_roads p \<le> 0 then Some []
          else if \<not> has_resources (resources p) ROAD_COST then Some []
          else get_valid_road_edges_no_resource_check s player }"

definition is_valid_settlement_vertex :: "CatanState \<Rightarrow> nat \<Rightarrow> nat \<Rightarrow> bool option" where
  "is_valid_settlement_vertex s player vid =
     do { topo \<leftarrow> get_topology s;
          b \<leftarrow> nth_e (vertex_buildings s) vid;
          if b \<noteq> None then Some False
          else do { adjs \<leftarrow> nth_e (vertex_adjacent_vertices topo) vid;
                    near \<leftarrow> any_e (is_occupied s) adjs;
                    if near then Some False
                    else do { es \<leftarrow> nth_e (vertex_adjacent_edges topo) vid;
                              connected \<leftarrow> any_e (owns_road s player) es;
                              Some connected } } }"

definition get_valid_settlement_vertices :: "CatanState \<Rightarrow> nat \<Rightarrow> nat list option" where
  "get_valid_settlement_vertices s player =
     do { p \<leftarrow> nth_e (players s) player;
          if remaining_settlements p \<le> 0 then Some []
          else if \<not> has_resources (resources p) SETTLEMENT_COST then Some []
          else do { topo \<leftarrow> get_topology s;
                    filter_e (is_valid_settlement_vertex s player) [0..<vertex_count topo] } }"

definition get_valid_city_vertices :: "CatanState \<Rightarrow> nat \<Rightarrow> nat list option" where
  "get_valid_city_vertices s player =
     do { p \<leftarrow> nth_e (players s) player;
          if remaining_cities p \<le> 0 then Some []
          else if \<not> has_resources (resources p) CITY_COST then Some []
          else do { topo \<leftarrow> get_topology s;
                    filter_e (\<lambda>vid. do { b \<leftarrow> nth_e (vertex_buildings s) vid;
                                          Some (b = Some (Settlement, player)) })
                      [0..<vertex_count topo] } }"

definition get_valid_setup_settlement_vertices :: "CatanState \<Rightarrow> nat list option" where
  "get_valid_setup_settlement_vertices s =
     do { topo \<leftarrow> get_topology s;
          filter_e (\<lambda>vid.
             do { b \<leftarrow> nth_e (vertex_buildings s) vid;
                  if b \<noteq> None then Some False
                  else do { adjs \<leftarrow> nth_e (vertex_adjacent_vertices topo) vid;
                            has_adj \<leftarrow> any_e (is_occupied s) adjs;
                            Some (\<not> has_adj) } })
            [0..<vertex_count topo] }"

definition get_valid_setup_road_edges :: "CatanState \<Rightarrow> nat list option" where
  "get_valid_setup_road_edges s =
     (case last_placed_vertex s of
        None \<Rightarrow> Some []
      | Some v \<Rightarrow>
          do { topo \<leftarrow> get_topology s;
               es \<leftarrow> nth_e (vertex_adjacent_edges topo) v;
               filter_e (\<lambda>eid. do { r \<leftarrow> nth_e (edge_roads s) eid; Some (r = None) }) es })"

definition get_valid_robber_hexes :: "CatanState \<Rightarrow> nat list" where
  "get_valid_robber_hexes s = filter (\<lambda>hid. hid \<noteq> robber_hex s) [0..<length (hex_terrains s)]"

definition get_steal_targets :: "CatanState \<Rightarrow> nat \<Rightarrow> nat \<Rightarrow> nat list option" where
  "get_steal_targets s hex_id thief =
     do { topo \<leftarrow> get_topology s;
          vids \<leftarrow> nth_e (hex_vertices topo) hex_id;
          targets \<leftarrow> fold_e (\<lambda>vid targets.
                       do { b \<leftarrow> nth_e (vertex_buildings s) vid;
                            case b of
                              None \<Rightarrow> Some targets
                            | Some bo \<Rightarrow>
                                if snd bo \<noteq> thief then
                                  do { p \<leftarrow> nth_e (players s) (snd bo);
                                       Some (if total_resources (resources p) > 0
                                             then targets @ [snd bo] else targets) }
                                else Some targets })
                     vids [];
          Some (sort (remdups targets)) }"

definition get_player_vertices :: "CatanState \<Rightarrow> nat \<Rightarrow> nat list option" where
  "get_player_vertices s player =
     do { topo \<leftarrow> get_topology s;
          filter_e (\<lambda>vid. do { b \<leftarrow> nth_e (vertex_buildings s) vid;
                                Some (case b of None \<Rightarrow> False | Some bo \<Rightarrow> snd bo = player) })
            [0..<vertex_count topo] }"

definition get_player_trade_ratio :: "CatanState \<Rightarrow> nat \<Rightarrow> resource \<Rightarrow> int option" where
  "get_player_trade_ratio s player r =
     do { pverts \<leftarrow> get_player_vertices s player;
          Some (get_trade_ratio (harbors s) pverts r) }"

definition is_valid_maritime_trade :: "CatanState \<Rightarrow> nat \<Rightarrow> resource \<Rightarrow> resource \<Rightarrow> bool option" where
  "is_valid_maritime_trade s player give receive =
     (if give = receive then Some False
      else do { ratio \<leftarrow> get_player_trade_ratio s player give;
                p \<leftarrow> nth_e (players s) player;
                if resources p give < ratio then Some False
                else if bank s receive \<le> 0 then Some False
                else Some True })"

definition can_buy_dev_card :: "CatanState \<Rightarrow> nat \<Rightarrow> bool option" where
  "can_buy_dev_card s player =
     (if length (dev_card_deck s) = 0 then Some False
      else do { p \<leftarrow> nth_e (players s) player; Some (has_resources (resources p) DEV_CARD_COST) })"

definition can_play_dev_card :: "CatanState \<Rightarrow> nat \<Rightarrow> dev_card \<Rightarrow> bool option" where
  "can_play_dev_card s player card_type =
     do { p \<leftarrow> nth_e (players s) player;
          if has_played_dev_card_this_turn p then Some False
          else if card_type = Victory_point then Some False
          else Some (card_type \<in> set (dev_cards p)) }"

subsection \<open>Resource distribution\<close>

text \<open>
  \<^verbatim>\<open>player_demand\<close> is a dictionary from player to amount; it is iterated in insertion
  order, so it is an association list.
\<close>

fun demand_add :: "(nat \<times> int) list \<Rightarrow> nat \<Rightarrow> int \<Rightarrow> (nat \<times> int) list" where
  "demand_add [] k a = [(k, a)]"
| "demand_add (kv # d) k a =
     (if fst kv = k then (k, snd kv + a) # d else kv # demand_add d k a)"

definition hex_demand :: "CatanState \<Rightarrow> nat list \<Rightarrow> (int \<times> (nat \<times> int) list) option" where
  "hex_demand s vids =
     fold_e (\<lambda>vid acc.
        do { b \<leftarrow> nth_e (vertex_buildings s) vid;
             Some (case b of
                     None \<Rightarrow> acc
                   | Some bo \<Rightarrow>
                       (let amount = (if fst bo = City then 2 else 1)
                        in (fst acc + amount, demand_add (snd acc) (snd bo) amount))) })
       vids (0, [])"

definition pay_demand :: "resource \<Rightarrow> nat \<times> int \<Rightarrow> CatanState \<Rightarrow> CatanState option" where
  "pay_demand r d s =
     do { s' \<leftarrow> update_player (fst d) (add_resource r (snd d)) s;
          Some (bank_add r (- snd d) s') }"

definition distribute_hex :: "int \<Rightarrow> BoardTopology \<Rightarrow> nat \<Rightarrow> CatanState \<Rightarrow> CatanState option" where
  "distribute_hex dice_total topo hid s =
     do { number \<leftarrow> nth_e (hex_numbers s) hid;
          if number \<noteq> Some dice_total then Some s
          else if hid = robber_hex s then Some s
          else do { t \<leftarrow> nth_e (hex_terrains s) hid;
                    case TERRAIN_TO_RESOURCE t of
                      None \<Rightarrow> Some s
                    | Some r \<Rightarrow>
                        do { vids \<leftarrow> nth_e (hex_vertices topo) hid;
                             dem \<leftarrow> hex_demand s vids;
                             if fst dem > bank s r then Some s
                             else fold_e (pay_demand r) (snd dem) s } } }"

definition distribute_resources :: "CatanState \<Rightarrow> int \<Rightarrow> CatanState option" where
  "distribute_resources s dice_total =
     (if dice_total = 7 then Some s
      else do { topo \<leftarrow> get_topology s;
                fold_e (distribute_hex dice_total topo) [0..<length (hex_terrains s)] s })"

fun remove_dev_card :: "dev_card list \<Rightarrow> dev_card \<Rightarrow> dev_card list" where
  "remove_dev_card [] card_type = []"
| "remove_dev_card (c # cards) card_type =
     (if c = card_type then cards else c # remove_dev_card cards card_type)"

subsection \<open>Actions and the legal-action enumerator\<close>

text \<open>
  An action is a tuple tagged by its first component. The tags \<^verbatim>\<open>ROLL_DICE\<close> and
  \<^verbatim>\<open>MOVE_ROBBER\<close> are also phase names, so these two constructors carry a suffix.
  The payload of \<^verbatim>\<open>DISCARD_RESOURCES\<close> is the rest of the tuple, a list of counts.
\<close>

datatype action =
    PLACE_SETUP_SETTLEMENT nat
  | PLACE_SETUP_ROAD nat
  | ROLL_DICE_action
  | DISCARD_RESOURCES "int list"
  | MOVE_ROBBER_action nat
  | STEAL_RESOURCE "nat option"
  | BUILD_ROAD nat
  | BUILD_SETTLEMENT nat
  | BUILD_CITY nat
  | BUY_DEV_CARD
  | PLAY_KNIGHT
  | PLAY_ROAD_BUILDING
  | PLACE_ROAD_BUILDING_ROAD nat
  | PLAY_YEAR_OF_PLENTY
  | PICK_YEAR_OF_PLENTY_RESOURCES resource resource
  | PLAY_MONOPOLY
  | PICK_MONOPOLY_RESOURCE resource
  | MARITIME_TRADE resource resource
  | END_TURN

text \<open>
  \<^verbatim>\<open>_enumerate_discard\<close>: the argument \<open>res\<close> of \<open>recurse\<close> is \<^verbatim>\<open>res[idx:]\<close>, so
  \<^verbatim>\<open>idx == len(res)\<close> is the empty list and \<open>sum_list (map hnd rest)\<close> is the sum over
  \<^verbatim>\<open>range(idx + 1, len(res))\<close>.
\<close>

fun recurse :: "hand \<Rightarrow> resource list \<Rightarrow> int \<Rightarrow> int list \<Rightarrow> int list list" where
  "recurse hnd [] remaining chosen = (if remaining = 0 then [chosen] else [])"
| "recurse hnd (r # rest) remaining chosen =
     (let max_take = min (hnd r) remaining in
      concat (map (\<lambda>take.
                (let left_after = remaining - take;
                     max_possible = sum_list (map hnd rest)
                 in if left_after > max_possible then []
                    else recurse hnd rest left_after (chosen @ [take])))
              [0..max_take]))"

definition enumerate_discard :: "hand \<Rightarrow> int \<Rightarrow> action list" where
  "enumerate_discard hnd n = map DISCARD_RESOURCES (recurse hnd RESOURCES n [])"

definition year_of_plenty_actions :: "CatanState \<Rightarrow> action list" where
  "year_of_plenty_actions s =
     concat (map (\<lambda>i.
        (let r1 = RESOURCES ! i in
         concat (map (\<lambda>r2.
            if r1 = r2 then
              (if bank s r1 \<ge> 2 then [PICK_YEAR_OF_PLENTY_RESOURCES r1 r2] else [])
            else
              (if bank s r1 \<ge> 1 \<and> bank s r2 \<ge> 1 then [PICK_YEAR_OF_PLENTY_RESOURCES r1 r2]
               else []))
          (drop i RESOURCES))))
       [0..<length RESOURCES])"

definition trade_build_play_actions :: "CatanState \<Rightarrow> action list option" where
  "trade_build_play_actions s =
     do { let pid = current_player s;
          roads \<leftarrow> get_valid_road_edges s pid;
          settlements \<leftarrow> get_valid_settlement_vertices s pid;
          cities \<leftarrow> get_valid_city_vertices s pid;
          buy \<leftarrow> can_buy_dev_card s pid;
          knight \<leftarrow> can_play_dev_card s pid Knight;
          road_building \<leftarrow> can_play_dev_card s pid Road_building;
          year_of_plenty \<leftarrow> can_play_dev_card s pid Year_of_plenty;
          monopoly \<leftarrow> can_play_dev_card s pid Monopoly;
          trades \<leftarrow> filter_e (\<lambda>gr. is_valid_maritime_trade s pid (fst gr) (snd gr))
                      (List.product RESOURCES RESOURCES);
          Some (map BUILD_ROAD roads
                @ map BUILD_SETTLEMENT settlements
                @ map BUILD_CITY cities
                @ (if buy then [BUY_DEV_CARD] else [])
                @ (if knight then [PLAY_KNIGHT] else [])
                @ (if road_building then [PLAY_ROAD_BUILDING] else [])
                @ (if year_of_plenty then [PLAY_YEAR_OF_PLENTY] else [])
                @ (if monopoly then [PLAY_MONOPOLY] else [])
                @ map (\<lambda>gr. MARITIME_TRADE (fst gr) (snd gr)) trades
                @ [END_TURN]) }"

definition get_legal_actions :: "CatanState \<Rightarrow> action list option" where
  "get_legal_actions s =
     (case phase s of
        GAME_OVER \<Rightarrow> Some []
      | SETUP_PLACE_SETTLEMENT \<Rightarrow>
          do { verts \<leftarrow> get_valid_setup_settlement_vertices s;
               Some (map PLACE_SETUP_SETTLEMENT verts) }
      | SETUP_PLACE_ROAD \<Rightarrow>
          do { edges \<leftarrow> get_valid_setup_road_edges s;
               Some (map PLACE_SETUP_ROAD edges) }
      | ROLL_DICE \<Rightarrow> Some [ROLL_DICE_action]
      | DISCARD \<Rightarrow>
          do { pid \<leftarrow> nth_e (players_needing_discard s) 0;
               p \<leftarrow> nth_e (players s) pid;
               let total = total_resources (resources p);
               let discard_count = total div 2;
               Some (enumerate_discard (resources p) discard_count) }
      | MOVE_ROBBER \<Rightarrow> Some (map MOVE_ROBBER_action (get_valid_robber_hexes s))
      | STEAL \<Rightarrow>
          do { targets \<leftarrow> get_steal_targets s (robber_hex s) (current_player s);
               Some (if targets = [] then [STEAL_RESOURCE None]
                     else map (\<lambda>t. STEAL_RESOURCE (Some t)) targets) }
      | TRADE_BUILD_PLAY \<Rightarrow> trade_build_play_actions s
      | ROAD_BUILDING_PLACE \<Rightarrow>
          do { edges \<leftarrow> get_valid_road_edges_no_resource_check s (current_player s);
               Some (map PLACE_ROAD_BUILDING_ROAD edges) }
      | YEAR_OF_PLENTY_PICK \<Rightarrow> Some (year_of_plenty_actions s)
      | MONOPOLY_PICK \<Rightarrow> Some (map PICK_MONOPOLY_RESOURCE RESOURCES)
      | PRE_GAME \<Rightarrow> Some [])"

definition get_acting_player :: "CatanState \<Rightarrow> nat" where
  "get_acting_player s =
     (if phase s = DISCARD \<and> players_needing_discard s \<noteq> []
      then hd (players_needing_discard s) else current_player s)"

subsection \<open>Applying an action\<close>

text \<open>
  \<^verbatim>\<open>self._rng.randint(lo, hi)\<close> returns an integer of \<open>[lo, hi)\<close> and raises when the
  interval is empty; \<open>u\<close> is the generator's raw output.
\<close>

definition randint :: "nat \<Rightarrow> int \<Rightarrow> int \<Rightarrow> int option" where
  "randint u lo hi = (if lo < hi then Some (lo + int u mod (hi - lo)) else None)"

record rng_draws =
  draw1 :: nat
  draw2 :: nat

text \<open>
  The loop \<^verbatim>\<open>for r in RESOURCES: p.resources[r] -= cost[r]; s.bank[r] += cost[r]\<close> of the
  building, buying and discarding actions.
\<close>

definition pay_cost :: "nat \<Rightarrow> hand \<Rightarrow> CatanState \<Rightarrow> CatanState option" where
  "pay_cost pid cost s =
     fold_e (\<lambda>r st. do { st' \<leftarrow> update_player pid (add_resource r (- cost r)) st;
                         Some (bank_add r (cost r) st') })
       RESOURCES s"

definition apply_setup_settlement :: "nat \<Rightarrow> CatanState \<Rightarrow> CatanState option" where
  "apply_setup_settlement vertex s =
     do { let pid = current_player s;
          vb \<leftarrow> upd_e (vertex_buildings s) vertex (Some (Settlement, pid));
          s1 \<leftarrow> update_player pid
                  (\<lambda>p. p\<lparr>remaining_settlements := remaining_settlements p - 1\<rparr>)
                  (s\<lparr>vertex_buildings := vb\<rparr>);
          s2 \<leftarrow> (if setup_round s1 = 1 then
                    do { topo \<leftarrow> get_topology s1;
                         hs \<leftarrow> nth_e (vertex_adjacent_hexes topo) vertex;
                         fold_e (\<lambda>hid st.
                            do { t \<leftarrow> nth_e (hex_terrains st) hid;
                                 case TERRAIN_TO_RESOURCE t of
                                   None \<Rightarrow> Some st
                                 | Some res \<Rightarrow>
                                     do { st' \<leftarrow> update_player pid (add_resource res 1) st;
                                          Some (bank_add res (- 1) st') } })
                           hs s1 }
                  else Some s1);
          Some (s2\<lparr>last_placed_vertex := Some vertex, phase := SETUP_PLACE_ROAD\<rparr>) }"

definition apply_setup_road :: "nat \<Rightarrow> CatanState \<Rightarrow> CatanState option" where
  "apply_setup_road edge s =
     do { let pid = current_player s;
          er \<leftarrow> upd_e (edge_roads s) edge (Some pid);
          s1 \<leftarrow> update_player pid (\<lambda>p. p\<lparr>remaining_roads := remaining_roads p - 1\<rparr>)
                  (s\<lparr>edge_roads := er\<rparr>);
          let order = get_setup_order (player_count s1);
          let next_idx = setup_index s1 + 1;
          if next_idx \<ge> length order then
            Some (s1\<lparr>phase := ROLL_DICE, current_player := 0, last_placed_vertex := None,
                     turn_number := 1\<rparr>)
          else
            do { next_player \<leftarrow> nth_e order next_idx;
                 Some (s1\<lparr>current_player := next_player, setup_index := next_idx,
                          setup_round := (if next_idx \<ge> player_count s1 then 1 else 0),
                          phase := SETUP_PLACE_SETTLEMENT, last_placed_vertex := None\<rparr>) } }"

definition apply_roll_dice :: "rng_draws \<Rightarrow> CatanState \<Rightarrow> CatanState option" where
  "apply_roll_dice g s =
     do { d1 \<leftarrow> randint (draw1 g) 1 7;
          d2 \<leftarrow> randint (draw2 g) 1 7;
          let total = d1 + d2;
          let s1 = s\<lparr>last_roll := Some (d1, d2)\<rparr>;
          if total = 7 then
            do { need \<leftarrow> filter_e (\<lambda>pid. do { p \<leftarrow> nth_e (players s1) pid;
                                              Some (total_resources (resources p) > 7) })
                          [0..<player_count s1];
                 Some (if need \<noteq> [] then s1\<lparr>phase := DISCARD, players_needing_discard := need\<rparr>
                       else s1\<lparr>phase := MOVE_ROBBER\<rparr>) }
          else
            do { s2 \<leftarrow> distribute_resources s1 total;
                 Some (s2\<lparr>phase := TRADE_BUILD_PLAY\<rparr>) } }"

definition apply_discard :: "hand \<Rightarrow> CatanState \<Rightarrow> CatanState option" where
  "apply_discard res s =
     do { pid \<leftarrow> nth_e (players_needing_discard s) 0;
          s1 \<leftarrow> pay_cost pid res s;
          let rest = drop 1 (players_needing_discard s1);
          Some (if rest = [] then s1\<lparr>players_needing_discard := rest, phase := MOVE_ROBBER\<rparr>
                else s1\<lparr>players_needing_discard := rest\<rparr>) }"

definition apply_move_robber :: "nat \<Rightarrow> CatanState \<Rightarrow> CatanState option" where
  "apply_move_robber hex_id s =
     do { let s1 = s\<lparr>robber_hex := hex_id\<rparr>;
          targets \<leftarrow> get_steal_targets s1 hex_id (current_player s1);
          Some (s1\<lparr>phase := (if targets \<noteq> [] then STEAL else TRADE_BUILD_PLAY)\<rparr>) }"

definition apply_steal :: "rng_draws \<Rightarrow> nat option \<Rightarrow> CatanState \<Rightarrow> CatanState option" where
  "apply_steal g victim s =
     (case victim of
        None \<Rightarrow> Some (s\<lparr>phase := TRADE_BUILD_PLAY\<rparr>)
      | Some v \<Rightarrow>
          do { vp \<leftarrow> nth_e (players s) v;
               let v_res = resources vp;
               let available = concat (map (\<lambda>r. replicate (nat (v_res r)) r) RESOURCES);
               if available = [] then Some (s\<lparr>phase := TRADE_BUILD_PLAY\<rparr>)
               else
                 do { idx \<leftarrow> randint (draw1 g) 0 (int (length available));
                      stolen \<leftarrow> nth_e available (nat idx);
                      s1 \<leftarrow> update_player v (add_resource stolen (- 1)) s;
                      s2 \<leftarrow> update_player (current_player s1) (add_resource stolen 1) s1;
                      Some (s2\<lparr>phase := TRADE_BUILD_PLAY\<rparr>) } })"

definition apply_build_road :: "nat \<Rightarrow> nat \<Rightarrow> bool \<Rightarrow> CatanState \<Rightarrow> CatanState option" where
  "apply_build_road player edge free s =
     do { er \<leftarrow> upd_e (edge_roads s) edge (Some player);
          s1 \<leftarrow> update_player player (\<lambda>p. p\<lparr>remaining_roads := remaining_roads p - 1\<rparr>)
                  (s\<lparr>edge_roads := er\<rparr>);
          if \<not> free then pay_cost player ROAD_COST s1 else Some s1 }"

definition apply_build_settlement :: "nat \<Rightarrow> CatanState \<Rightarrow> CatanState option" where
  "apply_build_settlement vertex s =
     do { let pid = current_player s;
          vb \<leftarrow> upd_e (vertex_buildings s) vertex (Some (Settlement, pid));
          s1 \<leftarrow> update_player pid
                  (\<lambda>p. p\<lparr>remaining_settlements := remaining_settlements p - 1\<rparr>)
                  (s\<lparr>vertex_buildings := vb\<rparr>);
          pay_cost pid SETTLEMENT_COST s1 }"

definition apply_build_city :: "nat \<Rightarrow> CatanState \<Rightarrow> CatanState option" where
  "apply_build_city vertex s =
     do { let pid = current_player s;
          vb \<leftarrow> upd_e (vertex_buildings s) vertex (Some (City, pid));
          s1 \<leftarrow> update_player pid
                  (\<lambda>p. p\<lparr>remaining_cities := remaining_cities p - 1,
                          remaining_settlements := remaining_settlements p + 1\<rparr>)
                  (s\<lparr>vertex_buildings := vb\<rparr>);
          pay_cost pid CITY_COST s1 }"

definition apply_buy_dev_card :: "CatanState \<Rightarrow> CatanState option" where
  "apply_buy_dev_card s =
     do { let pid = current_player s;
          if dev_card_deck s = [] then None
          else
            do { let card = last (dev_card_deck s);
                 let s1 = s\<lparr>dev_card_deck := butlast (dev_card_deck s)\<rparr>;
                 p \<leftarrow> nth_e (players s1) pid;
                 s2 \<leftarrow> pay_cost pid DEV_CARD_COST s1;
                 update_player pid (\<lambda>p. p\<lparr>new_dev_cards := new_dev_cards p @ [card]\<rparr>) s2 } }"

definition apply_play_knight :: "CatanState \<Rightarrow> CatanState option" where
  "apply_play_knight s =
     do { let pid = current_player s;
          s1 \<leftarrow> update_player pid
                  (\<lambda>p. p\<lparr>dev_cards := remove_dev_card (dev_cards p) Knight,
                          knights_played := knights_played p + 1,
                          has_played_dev_card_this_turn := True\<rparr>) s;
          s2 \<leftarrow> update_largest_army s1;
          Some (s2\<lparr>phase := MOVE_ROBBER\<rparr>) }"

definition apply_play_road_building :: "CatanState \<Rightarrow> CatanState option" where
  "apply_play_road_building s =
     do { let pid = current_player s;
          s1 \<leftarrow> update_player pid
                  (\<lambda>p. p\<lparr>dev_cards := remove_dev_card (dev_cards p) Road_building,
                          has_played_dev_card_this_turn := True\<rparr>) s;
          p \<leftarrow> nth_e (players s1) pid;
          let roads_to_place = min 2 (remaining_roads p);
          if roads_to_place = 0 then Some s1
          else Some (s1\<lparr>phase := ROAD_BUILDING_PLACE, road_building_roads_left := roads_to_place\<rparr>) }"

definition apply_place_road_building_road :: "nat \<Rightarrow> CatanState \<Rightarrow> CatanState option" where
  "apply_place_road_building_road edge s =
     do { let pid = current_player s;
          s1 \<leftarrow> apply_build_road pid edge True s;
          let s2 = s1\<lparr>road_building_roads_left := road_building_roads_left s1 - 1\<rparr>;
          s3 \<leftarrow> (if road_building_roads_left s2 \<le> 0 then Some (s2\<lparr>phase := TRADE_BUILD_PLAY\<rparr>)
                  else do { valid \<leftarrow> get_valid_road_edges_no_resource_check s2 pid;
                            Some (if valid = []
                                  then s2\<lparr>phase := TRADE_BUILD_PLAY, road_building_roads_left := 0\<rparr>
                                  else s2) });
          update_longest_road s3 }"

definition apply_play_year_of_plenty :: "CatanState \<Rightarrow> CatanState option" where
  "apply_play_year_of_plenty s =
     do { let pid = current_player s;
          s1 \<leftarrow> update_player pid
                  (\<lambda>p. p\<lparr>dev_cards := remove_dev_card (dev_cards p) Year_of_plenty,
                          has_played_dev_card_this_turn := True\<rparr>) s;
          Some (s1\<lparr>phase := YEAR_OF_PLENTY_PICK\<rparr>) }"

definition apply_pick_yop :: "resource \<Rightarrow> resource \<Rightarrow> CatanState \<Rightarrow> CatanState option" where
  "apply_pick_yop r1 r2 s =
     do { let pid = current_player s;
          s1 \<leftarrow> update_player pid (add_resource r1 1) s;
          s2 \<leftarrow> update_player pid (add_resource r2 1) s1;
          Some ((bank_add r2 (- 1) (bank_add r1 (- 1) s2))\<lparr>phase := TRADE_BUILD_PLAY\<rparr>) }"

definition apply_play_monopoly :: "CatanState \<Rightarrow> CatanState option" where
  "apply_play_monopoly s =
     do { let pid = current_player s;
          s1 \<leftarrow> update_player pid
                  (\<lambda>p. p\<lparr>dev_cards := remove_dev_card (dev_cards p) Monopoly,
                          has_played_dev_card_this_turn := True\<rparr>) s;
          Some (s1\<lparr>phase := MONOPOLY_PICK\<rparr>) }"

definition monopoly_take :: "nat \<Rightarrow> resource \<Rightarrow> nat \<Rightarrow> int \<times> CatanState \<Rightarrow> (int \<times> CatanState) option" where
  "monopoly_take pid r i acc =
     (if i = pid then Some acc
      else do { p \<leftarrow> nth_e (players (snd acc)) i;
                let amount = resources p r;
                if amount > 0 then
                  do { st \<leftarrow> update_player i (\<lambda>p. p\<lparr>resources := (resources p)(r := 0)\<rparr>) (snd acc);
                       Some (fst acc + amount, st) }
                else Some acc })"

definition apply_pick_monopoly :: "resource \<Rightarrow> CatanState \<Rightarrow> CatanState option" where
  "apply_pick_monopoly r s =
     do { let pid = current_player s;
          acc \<leftarrow> fold_e (monopoly_take pid r) [0..<player_count s] (0, s);
          s2 \<leftarrow> update_player pid (add_resource r (fst acc)) (snd acc);
          Some (s2\<lparr>phase := TRADE_BUILD_PLAY\<rparr>) }"

definition apply_maritime_trade :: "resource \<Rightarrow> resource \<Rightarrow> CatanState \<Rightarrow> CatanState option" where
  "apply_maritime_trade give receive s =
     do { let pid = current_player s;
          ratio \<leftarrow> get_player_trade_ratio s pid give;
          s1 \<leftarrow> update_player pid (add_resource give (- ratio)) s;
          s2 \<leftarrow> update_player pid (add_resource receive 1) s1;
          Some (bank_add receive (- 1) (bank_add give ratio s2)) }"

definition apply_end_turn :: "CatanState \<Rightarrow> CatanState option" where
  "apply_end_turn s =
     do { let pid = current_player s;
          s1 \<leftarrow> update_player pid
                  (\<lambda>p. p\<lparr>dev_cards := dev_cards p @ new_dev_cards p, new_dev_cards := [],
                          has_played_dev_card_this_turn := False\<rparr>) s;
          s2 \<leftarrow> check_game_over s1;
          if phase s2 = GAME_OVER then Some s2
          else if player_count s2 = 0 then None
          else Some (s2\<lparr>current_player := (pid + 1) mod player_count s2,
                        turn_number := turn_number s2 + 1,
                        last_roll := None, phase := ROLL_DICE\<rparr>) }"

text \<open>
  \<^verbatim>\<open>resources = {RESOURCES[i]: action[i + 1] for i in range(5)}\<close>: a tuple with fewer
  than five counts raises.
\<close>

fun resource_index :: "resource \<Rightarrow> nat" where
  "resource_index Lumber = 0" | "resource_index Brick = 1" | "resource_index Wool = 2"
| "resource_index Grain = 3" | "resource_index Ore = 4"

definition discard_dict :: "int list \<Rightarrow> hand option" where
  "discard_dict counts =
     do { vals \<leftarrow> map_e (nth_e counts) [0..<5];
          Some (\<lambda>r. vals ! resource_index r) }"

text \<open>
  \<^verbatim>\<open>CatanEnv.step\<close>. The state is copied first and the copy is changed and returned, so
  the model passes the state along. The result is the tuple
  \<^verbatim>\<open>(s, reward, done, info)\<close>; \<^verbatim>\<open>info\<close> is a dictionary, here an association list.
  The final \<^verbatim>\<open>else: raise ValueError\<close> is for a tag that is none of the nineteen.
\<close>

type_synonym step_result = "CatanState \<times> real \<times> bool \<times> (string \<times> nat option) list"

definition apply_action :: "rng_draws \<Rightarrow> action \<Rightarrow> CatanState \<Rightarrow> CatanState option" where
  "apply_action g a s =
     (case a of
        PLACE_SETUP_SETTLEMENT vertex \<Rightarrow> apply_setup_settlement vertex s
      | PLACE_SETUP_ROAD edge \<Rightarrow> apply_setup_road edge s
      | ROLL_DICE_action \<Rightarrow> apply_roll_dice g s
      | DISCARD_RESOURCES counts \<Rightarrow> do { res \<leftarrow> discard_dict counts; apply_discard res s }
      | MOVE_ROBBER_action hex_id \<Rightarrow> apply_move_robber hex_id s
      | STEAL_RESOURCE victim \<Rightarrow> apply_steal g victim s
      | BUILD_ROAD edge \<Rightarrow>
          do { s1 \<leftarrow> apply_build_road (current_player s) edge False s; update_longest_road s1 }
      | BUILD_SETTLEMENT vertex \<Rightarrow>
          do { s1 \<leftarrow> apply_build_settlement vertex s; update_longest_road s1 }
      | BUILD_CITY vertex \<Rightarrow> apply_build_city vertex s
      | BUY_DEV_CARD \<Rightarrow> apply_buy_dev_card s
      | PLAY_KNIGHT \<Rightarrow> apply_play_knight s
      | PLAY_ROAD_BUILDING \<Rightarrow> apply_play_road_building s
      | PLACE_ROAD_BUILDING_ROAD edge \<Rightarrow> apply_place_road_building_road edge s
      | PLAY_YEAR_OF_PLENTY \<Rightarrow> apply_play_year_of_plenty s
      | PICK_YEAR_OF_PLENTY_RESOURCES r1 r2 \<Rightarrow> apply_pick_yop r1 r2 s
      | PLAY_MONOPOLY \<Rightarrow> apply_play_monopoly s
      | PICK_MONOPOLY_RESOURCE r \<Rightarrow> apply_pick_monopoly r s
      | MARITIME_TRADE give receive \<Rightarrow> apply_maritime_trade give receive s
      | END_TURN \<Rightarrow> apply_end_turn s)"

definition step :: "rng_draws \<Rightarrow> action \<Rightarrow> CatanState \<Rightarrow> step_result option" where
  "step g a s =
     do { s' \<leftarrow> apply_action g a s;
          let done = (phase s' = GAME_OVER);
          let reward = 0;
          let info = (if done then [(''winner'', winner s')] else []);
          Some (s', reward, done, info) }"

subsection \<open>Construction of the environment\<close>

text \<open>\<^verbatim>\<open>CatanEnv.__init__\<close>: it raises or stores the player count, the only field of
  the environment that the rules read besides the state.\<close>

definition CatanEnv_init :: "int \<Rightarrow> py_error + nat" where
  "CatanEnv_init n = (if n \<notin> {3, 4} then Inl ValueError else Inr (nat n))"

subsection \<open>Reset and the reachable states\<close>

text \<open>
  \<^verbatim>\<open>CatanEnv.reset\<close>. The three shuffles are results of the generator, so the shuffled
  lists are parameters. \<^verbatim>\<open>assign_harbors\<close> sorts the coastal edges by an angle computed
  with \<^verbatim>\<open>atan2\<close>; it is not modelled and the harbor list is a parameter as well.
\<close>

fun index_of :: "'a \<Rightarrow> 'a list \<Rightarrow> nat option" where
  "index_of x [] = None"
| "index_of x (y # ys) = (if y = x then Some 0 else map_option Suc (index_of x ys))"

fun assign_numbers :: "terrain list \<Rightarrow> int list \<Rightarrow> nat \<Rightarrow> int option list option" where
  "assign_numbers [] numbers num_i = Some []"
| "assign_numbers (t # ts) numbers num_i =
     (if t = Desert then
        do { rest \<leftarrow> assign_numbers ts numbers num_i; Some (None # rest) }
      else
        do { n \<leftarrow> nth_e numbers num_i;
             rest \<leftarrow> assign_numbers ts numbers (num_i + 1);
             Some (Some n # rest) })"

definition reset :: "nat \<Rightarrow> terrain list \<Rightarrow> int list \<Rightarrow> dev_card list \<Rightarrow> Harbor list \<Rightarrow> CatanState option" where
  "reset n_players terrains numbers deck hs =
     do { let topo = standard_topology;
          desert_idx \<leftarrow> index_of Desert terrains;
          nums \<leftarrow> assign_numbers terrains numbers 0;
          Some \<lparr> phase = SETUP_PLACE_SETTLEMENT,
                 current_player = 0,
                 player_count = n_players,
                 turn_number = 0,
                 topology = Some topo,
                 hex_terrains = terrains,
                 hex_numbers = nums,
                 vertex_buildings = replicate (vertex_count topo) None,
                 edge_roads = replicate (edge_count topo) None,
                 harbors = hs,
                 robber_hex = desert_idx,
                 players = map new_player [0..<n_players],
                 dev_card_deck = deck,
                 bank = (\<lambda>r. BANK_PER_RESOURCE),
                 longest_road_player = None,
                 longest_road_length = 0,
                 largest_army_player = None,
                 largest_army_size = 0,
                 last_roll = None,
                 setup_round = 0,
                 setup_index = 0,
                 players_needing_discard = [],
                 road_building_roads_left = 0,
                 last_placed_vertex = None,
                 winner = None \<rparr> }"

text \<open>
  The states of a game: a reset of an environment that was constructed, then steps with
  actions drawn from the legal-action list of the state they are applied to.
\<close>

inductive reachable :: "CatanState \<Rightarrow> bool" where
  reachable_reset:
    "CatanEnv_init n = Inr n_players \<Longrightarrow>
     mset terrains = mset TERRAIN_DISTRIBUTION \<Longrightarrow>
     mset numbers = mset NUMBER_TOKEN_DISTRIBUTION \<Longrightarrow>
     mset deck = mset DEV_CARD_DISTRIBUTION \<Longrightarrow>
     reset n_players terrains numbers deck hs = Some s \<Longrightarrow> reachable s"
| reachable_step:
    "reachable s \<Longrightarrow> get_legal_actions s = Some acts \<Longrightarrow> a \<in> set acts \<Longrightarrow>
     step g a s = Some (s', reward, done, info) \<Longrightarrow> reachable s'"

text \<open>A list of discard counts that stays within a hand, resource by resource.\<close>

definition within_hand :: "hand \<Rightarrow> int list \<Rightarrow> resource list \<Rightarrow> bool" where
  "within_hand hnd t rs = list_all2 (\<lambda>x r. 0 \<le> x \<and> x \<le> hnd r) t rs"

text \<open>A state in which player 0 holds nine cards and has to discard.\<close>

definition discard_example :: CatanState where
  "discard_example =
     \<lparr> phase = DISCARD, current_player = 1, player_count = 3, turn_number = 4,
       topology = Some standard_topology,
       hex_terrains = TERRAIN_DISTRIBUTION,
       hex_numbers = map Some NUMBER_TOKEN_DISTRIBUTION @ [None],
       vertex_buildings = replicate 54 None, edge_roads = replicate 72 None,
       harbors = [], robber_hex = 18,
       players = [(new_player 0)\<lparr>resources := empty_resources(Lumber := 5, Brick := 4)\<rparr>,
                  new_player 1, new_player 2],
       dev_card_deck = DEV_CARD_DISTRIBUTION,
       bank = (\<lambda>r. BANK_PER_RESOURCE)(Lumber := 14, Brick := 15),
       longest_road_player = None, longest_road_length = 0,
       largest_army_player = None, largest_army_size = 0,
       last_roll = Some (3, 4), setup_round = 1, setup_index = 5,
       players_needing_discard = [0], road_building_roads_left = 0,
       last_placed_vertex = None, winner = None \<rparr>"

text \<open>Two states that differ at most in the players and the bank.\<close>

definition res_frame :: "CatanState \<Rightarrow> CatanState \<Rightarrow> bool" where
  "res_frame s s' \<longleftrightarrow> (\<exists>ps bk. s' = s\<lparr>players := ps, bank := bk\<rparr>)"

text \<open>
  A state of the main phase in which player 0 owns four cities and two settlements
  (ten victory points) and ends the turn.
\<close>

definition win_example :: CatanState where
  "win_example =
     \<lparr> phase = TRADE_BUILD_PLAY, current_player = 0, player_count = 3, turn_number = 60,
       topology = Some standard_topology,
       hex_terrains = TERRAIN_DISTRIBUTION,
       hex_numbers = map Some NUMBER_TOKEN_DISTRIBUTION @ [None],
       vertex_buildings =
         [Some (City, 0), None, Some (City, 0), None, Some (City, 0), None, None, Some
          (City, 0), None, None, Some (Settlement, 0), None, None, None, None, Some
          (Settlement, 0), None, None, None, None, Some (Settlement, 1), None, None, None,
          None, None, None, None, None, None, Some (Settlement, 1), None, None, None,
          None, None, None, None, None, None, Some (Settlement, 2), None, None, None,
          None, None, None, None, None, None, Some (Settlement, 2), None, None, None],
       edge_roads = replicate 72 None,
       harbors = [], robber_hex = 18,
       players = [(new_player 0)\<lparr>remaining_settlements := 3, remaining_cities := 0\<rparr>,
                  (new_player 1)\<lparr>remaining_settlements := 3\<rparr>,
                  (new_player 2)\<lparr>remaining_settlements := 3\<rparr>],
       dev_card_deck = DEV_CARD_DISTRIBUTION,
       bank = (\<lambda>r. BANK_PER_RESOURCE),
       longest_road_player = None, longest_road_length = 0,
       largest_army_player = None, largest_army_size = 0,
       last_roll = Some (3, 5), setup_round = 1, setup_index = 5,
       players_needing_discard = [], road_building_roads_left = 0,
       last_placed_vertex = None, winner = None \<rparr>"

text \<open>
  The resource view of a state: the hands in player order, the units of one resource
  held by all players, and the conservation property of the data model.
\<close>

definition hands :: "CatanState \<Rightarrow> hand list" where
  "hands s = map resources (players s)"

definition held :: "hand list \<Rightarrow> resource \<Rightarrow> int" where
  "held hs r = sum_list (map (\<lambda>h. h r) hs)"

definition conserved :: "hand list \<Rightarrow> hand \<Rightarrow> bool" where
  "conserved hs bk \<longleftrightarrow>
     (\<forall>r. 0 \<le> bk r \<and> (\<forall>h\<in>set hs. 0 \<le> h r) \<and> held hs r + bk r = BANK_PER_RESOURCE)"

text \<open>
  What a roll pays, in the words of the rule: the units a player's buildings around a
  hex claim (1 per settlement, 2 per city), the total demand of a hex, and the payout of
  one hex, which is all or nothing against the bank's supply at that moment.
\<close>

definition dict_total :: "(nat \<times> int) list \<Rightarrow> nat \<Rightarrow> int" where
  "dict_total d i = sum_list (map snd (filter (\<lambda>kv. fst kv = i) d))"

definition demand_at :: "CatanState \<Rightarrow> nat \<Rightarrow> int" where
  "demand_at s vid =
     (case vertex_buildings s ! vid of None \<Rightarrow> 0 | Some bo \<Rightarrow> if fst bo = City then 2 else 1)"

definition claim_at :: "CatanState \<Rightarrow> nat \<Rightarrow> nat \<Rightarrow> int" where
  "claim_at s p vid =
     (case vertex_buildings s ! vid of
        None \<Rightarrow> 0
      | Some bo \<Rightarrow> if snd bo = p then (if fst bo = City then 2 else 1) else 0)"

definition hex_total_demand :: "CatanState \<Rightarrow> nat list \<Rightarrow> int" where
  "hex_total_demand s vids = sum_list (map (demand_at s) vids)"

definition hex_claims :: "CatanState \<Rightarrow> nat list \<Rightarrow> nat \<Rightarrow> int" where
  "hex_claims s vids p = sum_list (map (claim_at s p) vids)"

definition payout_hex :: "int \<Rightarrow> BoardTopology \<Rightarrow> CatanState \<Rightarrow> nat \<Rightarrow> CatanState" where
  "payout_hex dice_total topo s hid =
     (if hex_numbers s ! hid = Some dice_total \<and> hid \<noteq> robber_hex s then
        (case TERRAIN_TO_RESOURCE (hex_terrains s ! hid) of
           None \<Rightarrow> s
         | Some r \<Rightarrow>
             (let vids = hex_vertices topo ! hid in
              if hex_total_demand s vids \<le> bank s r then
                s\<lparr>players := map (\<lambda>ip. add_resource r (hex_claims s vids (fst ip)) (snd ip))
                                (enumerate 0 (players s)),
                  bank := (bank s)(r := bank s r - hex_total_demand s vids)\<rparr>
              else s))
      else s)"

text \<open>
  A state before a roll: the hexes 1 and 2 are forests with the token 3, player 0 has a
  settlement on hex 1 and player 1 one on hex 2, and the bank holds a single lumber.
\<close>

definition shortage_example :: CatanState where
  "shortage_example =
     \<lparr> phase = ROLL_DICE, current_player = 0, player_count = 3, turn_number = 30,
       topology = Some standard_topology,
       hex_terrains = TERRAIN_DISTRIBUTION,
       hex_numbers = map Some NUMBER_TOKEN_DISTRIBUTION @ [None],
       vertex_buildings =
         [None, None, None, None, None, None, None, None, None, Some (Settlement, 0),
          Some (Settlement, 1), None, None, None, None, None, None, None, None, None,
          None, None, None, None, None, None, None, None, None, None, None, None, None,
          Some (Settlement, 2), None, None, None, None, None, None, Some (Settlement, 0),
          None, None, None, None, None, None, Some (Settlement, 1), None, None, None,
          None, Some (Settlement, 2), None],
       edge_roads = replicate 72 None,
       harbors = [], robber_hex = 18,
       players = [(new_player 0)\<lparr>resources := empty_resources(Lumber := 9), remaining_settlements := 3\<rparr>,
                  (new_player 1)\<lparr>resources := empty_resources(Lumber := 9), remaining_settlements := 3\<rparr>,
                  (new_player 2)\<lparr>remaining_settlements := 3\<rparr>],
       dev_card_deck = DEV_CARD_DISTRIBUTION,
       bank = (\<lambda>r. BANK_PER_RESOURCE)(Lumber := 1),
       longest_road_player = None, longest_road_length = 0,
       largest_army_player = None, largest_army_size = 0,
       last_roll = None, setup_round = 1, setup_index = 5,
       players_needing_discard = [], road_building_roads_left = 0,
       last_placed_vertex = None, winner = None \<rparr>"

text \<open>The phase in which the enumerator offers an action of a given tag.\<close>

fun action_phase :: "action \<Rightarrow> phase" where
  "action_phase (PLACE_SETUP_SETTLEMENT v) = SETUP_PLACE_SETTLEMENT"
| "action_phase (PLACE_SETUP_ROAD e) = SETUP_PLACE_ROAD"
| "action_phase ROLL_DICE_action = ROLL_DICE"
| "action_phase (DISCARD_RESOURCES counts) = DISCARD"
| "action_phase (MOVE_ROBBER_action h) = MOVE_ROBBER"
| "action_phase (STEAL_RESOURCE victim) = STEAL"
| "action_phase (PLACE_ROAD_BUILDING_ROAD e) = ROAD_BUILDING_PLACE"
| "action_phase (PICK_YEAR_OF_PLENTY_RESOURCES r1 r2) = YEAR_OF_PLENTY_PICK"
| "action_phase (PICK_MONOPOLY_RESOURCE r) = MONOPOLY_PICK"
| "action_phase a = TRADE_BUILD_PLAY"

text \<open>
  What the reachable states keep: the resource accounts, one player record per seat, the
  standard board, and during the set-up the position in the placement order together
  with a bound on what the second settlements have taken from the bank so far.
\<close>

definition setup_taken :: "CatanState \<Rightarrow> int" where
  "setup_taken s =
     (if player_count s \<le> setup_index s
      then int (setup_index s - player_count s) + (if phase s = SETUP_PLACE_ROAD then 1 else 0)
      else 0)"

definition setup_ok :: "CatanState \<Rightarrow> bool" where
  "setup_ok s \<longleftrightarrow>
     setup_index s < 2 * player_count s
     \<and> setup_round s = (if player_count s \<le> setup_index s then 1 else 0)
     \<and> (\<forall>r. BANK_PER_RESOURCE - 3 * setup_taken s \<le> bank s r)"

definition game_inv :: "CatanState \<Rightarrow> bool" where
  "game_inv s \<longleftrightarrow>
     conserved (hands s) (bank s)
     \<and> length (players s) = player_count s \<and> 3 \<le> player_count s \<and> player_count s \<le> 4
     \<and> current_player s < player_count s
     \<and> topology s = Some standard_topology
     \<and> (phase s = SETUP_PLACE_SETTLEMENT \<or> phase s = SETUP_PLACE_ROAD \<longrightarrow> setup_ok s)"
text \<open>
  The harbor rule in the words of the rules: a harbor is accessible to a player who has a
  building on one of its two vertices, and the ratio for a resource is 2 with an accessible
  harbor of that resource, else 3 with an accessible generic harbor, else 4.
\<close>

definition owns_vertex :: "CatanState \<Rightarrow> nat \<Rightarrow> nat \<Rightarrow> bool" where
  "owns_vertex s p v = (case vertex_buildings s ! v of None \<Rightarrow> False | Some bo \<Rightarrow> snd bo = p)"

definition player_vertices :: "CatanState \<Rightarrow> BoardTopology \<Rightarrow> nat \<Rightarrow> nat list" where
  "player_vertices s topo p = filter (owns_vertex s p) [0..<vertex_count topo]"

definition harbor_access :: "nat list \<Rightarrow> Harbor \<Rightarrow> bool" where
  "harbor_access pv h \<longleftrightarrow> fst (vertices h) \<in> set pv \<or> snd (vertices h) \<in> set pv"

definition best_trade_ratio :: "Harbor list \<Rightarrow> nat list \<Rightarrow> resource \<Rightarrow> int" where
  "best_trade_ratio hs pv r =
     (if \<exists>h\<in>set hs. harbor_access pv h \<and> kind h = Specific r then 2
      else if \<exists>h\<in>set hs. harbor_access pv h \<and> kind h = Generic then 3
      else 4)"

text \<open>
  A state in which the current player 0 has played a monopoly card: the three players
  hold 1, 2 and 3 lumber, and player 1 a brick.
\<close>

definition monopoly_example :: CatanState where
  "monopoly_example =
     \<lparr> phase = MONOPOLY_PICK, current_player = 0, player_count = 3, turn_number = 12,
       topology = Some standard_topology,
       hex_terrains = TERRAIN_DISTRIBUTION,
       hex_numbers = map Some NUMBER_TOKEN_DISTRIBUTION @ [None],
       vertex_buildings = replicate 54 None, edge_roads = replicate 72 None,
       harbors = [], robber_hex = 18,
       players = [(new_player 0)\<lparr>resources := empty_resources(Lumber := 1),
                                  has_played_dev_card_this_turn := True\<rparr>,
                  (new_player 1)\<lparr>resources := empty_resources(Lumber := 2, Brick := 1)\<rparr>,
                  (new_player 2)\<lparr>resources := empty_resources(Lumber := 3)\<rparr>],
       dev_card_deck = [],
       bank = (\<lambda>r. BANK_PER_RESOURCE)(Lumber := 13, Brick := 18),
       longest_road_player = None, longest_road_length = 0,
       largest_army_player = None, largest_army_size = 0,
       last_roll = Some (3, 5), setup_round = 1, setup_index = 5,
       players_needing_discard = [], road_building_roads_left = 0,
       last_placed_vertex = None, winner = None \<rparr>"

text \<open>
  A change in which no hand shrinks, the bank gives at most \<open>k\<close> units of a resource,
  and hands and bank together keep every total.
\<close>

definition bank_pays :: "int \<Rightarrow> CatanState \<Rightarrow> CatanState \<Rightarrow> bool" where
  "bank_pays k s s' \<longleftrightarrow>
     length (players s') = length (players s)
     \<and> (\<forall>i<length (players s). \<forall>x. resources (players s ! i) x \<le> resources (players s' ! i) x)
     \<and> (\<forall>x. held (hands s') x + bank s' x = held (hands s) x + bank s x)
     \<and> (\<forall>x. bank s x - k \<le> bank s' x)"

text \<open>
  A state of the main phase: player 0 has a settlement on vertex 9, where a lumber harbor
  lies, and holds four lumber; the generic harbor on the vertices 0 and 1 is not his.
\<close>

definition trade_example :: CatanState where
  "trade_example =
     \<lparr> phase = TRADE_BUILD_PLAY, current_player = 0, player_count = 3, turn_number = 9,
       topology = Some standard_topology,
       hex_terrains = TERRAIN_DISTRIBUTION,
       hex_numbers = map Some NUMBER_TOKEN_DISTRIBUTION @ [None],
       vertex_buildings = (replicate 54 None)[9 := Some (Settlement, 0)],
       edge_roads = replicate 72 None,
       harbors = [\<lparr>kind = Generic, vertices = (0, 1)\<rparr>,
                  \<lparr>kind = Specific Lumber, vertices = (9, 10)\<rparr>],
       robber_hex = 18,
       players = [(new_player 0)\<lparr>resources := empty_resources(Lumber := 4),
                                  remaining_settlements := 4\<rparr>,
                  new_player 1, new_player 2],
       dev_card_deck = DEV_CARD_DISTRIBUTION,
       bank = (\<lambda>r. BANK_PER_RESOURCE)(Lumber := 15),
       longest_road_player = None, longest_road_length = 0,
       largest_army_player = None, largest_army_size = 0,
       last_roll = Some (3, 5), setup_round = 1, setup_index = 5,
       players_needing_discard = [], road_building_roads_left = 0,
       last_placed_vertex = None, winner = None \<rparr>"

text \<open>
  The award computed from scratch, in the words of the rule: with the players' road
  lengths in seat order, the award goes to the first seat that has the greatest length
  when that length is at least 5, and to no one otherwise.
\<close>

definition award_from_scratch :: "int list \<Rightarrow> nat option \<times> int" where
  "award_from_scratch ls =
     (let m = fold max ls 0
      in if m < MIN_LONGEST_ROAD then (None, 0) else (index_of m ls, m))"

text \<open>
  What the road search reads of the buildings: whether a vertex carries a building of
  another player (the test \<^verbatim>\<open>bldg is not None and bldg[1] != player\<close>).
\<close>

definition blocked_at :: "CatanState \<Rightarrow> nat \<Rightarrow> nat \<Rightarrow> bool option" where
  "blocked_at s player v =
     do { bldg \<leftarrow> nth_e (vertex_buildings s) v;
          Some (case bldg of None \<Rightarrow> False | Some b \<Rightarrow> snd b \<noteq> player) }"

text \<open>
  What the reachable states keep of the award: nobody holds it during the set-up, and
  when somebody holds it the holder is a seat, every seat's road length can be computed
  and none exceeds the recorded length.
\<close>

definition award_inv :: "CatanState \<Rightarrow> bool" where
  "award_inv s \<longleftrightarrow>
     (phase s = SETUP_PLACE_SETTLEMENT \<or> phase s = SETUP_PLACE_ROAD
        \<longrightarrow> longest_road_player s = None)
     \<and> (\<forall>h. longest_road_player s = Some h \<longrightarrow>
            h < player_count s
            \<and> (\<forall>p<player_count s. \<exists>l. calculate_longest_road s p = Some l
                                        \<and> l \<le> longest_road_length s))"

text \<open>The three actions after which the award is updated, on a free edge or vertex.\<close>

definition places :: "CatanState \<Rightarrow> action \<Rightarrow> bool" where
  "places s a \<longleftrightarrow>
     (case a of
        BUILD_ROAD e \<Rightarrow> e < length (edge_roads s) \<and> edge_roads s ! e = None
      | PLACE_ROAD_BUILDING_ROAD e \<Rightarrow> e < length (edge_roads s) \<and> edge_roads s ! e = None
      | BUILD_SETTLEMENT v \<Rightarrow> v < length (vertex_buildings s) \<and> vertex_buildings s ! v = None
      | _ \<Rightarrow> False)"

text \<open>
  A state of the main phase: player 0 holds the award with the road of five edges
  0, 1, 2, 3, 4 around the first hex; player 1 has the road of five edges 63, 64, 65, 50,
  49, can pay for a road, and the edge 37 that continues it is free.
\<close>

definition road_example :: CatanState where
  "road_example =
     \<lparr> phase = TRADE_BUILD_PLAY, current_player = 1, player_count = 3, turn_number = 40,
       topology = Some standard_topology,
       hex_terrains = TERRAIN_DISTRIBUTION,
       hex_numbers = map Some NUMBER_TOKEN_DISTRIBUTION @ [None],
       vertex_buildings = (replicate 54 None)[0 := Some (Settlement, 0), 47 := Some (Settlement, 1)],
       edge_roads = (replicate 72 None)[0 := Some 0, 1 := Some 0, 2 := Some 0, 3 := Some 0,
                      4 := Some 0, 63 := Some 1, 64 := Some 1, 65 := Some 1, 50 := Some 1,
                      49 := Some 1],
       harbors = [], robber_hex = 18,
       players = [(new_player 0)\<lparr>remaining_roads := 10, remaining_settlements := 4\<rparr>,
                  (new_player 1)\<lparr>resources := empty_resources(Lumber := 1, Brick := 1),
                                  remaining_roads := 10, remaining_settlements := 4\<rparr>,
                  new_player 2],
       dev_card_deck = DEV_CARD_DISTRIBUTION,
       bank = (\<lambda>r. BANK_PER_RESOURCE)(Lumber := 18, Brick := 18),
       longest_road_player = Some 0, longest_road_length = 5,
       largest_army_player = None, largest_army_size = 0,
       last_roll = Some (3, 5), setup_round = 1, setup_index = 5,
       players_needing_discard = [], road_building_roads_left = 0,
       last_placed_vertex = None, winner = None \<rparr>"

text \<open>
  A run of the environment from a state: every action is looked up in the legal-action
  list of the state it is applied to and then given to \<open>step\<close>. The run is \<open>None\<close> when
  an action is not in the list or a call raises.
\<close>

fun play :: "rng_draws \<Rightarrow> action list \<Rightarrow> CatanState \<Rightarrow> CatanState option" where
  "play g [] s = Some s"
| "play g (a # rest) s =
     do { acts \<leftarrow> get_legal_actions s;
          if a \<in> set acts then do { r \<leftarrow> step g a s; play g rest (fst r) } else None }"

text \<open>
  A position of the set-up of a game of three players on the standard board with the
  terrains in the order of \<open>TERRAIN_DISTRIBUTION\<close>, before any resource was handed out.
\<close>

definition at_setup ::
  "CatanState \<Rightarrow> phase \<Rightarrow> nat \<Rightarrow> nat \<Rightarrow> nat option
     \<Rightarrow> (building \<times> nat) option list \<Rightarrow> nat option list \<Rightarrow> bool" where
  "at_setup s ph cp idx lpv vb er \<longleftrightarrow>
     phase s = ph \<and> current_player s = cp \<and> setup_index s = idx
     \<and> setup_round s = (if 3 \<le> idx then 1 else 0) \<and> last_placed_vertex s = lpv
     \<and> vertex_buildings s = vb \<and> edge_roads s = er
     \<and> player_count s = 3 \<and> length (players s) = 3
     \<and> topology s = Some standard_topology \<and> hex_terrains s = TERRAIN_DISTRIBUTION
     \<and> hands s = [empty_resources, empty_resources, empty_resources]
     \<and> bank s = (\<lambda>r. BANK_PER_RESOURCE)"

section \<open>Properties\<close>

subsection \<open>The standard board\<close>

lemma hex_corner_values:
  "hex_corner cx cy sz 0 = (cx + sz * (sqrt 3 / 2), cy - sz / 2)"
  "hex_corner cx cy sz 1 = (cx + sz * (sqrt 3 / 2), cy + sz / 2)"
  "hex_corner cx cy sz 2 = (cx, cy + sz)"
  "hex_corner cx cy sz 3 = (cx - sz * (sqrt 3 / 2), cy + sz / 2)"
  "hex_corner cx cy sz 4 = (cx - sz * (sqrt 3 / 2), cy - sz / 2)"
  "hex_corner cx cy sz 5 = (cx, cy - sz)"
proof -
  have a0: "pi / 180 * (60 * real 0 - 30) = - (pi / 6)" by simp
  have a1: "pi / 180 * (60 * real 1 - 30) = pi / 6" by simp
  have a2: "pi / 180 * (60 * real 2 - 30) = pi / 2" by simp
  have a3: "pi / 180 * (60 * real 3 - 30) = pi - pi / 6" by simp
  have a4: "pi / 180 * (60 * real 4 - 30) = pi / 6 + pi" by simp
  have a5: "pi / 180 * (60 * real 5 - 30) = 3 / 2 * pi" by simp
  show "hex_corner cx cy sz 0 = (cx + sz * (sqrt 3 / 2), cy - sz / 2)"
    unfolding hex_corner_def Let_def a0 by (simp add: cos_30 sin_30)
  show "hex_corner cx cy sz 1 = (cx + sz * (sqrt 3 / 2), cy + sz / 2)"
    unfolding hex_corner_def Let_def a1 by (simp add: cos_30 sin_30)
  show "hex_corner cx cy sz 2 = (cx, cy + sz)"
    unfolding hex_corner_def Let_def a2 by simp
  show "hex_corner cx cy sz 3 = (cx - sz * (sqrt 3 / 2), cy + sz / 2)"
    unfolding hex_corner_def Let_def a3 cos_pi_minus sin_pi_minus by (simp add: cos_30 sin_30)
  show "hex_corner cx cy sz 4 = (cx - sz * (sqrt 3 / 2), cy - sz / 2)"
    unfolding hex_corner_def Let_def a4 cos_periodic_pi sin_periodic_pi by (simp add: cos_30 sin_30)
  show "hex_corner cx cy sz 5 = (cx, cy - sz)"
    unfolding hex_corner_def Let_def a5 cos_3over2_pi sin_3over2_pi by simp
qed

lemma upt6: "[0..<6] = [0, 1, 2, 3, 4, 5]"
  by (simp add: upt_rec)

lemma hex_corners_lattice:
  "hex_corners (fst (hex_to_pixel q r sz)) (snd (hex_to_pixel q r sz)) sz
     = map (lattice_point sz) (lattice_corners (q, r))"
  unfolding hex_corners_def lattice_corners_def upt6 
  by (simp add: hex_corner_values hex_corner_values(2)[unfolded One_nat_def]
      hex_to_pixel_def lattice_point_def corner_dx_def corner_dy_def algebra_simps)

lemma int_apart:
  fixes a b :: int
  assumes "a \<noteq> b" and "0 < c"
  shows "c \<le> \<bar>c * real_of_int a - c * real_of_int b\<bar>"
proof -
  have "1 \<le> \<bar>a - b\<bar>" using assms(1) by arith
  then have "real_of_int 1 \<le> real_of_int \<bar>a - b\<bar>" by (simp only: of_int_le_iff)
  then have d: "1 \<le> \<bar>real_of_int a - real_of_int b\<bar>" by simp
  have "c * real_of_int a - c * real_of_int b = c * (real_of_int a - real_of_int b)"
    by (simp add: algebra_simps)
  then have "\<bar>c * real_of_int a - c * real_of_int b\<bar> = c * \<bar>real_of_int a - real_of_int b\<bar>"
    using assms(2) by (simp add: abs_mult)
  also have "c * 1 \<le> c * \<bar>real_of_int a - real_of_int b\<bar>"
    using d assms(2) by (intro mult_left_mono) simp_all
  finally show ?thesis by simp
qed

lemma points_equal_lattice:
  assumes "1 \<le> sz"
  shows "points_equal (lattice_point sz p) (lattice_point sz p') = (p = p')"
proof (cases "p = p'")
  case True
  then show ?thesis by (simp add: points_equal_def)
next
  case False
  obtain a b where p: "p = (a, b)" by (cases p)
  obtain a' b' where p': "p' = (a', b')" by (cases p')
  have "1 < sqrt 3" by simp
  then have c1: "1 / 2 \<le> sz * (sqrt 3 / 2)" and c1': "0 < sz * (sqrt 3 / 2)"
    using assms by (smt (verit) mult_less_cancel_right2 divide_nonneg_nonneg field_sum_of_halves mult_le_cancel_left1 mult_le_cancel_right1 times_divide_eq_right zero_le_divide_iff, 
       simp)
  have c2: "1 / 2 \<le> sz / 2" and c2': "0 < sz / 2" using assms by simp_all
  have "a \<noteq> a' \<or> b \<noteq> b'" using False p p' by simp
  then have "\<not> points_equal (lattice_point sz p) (lattice_point sz p')"
  proof
    assume "a \<noteq> a'"
    from int_apart[OF this c1'] c1 show ?thesis
      by (simp add: points_equal_def lattice_point_def p p')
  next
    assume "b \<noteq> b'"
    from int_apart[OF this c2'] c2 show ?thesis
      by (simp add: points_equal_def lattice_point_def p p')
  qed
  then show ?thesis using False by simp
qed

lemma find_existing_map:
  assumes "\<And>a b. eq' (f a) (f b) = eq a b"
  shows "find_existing eq' (map f vps) (f c) n = find_existing eq vps c n"
  by (induction vps arbitrary: n) (simp_all add: assms)

lemma place_corner_map:
  assumes "\<And>a b. eq' (f a) (f b) = eq a b"
  shows "place_corner eq' (map f vps, vids) (f c)
           = (case place_corner eq (vps, vids) c of (v, i) \<Rightarrow> (map f v, i))"
  by (simp add: place_corner_def find_existing_map[of eq' f eq, OF assms] split: option.splits)

lemma foldl_place_corner_map:
  assumes "\<And>a b. eq' (f a) (f b) = eq a b"
  shows "foldl (place_corner eq') (map f vps, vids) (map f cs)
           = (case foldl (place_corner eq) (vps, vids) cs of (v, i) \<Rightarrow> (map f v, i))"
proof (induction cs arbitrary: vps vids)
  case Nil
  show ?case by simp
next
  case (Cons c cs)
  obtain v i where pc: "place_corner eq (vps, vids) c = (v, i)" by (cases "place_corner eq (vps, vids) c")
  show ?case using Cons.IH[of v i] pc place_corner_map[of eq' f eq vps vids c, OF assms] by simp
qed

lemma place_hex_map:
  assumes "\<And>a b. eq' (f a) (f b) = eq a b"
  shows "place_hex eq' (map f vps, hcv) (map f cs)
           = (case place_hex eq (vps, hcv) cs of (v, h) \<Rightarrow> (map f v, h))"
  using foldl_place_corner_map[of eq' f eq vps "[]" cs, OF assms]
  by (simp add: place_hex_def split: prod.splits)

lemma foldl_place_hex_map:
  assumes "\<And>a b. eq' (f a) (f b) = eq a b"
  shows "foldl (place_hex eq') (map f vps, hcv) (map (map f) css)
           = (case foldl (place_hex eq) (vps, hcv) css of (v, h) \<Rightarrow> (map f v, h))"
proof (induction css arbitrary: vps hcv)
  case Nil
  show ?case by simp
next
  case (Cons cs css)
  obtain v h where ph: "place_hex eq (vps, hcv) cs = (v, h)" by (cases "place_hex eq (vps, hcv) cs")
  show ?case using Cons.IH[of v h] ph place_hex_map[of eq' f eq vps hcv cs, OF assms] by simp
qed

lemma dedup_vertices_map:
  assumes "\<And>a b. eq' (f a) (f b) = eq a b"
  shows "dedup_vertices eq' (map (map f) css)
           = (case dedup_vertices eq css of (v, h) \<Rightarrow> (map f v, h))"
  using foldl_place_hex_map[of eq' f eq "[]" "[]" css, OF assms] by (simp add: dedup_vertices_def)

lemma dedup_lattice_eval:
  "dedup_vertices (=) (map lattice_corners STANDARD_HEX_POSITIONS)
     = (std_lattice_positions, std_hex_vertices)"
  by code_simp

lemma dedup_lattice:
  "dedup_vertices points_equal
     (map (\<lambda>(cx, cy). hex_corners cx cy HEX_SIZE)
        (map (\<lambda>(q, r). hex_to_pixel q r HEX_SIZE) STANDARD_HEX_POSITIONS))
     = (map (lattice_point HEX_SIZE) std_lattice_positions, std_hex_vertices)"
proof -
  have eq: "map (\<lambda>(cx, cy). hex_corners cx cy HEX_SIZE)
          (map (\<lambda>(q, r). hex_to_pixel q r HEX_SIZE) STANDARD_HEX_POSITIONS)
        = map (map (lattice_point HEX_SIZE)) (map lattice_corners STANDARD_HEX_POSITIONS)"
    using hex_corners_lattice[of _ _ HEX_SIZE] by (simp add: case_prod_unfold)
  have pe: "\<And>a b. points_equal (lattice_point HEX_SIZE a) (lattice_point HEX_SIZE b) = (a = b)"
    by (rule points_equal_lattice) (simp add: HEX_SIZE_def)
  show ?thesis
    unfolding eq dedup_vertices_map[of points_equal "lattice_point HEX_SIZE" "(=)", OF pe]
      dedup_lattice_eval
    by simp
qed

lemma length_std_positions: "length std_lattice_positions = 54"
  by (simp add: std_lattice_positions_def)

lemma identify_edges_eval: "identify_edges std_hex_vertices = (std_edge_endpoints, std_hex_edges)"
  by code_simp

lemma length_std_edges: "length std_edge_endpoints = 72"
  by (simp add: std_edge_endpoints_def)

lemma build_v_adj_edges_eval: "build_v_adj_edges 54 std_edge_endpoints = std_vertex_adjacent_edges"
  by code_simp

lemma build_v_adj_verts_eval: "build_v_adj_verts 54 std_edge_endpoints = std_vertex_adjacent_vertices"
  by code_simp

lemma build_v_adj_hexes_eval: "build_v_adj_hexes 54 std_hex_vertices = std_vertex_adjacent_hexes"
  by code_simp

lemma build_e_adj_edges_eval:
  "build_e_adj_edges std_edge_endpoints std_vertex_adjacent_edges = std_edge_adjacent_edges"
  by code_simp

lemma standard_topology_tables:
  "vertex_count standard_topology = 54"
  "edge_count standard_topology = 72"
  "hex_coords standard_topology = STANDARD_HEX_POSITIONS"
  "hex_vertices standard_topology = std_hex_vertices"
  "hex_edges standard_topology = std_hex_edges"
  "edge_endpoints standard_topology = std_edge_endpoints"
  "vertex_adjacent_edges standard_topology = std_vertex_adjacent_edges"
  "vertex_adjacent_vertices standard_topology = std_vertex_adjacent_vertices"
  "vertex_adjacent_hexes standard_topology = std_vertex_adjacent_hexes"
  "edge_adjacent_edges standard_topology = std_edge_adjacent_edges"
  unfolding standard_topology_def build_board_topology_def Let_def dedup_lattice
  by (simp_all add: assemble_topology_def identify_edges_eval length_std_positions
      length_std_edges build_v_adj_edges_eval build_v_adj_verts_eval build_v_adj_hexes_eval
      build_e_adj_edges_eval)


text \<open>
  C8. The standard 19-hex coordinate list yields exactly 54 vertices, 72 edges and 19
  hexes; every vertex has 2 or 3 adjacent edges; the two endpoints of every edge are
  distinct vertices, the edge occurs exactly once in the adjacency list of each of its
  endpoints, and in the adjacency list of no other vertex.
\<close>

theorem C8_standard_topology:
  "vertex_count standard_topology = 54 \<and> edge_count standard_topology = 72
   \<and> length (hex_coords standard_topology) = 19
   \<and> length (vertex_adjacent_edges standard_topology) = 54
   \<and> length (edge_endpoints standard_topology) = 72
   \<and> list_all (\<lambda>es. length es = 2 \<or> length es = 3) (vertex_adjacent_edges standard_topology)
   \<and> list_all (\<lambda>(eid, (v1, v2)).
         v1 \<noteq> v2 \<and> v1 < 54 \<and> v2 < 54
         \<and> count_list (vertex_adjacent_edges standard_topology ! v1) eid = 1
         \<and> count_list (vertex_adjacent_edges standard_topology ! v2) eid = 1
         \<and> list_all (\<lambda>(v, es). (eid \<in> set es) = (v = v1 \<or> v = v2))
               (enumerate 0 (vertex_adjacent_edges standard_topology)))
       (enumerate 0 (edge_endpoints standard_topology))"
  unfolding standard_topology_tables by code_simp

subsection \<open>Construction\<close>

text \<open>
  C9. Constructing the engine with a player count other than 3 or 4 fails with a
  configuration error (\<^verbatim>\<open>ValueError\<close>); with 3 or 4 it succeeds.
\<close>

theorem C9_player_count_checked:
  "CatanEnv_init n = (if n = 3 \<or> n = 4 then Inr (nat n) else Inl ValueError)"
  by (simp add: CatanEnv_init_def)

subsection \<open>Discard enumeration\<close>

lemma distinct_concat_map:
  assumes "distinct xs"
    and "\<And>x. x \<in> set xs \<Longrightarrow> distinct (f x)"
    and "\<And>x y. x \<in> set xs \<Longrightarrow> y \<in> set xs \<Longrightarrow> x \<noteq> y \<Longrightarrow> set (f x) \<inter> set (f y) = {}"
  shows "distinct (concat (map f xs))"
  using assms
proof (induction xs)
  case Nil
  show ?case by simp
next
  case (Cons x xs)
  have "distinct (concat (map f xs))" using Cons by simp
  moreover have "distinct (f x)" using Cons.prems(2) by simp
  moreover have "set (f x) \<inter> (\<Union>y\<in>set xs. set (f y)) = {}"
    using Cons.prems(1,3) by fastforce
  ultimately show ?case by simp
qed



lemma within_hand_sum:
  "within_hand hnd t rs \<Longrightarrow> 0 \<le> sum_list t \<and> sum_list t \<le> sum_list (map hnd rs)"
  unfolding within_hand_def
  by (induction t rs rule: list_all2_induct) auto

lemma set_recurse:
  "set (recurse hnd rs remaining chosen)
     = {chosen @ t | t. within_hand hnd t rs \<and> sum_list t = remaining}"
proof (induction rs arbitrary: remaining chosen)
  case Nil
  show ?case by (auto simp: within_hand_def)
next
  case (Cons r rest)
  show ?case
  proof (intro set_eqI iffI)
    fix c
    assume "c \<in> set (recurse hnd (r # rest) remaining chosen)"
    then obtain take where tk: "0 \<le> take" "take \<le> hnd r" "take \<le> remaining"
      and c: "c \<in> set (recurse hnd rest (remaining - take) (chosen @ [take]))"
      by (auto simp: Let_def split: if_splits)
    from c Cons.IH obtain t where t: "c = (chosen @ [take]) @ t" "within_hand hnd t rest"
      "sum_list t = remaining - take" by auto
    have "c = chosen @ (take # t)" using t(1) by simp
    moreover have "within_hand hnd (take # t) (r # rest)" using t(2) tk by (simp add: within_hand_def)
    moreover have "sum_list (take # t) = remaining" using t(3) by simp
    ultimately show "c \<in> {chosen @ t | t. within_hand hnd t (r # rest) \<and> sum_list t = remaining}"
      by blast
  next
    fix c
    assume "c \<in> {chosen @ t | t. within_hand hnd t (r # rest) \<and> sum_list t = remaining}"
    then obtain u where u: "c = chosen @ u" "within_hand hnd u (r # rest)" "sum_list u = remaining"
      by blast
    from u(2) obtain x t where xt: "u = x # t" "0 \<le> x" "x \<le> hnd r" "within_hand hnd t rest"
      by (auto simp: within_hand_def list_all2_Cons2)
    have s: "0 \<le> sum_list t" "sum_list t \<le> sum_list (map hnd rest)"
      using within_hand_sum[OF xt(4)] by simp_all
    have rem: "remaining - x = sum_list t" using u(3) xt(1) by simp
    have "x \<in> set [0..min (hnd r) remaining]" using xt(2,3) s(1) rem by simp
    moreover have "\<not> remaining - x > sum_list (map hnd rest)" using s(2) rem by simp
    moreover have "c \<in> set (recurse hnd rest (remaining - x) (chosen @ [x]))"
      using Cons.IH[of "remaining - x" "chosen @ [x]"] u(1) xt(1,4) rem by auto
    ultimately show "c \<in> set (recurse hnd (r # rest) remaining chosen)"
      by (auto simp: Let_def)
  qed
qed

lemma distinct_recurse: "distinct (recurse hnd rs remaining chosen)"
proof (induction rs arbitrary: remaining chosen)
  case Nil
  show ?case by simp
next
  case (Cons r rest)
  let ?f = "\<lambda>take. if remaining - take > sum_list (map hnd rest) then []
                     else recurse hnd rest (remaining - take) (chosen @ [take])"
  have "distinct (concat (map ?f [0..min (hnd r) remaining]))"
  proof (rule distinct_concat_map)
    show "distinct [0..min (hnd r) remaining]" by simp
  next
    fix x show "distinct (?f x)" using Cons.IH by simp
  next
    fix x y :: int
    assume "x \<noteq> y"
    then show "set (?f x) \<inter> set (?f y) = {}"
      by (auto simp: set_recurse)
  qed
  then show ?case by (simp add: Let_def)
qed



text \<open>
  C5. In the DISCARD phase, for the player at the head of the queue, the legal actions
  are exactly the discards of five non-negative counts, each at most the held quantity,
  that sum to half of the hand, rounded down, the hand being the sum of the player's five
  resource counters; no action is listed twice.
\<close>

theorem C5_discard_enumeration:
  assumes "phase s = DISCARD"
    and "players_needing_discard s = pid # queue"
    and "pid < length (players s)"
  shows "\<exists>acts. get_legal_actions s = Some acts \<and> distinct acts
           \<and> set acts =
               {DISCARD_RESOURCES [l, b, w, g, x] | l b w g x.
                  0 \<le> l \<and> l \<le> resources (players s ! pid) Lumber
                  \<and> 0 \<le> b \<and> b \<le> resources (players s ! pid) Brick
                  \<and> 0 \<le> w \<and> w \<le> resources (players s ! pid) Wool
                  \<and> 0 \<le> g \<and> g \<le> resources (players s ! pid) Grain
                  \<and> 0 \<le> x \<and> x \<le> resources (players s ! pid) Ore
                  \<and> l + b + w + g + x =
                      (resources (players s ! pid) Lumber + resources (players s ! pid) Brick
                        + resources (players s ! pid) Wool + resources (players s ! pid) Grain
                        + resources (players s ! pid) Ore) div 2}"
proof -
  let ?h = "resources (players s ! pid)"
  let ?n = "total_resources ?h div 2"
  have n: "?n = (?h Lumber + ?h Brick + ?h Wool + ?h Grain + ?h Ore) div 2"
    by (simp add: total_resources_def RESOURCES_def)
  have legal: "get_legal_actions s = Some (enumerate_discard ?h ?n)"
    using assms by (simp add: get_legal_actions_def nth_e_def Let_def)
  have inj: "inj_on DISCARD_RESOURCES (set (recurse ?h RESOURCES ?n []))"
    by (simp add: inj_on_def)
  have d: "distinct (enumerate_discard ?h ?n)"
    unfolding enumerate_discard_def by (simp add: distinct_map distinct_recurse inj)
  have five: "within_hand ?h t RESOURCES \<and> sum_list t = ?n \<longleftrightarrow>
        (\<exists>l b w g x. t = [l, b, w, g, x]
            \<and> 0 \<le> l \<and> l \<le> ?h Lumber \<and> 0 \<le> b \<and> b \<le> ?h Brick \<and> 0 \<le> w \<and> w \<le> ?h Wool
            \<and> 0 \<le> g \<and> g \<le> ?h Grain \<and> 0 \<le> x \<and> x \<le> ?h Ore \<and> l + b + w + g + x = ?n)" for t
    by (auto simp: within_hand_def RESOURCES_def list_all2_Cons2)
  have "set (enumerate_discard ?h ?n)
          = DISCARD_RESOURCES ` {t. within_hand ?h t RESOURCES \<and> sum_list t = ?n}"
    unfolding enumerate_discard_def by (simp add: set_recurse)
  also have "\<dots> = {DISCARD_RESOURCES [l, b, w, g, x] | l b w g x.
                  0 \<le> l \<and> l \<le> ?h Lumber \<and> 0 \<le> b \<and> b \<le> ?h Brick \<and> 0 \<le> w \<and> w \<le> ?h Wool
                  \<and> 0 \<le> g \<and> g \<le> ?h Grain \<and> 0 \<le> x \<and> x \<le> ?h Ore \<and> l + b + w + g + x = ?n}"
    unfolding five by (auto simp: image_iff)
  finally show ?thesis using legal d unfolding n by blast
qed

theorem C5_discard_enumeration_witness:
  "phase discard_example = DISCARD \<and> players_needing_discard discard_example = [0]
   \<and> map (resources (players discard_example ! 0)) [Lumber, Brick, Wool, Grain, Ore]
        = [5, 4, 0, 0, 0]
   \<and> (\<exists>acts. get_legal_actions discard_example = Some acts \<and> distinct acts
         \<and> set acts = {DISCARD_RESOURCES [l, b, w, g, x] | l b w g x.
               0 \<le> l \<and> l \<le> 5 \<and> 0 \<le> b \<and> b \<le> 4 \<and> 0 \<le> w \<and> w \<le> 0
               \<and> 0 \<le> g \<and> g \<le> 0 \<and> 0 \<le> x \<and> x \<le> 0 \<and> l + b + w + g + x = 4})"
  using C5_discard_enumeration[of discard_example 0 "[]"]
  by (simp add: discard_example_def new_player_def empty_resources_def total_resources_def
      RESOURCES_def)

subsection \<open>Raising operations\<close>

lemma nth_e_Some [simp]: "nth_e xs i = Some x \<longleftrightarrow> i < length xs \<and> xs ! i = x"
  by (auto simp: nth_e_def)

lemma nth_e_None [simp]: "nth_e xs i = None \<longleftrightarrow> length xs \<le> i"
  by (auto simp: nth_e_def)

lemma nth_e_in_range: "i < length xs \<Longrightarrow> nth_e xs i = Some (xs ! i)"
  by (simp add: nth_e_def)

lemma upd_e_Some [simp]: "upd_e xs i v = Some ys \<longleftrightarrow> i < length xs \<and> ys = xs[i := v]"
  by (auto simp: upd_e_def)

lemma get_topology_eq [simp]: "get_topology s = topology s"
  by (simp add: get_topology_def)

lemma update_player_Some:
  "update_player i f s = Some s' \<longleftrightarrow>
     i < length (players s) \<and> s' = s\<lparr>players := (players s)[i := f (players s ! i)]\<rparr>"
  by (auto simp: update_player_def bind_eq_Some_conv)

lemma update_player_in_range:
  "i < length (players s) \<Longrightarrow>
     update_player i f s = Some (s\<lparr>players := (players s)[i := f (players s ! i)]\<rparr>)"
  by (simp add: update_player_Some)

lemma fold_e_invariant:
  assumes "fold_e f xs s = Some s'" and "P s"
    and "\<And>x t t'. x \<in> set xs \<Longrightarrow> P t \<Longrightarrow> f x t = Some t' \<Longrightarrow> P t'"
  shows "P s'"
  using assms
proof (induction xs arbitrary: s)
  case Nil
  then show ?case by simp
next
  case (Cons x xs)
  from Cons.prems(1) obtain t where t: "f x s = Some t" "fold_e f xs t = Some s'"
    by (auto simp: bind_eq_Some_conv)
  have "P t" using Cons.prems(3)[of x s t] Cons.prems(2) t(1) by simp
  then show ?case using Cons.IH[OF t(2)] Cons.prems(3) by (meson list.set_intros(2))
qed

lemma fold_e_append:
  "fold_e f (xs @ ys) s = Option.bind (fold_e f xs s) (fold_e f ys)"
  by (induction xs arbitrary: s) (simp_all add: Option.bind_assoc cong: Option.bind_cong)

lemma filter_e_Some:
  "filter_e f xs = Some ys \<longleftrightarrow>
     (\<forall>x\<in>set xs. f x \<noteq> None) \<and> ys = filter (\<lambda>x. f x = Some True) xs"
proof (induction xs arbitrary: ys)
  case Nil
  show ?case by auto
next
  case (Cons x xs)
  show ?case by (cases "f x") (auto simp: Cons.IH bind_eq_Some_conv)
qed

lemma map_e_Some:
  "map_e f xs = Some ys \<longleftrightarrow> list_all2 (\<lambda>x y. f x = Some y) xs ys"
proof (induction xs arbitrary: ys)
  case Nil
  show ?case by auto
next
  case (Cons x xs)
  show ?case by (cases ys) (auto simp: Cons.IH bind_eq_Some_conv)
qed

lemma resource_all: "(\<forall>r. P r) \<longleftrightarrow> P Lumber \<and> P Brick \<and> P Wool \<and> P Grain \<and> P Ore"
  by (metis resource.exhaust)

lemma has_resources_iff: "has_resources hnd cost \<longleftrightarrow> (\<forall>r. cost r \<le> hnd r)"
  by (simp add: has_resources_def RESOURCES_def resource_all)

lemma state_players_bank_eq:
  "ps = ps' \<Longrightarrow> bk = bk' \<Longrightarrow> (s::CatanState)\<lparr>players := ps, bank := bk\<rparr> = s\<lparr>players := ps', bank := bk'\<rparr>"
  by simp

lemma pay_fold:
  assumes "pid < length (players s)" and "distinct rs"
  shows "fold_e (\<lambda>r st. do { st' \<leftarrow> update_player pid (add_resource r (- cost r)) st;
                         Some (bank_add r (cost r) st') }) rs s
         = Some (s\<lparr>players := (players s)[pid := (players s ! pid)
                 \<lparr>resources := (\<lambda>r. resources (players s ! pid) r - (if r \<in> set rs then cost r else 0))\<rparr>],
            bank := (\<lambda>r. bank s r + (if r \<in> set rs then cost r else 0))\<rparr>)"
  using assms
proof (induction rs arbitrary: s)
  case Nil
  then show ?case by simp
next
  case (Cons x rs)
  let ?p = "players s ! pid"
  let ?s1 = "s\<lparr>players := (players s)[pid := add_resource x (- cost x) ?p],
               bank := (bank s)(x := bank s x + cost x)\<rparr>"
  have s1: "do { st' \<leftarrow> update_player pid (add_resource x (- cost x)) s;
                Some (bank_add x (cost x) st') } = Some ?s1"
    using Cons.prems(1) by (simp add: update_player_in_range bank_add_def)
  have len: "pid < length (players ?s1)" using Cons.prems(1) by simp
  have d: "distinct rs" and nx: "x \<notin> set rs" using Cons.prems(2) by simp_all
  have p1: "players ?s1 ! pid = add_resource x (- cost x) ?p" using Cons.prems(1) by simp
  show ?case
    unfolding fold_e.simps s1 bind.bind_lunit Cons.IH[OF len d]
    apply (simp only: option.inject)
    apply (simp add: p1 add_resource_def)
    apply (intro conjI state_players_bank_eq arg_cong2[where f="list_update (players s)"] refl)
    using nx Cons.prems(1) by (auto simp: fun_eq_iff)
qed

lemma pay_cost_Some:
  "pay_cost pid cost s = Some s' \<longleftrightarrow>
     pid < length (players s) \<and>
     s' = s\<lparr>players := (players s)[pid := (players s ! pid)
                 \<lparr>resources := (\<lambda>r. resources (players s ! pid) r - cost r)\<rparr>],
            bank := (\<lambda>r. bank s r + cost r)\<rparr>"
proof (cases "pid < length (players s)")
  case False
  then show ?thesis by (simp add: pay_cost_def RESOURCES_def update_player_def nth_e_def)
next
  case True
  have all: "r \<in> set RESOURCES" for r by (cases r) (simp_all add: RESOURCES_def)
  have "distinct RESOURCES" by (simp add: RESOURCES_def)
  from pay_fold[OF True this, of cost] show ?thesis
    using True unfolding pay_cost_def by (auto simp: all)
qed

subsection \<open>What each action changes\<close>

lemma res_frame_refl [simp]: "res_frame s s"
  unfolding res_frame_def by (rule exI[of _ "players s"], rule exI[of _ "bank s"]) simp

lemma res_frame_trans:
  assumes "res_frame s t" and "res_frame t u"
  shows "res_frame s u"
proof -
  from assms(1) obtain ps bk where t: "t = s\<lparr>players := ps, bank := bk\<rparr>"
    unfolding res_frame_def by blast
  from assms(2) obtain ps' bk' where u: "u = t\<lparr>players := ps', bank := bk'\<rparr>"
    unfolding res_frame_def by blast
  have "u = s\<lparr>players := ps', bank := bk'\<rparr>" unfolding u t by simp
  then show ?thesis unfolding res_frame_def by blast
qed

lemma map_update_same: "(map f xs)[i := f (xs ! i)] = map f xs"
  by (metis list_update_beyond list_update_id map_update not_le_imp_less length_map)

lemma res_frame_players_bank [simp]: "res_frame s (s\<lparr>players := ps, bank := bk\<rparr>)"
  unfolding res_frame_def by blast

lemma res_frame_players [simp]: "res_frame s (s\<lparr>players := ps\<rparr>)"
  unfolding res_frame_def by (rule exI[of _ ps], rule exI[of _ "bank s"]) simp

lemma res_frame_fields:
  assumes "res_frame s s'"
  shows "phase s' = phase s" "current_player s' = current_player s"
    "player_count s' = player_count s" "turn_number s' = turn_number s"
    "topology s' = topology s" "hex_terrains s' = hex_terrains s"
    "hex_numbers s' = hex_numbers s" "vertex_buildings s' = vertex_buildings s"
    "edge_roads s' = edge_roads s" "harbors s' = harbors s" "robber_hex s' = robber_hex s"
    "dev_card_deck s' = dev_card_deck s" "longest_road_player s' = longest_road_player s"
    "longest_road_length s' = longest_road_length s"
    "largest_army_player s' = largest_army_player s" "largest_army_size s' = largest_army_size s"
    "last_roll s' = last_roll s" "setup_round s' = setup_round s" "setup_index s' = setup_index s"
    "players_needing_discard s' = players_needing_discard s"
    "road_building_roads_left s' = road_building_roads_left s"
    "last_placed_vertex s' = last_placed_vertex s" "winner s' = winner s"
  using assms unfolding res_frame_def by auto

lemma pay_cost_eq:
  "pay_cost pid cost s =
     (if pid < length (players s) then
        Some (s\<lparr>players := (players s)[pid := (players s ! pid)
                 \<lparr>resources := (\<lambda>r. resources (players s ! pid) r - cost r)\<rparr>],
            bank := (\<lambda>r. bank s r + cost r)\<rparr>)
      else None)"
  using pay_cost_Some[of pid cost s] by (cases "pay_cost pid cost s") auto

lemma update_player_eq:
  "update_player i f s =
     (if i < length (players s) then Some (s\<lparr>players := (players s)[i := f (players s ! i)]\<rparr>) else None)"
  by (simp add: update_player_def nth_e_def)

lemma upd_e_eq: "upd_e xs i v = (if i < length xs then Some (xs[i := v]) else None)"
  by (simp add: upd_e_def)

lemma update_longest_road_frame:
  assumes "update_longest_road s = Some s'"
  shows "\<exists>lp ll. s' = s\<lparr>longest_road_player := lp, longest_road_length := ll\<rparr>"
  using assms by (auto simp: update_longest_road_def bind_eq_Some_conv)

lemma update_largest_army_frame:
  assumes "update_largest_army s = Some s'"
  shows "\<exists>lp ll. s' = s\<lparr>largest_army_player := lp, largest_army_size := ll\<rparr>"
  using assms by (auto simp: update_largest_army_def bind_eq_Some_conv)

lemma check_game_over_eq:
  "check_game_over s =
     (case calculate_vp s (current_player s) of
        None \<Rightarrow> None
      | Some vp \<Rightarrow> Some (if vp \<ge> VP_TO_WIN
                          then s\<lparr>phase := GAME_OVER, winner := Some (current_player s)\<rparr> else s))"
  by (simp add: check_game_over_def split: option.split)

lemma apply_build_road_eq:
  "apply_build_road pl e free s =
     (if e < length (edge_roads s) \<and> pl < length (players s) then
        Some (s\<lparr>edge_roads := (edge_roads s)[e := Some pl],
            players := (players s)[pl := (players s ! pl)
               \<lparr>remaining_roads := remaining_roads (players s ! pl) - 1,
                resources := (\<lambda>r. resources (players s ! pl) r - (if free then 0 else ROAD_COST r))\<rparr>],
            bank := (\<lambda>r. bank s r + (if free then 0 else ROAD_COST r))\<rparr>)
      else None)"
  by (cases free) (simp_all add: apply_build_road_def update_player_eq pay_cost_eq upd_e_eq)

lemma apply_build_settlement_eq:
  "apply_build_settlement v s =
     (if v < length (vertex_buildings s) \<and> current_player s < length (players s) then
     Some (s\<lparr>vertex_buildings := (vertex_buildings s)[v := Some (Settlement, current_player s)],
            players := (players s)[current_player s := (players s ! current_player s)
               \<lparr>remaining_settlements := remaining_settlements (players s ! current_player s) - 1,
                resources := (\<lambda>r. resources (players s ! current_player s) r - SETTLEMENT_COST r)\<rparr>],
            bank := (\<lambda>r. bank s r + SETTLEMENT_COST r)\<rparr>) else None)"
  by (simp add: apply_build_settlement_def update_player_eq pay_cost_eq upd_e_eq Let_def)

lemma apply_build_city_eq:
  "apply_build_city v s =
     (if v < length (vertex_buildings s) \<and> current_player s < length (players s) then
     Some (s\<lparr>vertex_buildings := (vertex_buildings s)[v := Some (City, current_player s)],
            players := (players s)[current_player s := (players s ! current_player s)
               \<lparr>remaining_cities := remaining_cities (players s ! current_player s) - 1,
                remaining_settlements := remaining_settlements (players s ! current_player s) + 1,
                resources := (\<lambda>r. resources (players s ! current_player s) r - CITY_COST r)\<rparr>],
            bank := (\<lambda>r. bank s r + CITY_COST r)\<rparr>) else None)"
  by (simp add: apply_build_city_def update_player_eq pay_cost_eq upd_e_eq Let_def)

lemma apply_buy_dev_card_eq:
  "apply_buy_dev_card s =
     (if dev_card_deck s \<noteq> [] \<and> current_player s < length (players s) then
     Some (s\<lparr>dev_card_deck := butlast (dev_card_deck s),
            players := (players s)[current_player s := (players s ! current_player s)
               \<lparr>resources := (\<lambda>r. resources (players s ! current_player s) r - DEV_CARD_COST r),
                new_dev_cards := new_dev_cards (players s ! current_player s) @ [last (dev_card_deck s)]\<rparr>],
            bank := (\<lambda>r. bank s r + DEV_CARD_COST r)\<rparr>) else None)"
  by (simp add: apply_buy_dev_card_def update_player_eq pay_cost_eq nth_e_def Let_def)

lemma apply_discard_eq:
  "apply_discard res s =
     (case players_needing_discard s of
        [] \<Rightarrow> None
      | pid # queue \<Rightarrow>
          if pid < length (players s) then
            Some (s\<lparr>players := (players s)[pid := (players s ! pid)
                   \<lparr>resources := (\<lambda>r. resources (players s ! pid) r - res r)\<rparr>],
               bank := (\<lambda>r. bank s r + res r),
               players_needing_discard := queue,
               phase := (if queue = [] then MOVE_ROBBER else phase s)\<rparr>)
          else None)"
  by (simp add: apply_discard_def pay_cost_eq nth_e_def Let_def split: list.split)

lemma apply_pick_yop_eq:
  "apply_pick_yop r1 r2 s =
     (if current_player s < length (players s) then
     Some (s\<lparr>players := (players s)[current_player s :=
                 add_resource r2 1 (add_resource r1 1 (players s ! current_player s))],
            bank := (\<lambda>r. bank s r - (if r = r1 then 1 else 0) - (if r = r2 then 1 else 0)),
            phase := TRADE_BUILD_PLAY\<rparr>) else None)"
proof -
  have "bank (bank_add r2 (- 1) (bank_add r1 (- 1) t))
     = (\<lambda>r. bank t r - (if r = r1 then 1 else 0) - (if r = r2 then 1 else 0))" for t
    by (auto simp: fun_eq_iff bank_add_def)
  moreover have "bank_add r2 (- 1) (bank_add r1 (- 1) t)
     = t\<lparr>bank := bank (bank_add r2 (- 1) (bank_add r1 (- 1) t))\<rparr>" for t
    by (simp add: bank_add_def)
  ultimately have b: "bank_add r2 (- 1) (bank_add r1 (- 1) t)
     = t\<lparr>bank := (\<lambda>r. bank t r - (if r = r1 then 1 else 0) - (if r = r2 then 1 else 0))\<rparr>" for t
    by simp
  show ?thesis
    by (simp add: apply_pick_yop_def update_player_eq Let_def b)
qed

lemma apply_maritime_trade_eq:
  "apply_maritime_trade give receive s =
     (case get_player_trade_ratio s (current_player s) give of
        None \<Rightarrow> None
      | Some ratio \<Rightarrow>
          if current_player s < length (players s) then
            Some (s\<lparr>players := (players s)[current_player s :=
                     add_resource receive 1 (add_resource give (- ratio) (players s ! current_player s))],
                   bank := (\<lambda>r. bank s r + (if r = give then ratio else 0) - (if r = receive then 1 else 0))\<rparr>)
          else None)"
proof (cases "get_player_trade_ratio s (current_player s) give")
  case None
  then show ?thesis by (simp add: apply_maritime_trade_def Let_def)
next
  case (Some ratio)
  have "bank (bank_add receive (- 1) (bank_add give ratio t))
     = (\<lambda>r. bank t r + (if r = give then ratio else 0) - (if r = receive then 1 else 0))" for t
    by (auto simp: fun_eq_iff bank_add_def)
  moreover have "bank_add receive (- 1) (bank_add give ratio t)
     = t\<lparr>bank := bank (bank_add receive (- 1) (bank_add give ratio t))\<rparr>" for t
    by (simp add: bank_add_def)
  ultimately have b: "bank_add receive (- 1) (bank_add give ratio t)
     = t\<lparr>bank := (\<lambda>r. bank t r + (if r = give then ratio else 0) - (if r = receive then 1 else 0))\<rparr>" for t
    by simp
  show ?thesis
    by (simp add: apply_maritime_trade_def Some update_player_eq Let_def b)
qed

lemma apply_play_year_of_plenty_eq:
  "apply_play_year_of_plenty s =
     (if current_player s < length (players s) then
        Some (s\<lparr>players := (players s)[current_player s := (players s ! current_player s)
                  \<lparr>dev_cards := remove_dev_card (dev_cards (players s ! current_player s)) Year_of_plenty,
                   has_played_dev_card_this_turn := True\<rparr>],
                phase := YEAR_OF_PLENTY_PICK\<rparr>)
      else None)"
  by (simp add: apply_play_year_of_plenty_def update_player_eq Let_def)

lemma apply_play_monopoly_eq:
  "apply_play_monopoly s =
     (if current_player s < length (players s) then
        Some (s\<lparr>players := (players s)[current_player s := (players s ! current_player s)
                  \<lparr>dev_cards := remove_dev_card (dev_cards (players s ! current_player s)) Monopoly,
                   has_played_dev_card_this_turn := True\<rparr>],
                phase := MONOPOLY_PICK\<rparr>)
      else None)"
  by (simp add: apply_play_monopoly_def update_player_eq Let_def)

lemma apply_play_road_building_eq:
  "apply_play_road_building s =
     (if current_player s < length (players s) then
        (let ps = (players s)[current_player s := (players s ! current_player s)
                  \<lparr>dev_cards := remove_dev_card (dev_cards (players s ! current_player s)) Road_building,
                   has_played_dev_card_this_turn := True\<rparr>];
             roads_to_place = min 2 (remaining_roads (players s ! current_player s))
         in Some (if roads_to_place = 0 then s\<lparr>players := ps\<rparr>
                  else s\<lparr>players := ps, phase := ROAD_BUILDING_PLACE,
                         road_building_roads_left := roads_to_place\<rparr>))
      else None)"
  by (simp add: apply_play_road_building_def update_player_eq Let_def nth_e_def)

lemma apply_play_knight_frame:
  assumes "apply_play_knight s = Some s'"
  shows "\<exists>ps lp ll. s' = s\<lparr>players := ps, largest_army_player := lp, largest_army_size := ll,
                              phase := MOVE_ROBBER\<rparr>
           \<and> map resources ps = map resources (players s)"
proof -
  from assms obtain s1 s2 where s1: "update_player (current_player s)
                  (\<lambda>p. p\<lparr>dev_cards := remove_dev_card (dev_cards p) Knight,
                          knights_played := knights_played p + 1,
                          has_played_dev_card_this_turn := True\<rparr>) s = Some s1"
    and s2: "update_largest_army s1 = Some s2" and s': "s' = s2\<lparr>phase := MOVE_ROBBER\<rparr>"
    by (auto simp: apply_play_knight_def bind_eq_Some_conv Let_def)
  from update_largest_army_frame[OF s2] obtain lp ll where
    e2: "s2 = s1\<lparr>largest_army_player := lp, largest_army_size := ll\<rparr>" by blast
  from s1 have e1: "current_player s < length (players s)"
    "s1 = s\<lparr>players := (players s)[current_player s := (players s ! current_player s)
                \<lparr>dev_cards := remove_dev_card (dev_cards (players s ! current_player s)) Knight,
                 knights_played := knights_played (players s ! current_player s) + 1,
                 has_played_dev_card_this_turn := True\<rparr>]\<rparr>"
    by (simp_all add: update_player_eq split: if_splits)
  show ?thesis
    apply (rule exI[of _ "players s1"], rule exI[of _ lp], rule exI[of _ ll])
    using e1 by (simp add: s' e2 map_update map_update_same)
qed

lemma apply_move_robber_frame:
  assumes "apply_move_robber h s = Some s'"
  shows "\<exists>ph. s' = s\<lparr>robber_hex := h, phase := ph\<rparr> \<and> (ph = STEAL \<or> ph = TRADE_BUILD_PLAY)"
  using assms by (auto simp: apply_move_robber_def bind_eq_Some_conv Let_def)

lemma res_frame_update_player:
  "update_player i f s = Some s' \<Longrightarrow> res_frame s s'"
  by (auto simp: update_player_eq split: if_splits)

lemma res_frame_bank_add [simp]: "res_frame s (bank_add r n s)"
  unfolding res_frame_def bank_add_def
  by (rule exI[of _ "players s"], rule exI[of _ "(bank s)(r := bank s r + n)"]) simp

lemma res_frame_gain:
  assumes "do { st' \<leftarrow> update_player i f s; Some (bank_add r n st') } = Some s'"
  shows "res_frame s s'"
  using assms
  by (auto simp: bind_eq_Some_conv intro: res_frame_trans[OF res_frame_update_player])

lemma res_frame_fold:
  assumes "fold_e f xs s = Some s'" and "\<And>x t t'. f x t = Some t' \<Longrightarrow> res_frame t t'"
  shows "res_frame s s'"
  using assms(1)
  by (rule fold_e_invariant[where P="res_frame s"]) (auto intro: res_frame_trans assms(2))

lemma res_frame_pay_demand: "pay_demand r d s = Some s' \<Longrightarrow> res_frame s s'"
  unfolding pay_demand_def by (rule res_frame_gain)

lemma res_frame_distribute_hex:
  assumes "distribute_hex n topo hid s = Some s'"
  shows "res_frame s s'"
  using assms
  by (auto simp: distribute_hex_def bind_eq_Some_conv split: if_splits option.splits
      intro: res_frame_fold res_frame_pay_demand)

lemma res_frame_distribute_resources:
  assumes "distribute_resources s n = Some s'"
  shows "res_frame s s'"
  using assms
  by (auto simp: distribute_resources_def bind_eq_Some_conv split: if_splits
      intro: res_frame_fold res_frame_distribute_hex)

lemma apply_roll_dice_frame:
  assumes "apply_roll_dice g s = Some s'"
  shows "\<exists>roll ps bk ph pnd. s' = s\<lparr>last_roll := roll, players := ps, bank := bk, phase := ph,
                                      players_needing_discard := pnd\<rparr>
           \<and> (ph = DISCARD \<or> ph = MOVE_ROBBER \<or> ph = TRADE_BUILD_PLAY)"
proof -
  from assms obtain d1 d2 where d: "randint (draw1 g) 1 7 = Some d1" "randint (draw2 g) 1 7 = Some d2"
    by (auto simp: apply_roll_dice_def bind_eq_Some_conv)
  let ?s1 = "s\<lparr>last_roll := Some (d1, d2)\<rparr>"
  show ?thesis
  proof (cases "d1 + d2 = 7")
    case True
    with assms d obtain need where "s' = (if need \<noteq> [] then ?s1\<lparr>phase := DISCARD, players_needing_discard := need\<rparr>
                       else ?s1\<lparr>phase := MOVE_ROBBER\<rparr>)"
      by (auto simp: apply_roll_dice_def bind_eq_Some_conv Let_def)
    then have "s' = s\<lparr>last_roll := Some (d1, d2), players := players s, bank := bank s,
                     phase := DISCARD, players_needing_discard := need\<rparr>
             \<or> s' = s\<lparr>last_roll := Some (d1, d2), players := players s, bank := bank s,
                     phase := MOVE_ROBBER, players_needing_discard := players_needing_discard s\<rparr>"
      by (cases "need = []") simp_all
    then show ?thesis by blast
  next
    case False
    with assms d obtain s2 where s2: "distribute_resources ?s1 (d1 + d2) = Some s2"
      and s': "s' = s2\<lparr>phase := TRADE_BUILD_PLAY\<rparr>"
      by (auto simp: apply_roll_dice_def bind_eq_Some_conv Let_def)
    from res_frame_distribute_resources[OF s2] obtain ps bk where
      "s2 = ?s1\<lparr>players := ps, bank := bk\<rparr>" unfolding res_frame_def by blast
    then have "s' = s\<lparr>last_roll := Some (d1, d2), players := ps, bank := bk,
                     phase := TRADE_BUILD_PLAY,
                     players_needing_discard := players_needing_discard s\<rparr>"
      using s' by simp
    then show ?thesis by blast
  qed
qed

lemma apply_steal_frame:
  assumes "apply_steal g victim s = Some s'"
  shows "\<exists>ps. s' = s\<lparr>players := ps, phase := TRADE_BUILD_PLAY\<rparr>"
proof -
  have "\<exists>ps. t\<lparr>phase := TRADE_BUILD_PLAY\<rparr> = t\<lparr>players := ps, phase := TRADE_BUILD_PLAY\<rparr>" for t :: CatanState
    by (rule exI[of _ "players t"]) simp
  then show ?thesis using assms
    by (auto simp: apply_steal_def bind_eq_Some_conv update_player_eq Let_def
        split: option.splits if_splits)
qed

lemma self_players: "\<exists>ps. t = (t::CatanState)\<lparr>players := ps\<rparr>"
  by (rule exI[of _ "players t"]) simp

lemma monopoly_take_frame:
  assumes "monopoly_take pid r i acc = Some acc'"
  shows "\<exists>ps. snd acc' = (snd acc)\<lparr>players := ps\<rparr>"
proof -
  show ?thesis using assms
    by (auto simp: monopoly_take_def bind_eq_Some_conv update_player_eq Let_def self_players
        split: if_splits)
qed

lemma apply_pick_monopoly_frame:
  assumes "apply_pick_monopoly r s = Some s'"
  shows "\<exists>ps. s' = s\<lparr>players := ps, phase := TRADE_BUILD_PLAY\<rparr>"
proof -
  from assms obtain acc s2 where acc: "fold_e (monopoly_take (current_player s) r) [0..<player_count s] (0, s) = Some acc"
    and s2: "update_player (current_player s) (add_resource r (fst acc)) (snd acc) = Some s2"
    and s': "s' = s2\<lparr>phase := TRADE_BUILD_PLAY\<rparr>"
    by (auto simp: apply_pick_monopoly_def bind_eq_Some_conv Let_def)
  have "\<exists>ps. snd acc = s\<lparr>players := ps\<rparr>"
  proof (rule fold_e_invariant[OF acc, where P="\<lambda>a. \<exists>ps. snd a = s\<lparr>players := ps\<rparr>"])
    show "\<exists>ps. snd (0::int, s) = s\<lparr>players := ps\<rparr>" by (rule exI[of _ "players s"]) simp
  next
    fix x t t'
    assume "\<exists>ps. snd t = s\<lparr>players := ps\<rparr>" and "monopoly_take (current_player s) r x t = Some t'"
    then show "\<exists>ps. snd t' = s\<lparr>players := ps\<rparr>"
      using monopoly_take_frame[of "current_player s" r x t t'] by auto
  qed
  then obtain ps where "snd acc = s\<lparr>players := ps\<rparr>" by blast
  then show ?thesis using s2 s' by (auto simp: update_player_eq split: if_splits)
qed

lemma apply_setup_road_eq:
  "apply_setup_road e s =
     (if e < length (edge_roads s) \<and> current_player s < length (players s) then
        (let ps = (players s)[current_player s := (players s ! current_player s)
                     \<lparr>remaining_roads := remaining_roads (players s ! current_player s) - 1\<rparr>];
             next_idx = setup_index s + 1
         in if next_idx \<ge> 2 * player_count s then
              Some (s\<lparr>edge_roads := (edge_roads s)[e := Some (current_player s)], players := ps,
                      phase := ROLL_DICE, current_player := 0, last_placed_vertex := None,
                      turn_number := 1\<rparr>)
            else
              Some (s\<lparr>edge_roads := (edge_roads s)[e := Some (current_player s)], players := ps,
                      current_player := get_setup_order (player_count s) ! next_idx,
                      setup_index := next_idx,
                      setup_round := (if next_idx \<ge> player_count s then 1 else 0),
                      phase := SETUP_PLACE_SETTLEMENT, last_placed_vertex := None\<rparr>))
      else None)"
  by (simp add: apply_setup_road_def update_player_eq upd_e_eq Let_def nth_e_def get_setup_order_def)

lemma apply_setup_settlement_frame:
  assumes "apply_setup_settlement v s = Some s'"
  shows "v < length (vertex_buildings s) \<and> (\<exists>ps bk.
           s' = s\<lparr>vertex_buildings := (vertex_buildings s)[v := Some (Settlement, current_player s)],
                  players := ps, bank := bk, last_placed_vertex := Some v,
                  phase := SETUP_PLACE_ROAD\<rparr>)"
proof -
  let ?s0 = "s\<lparr>vertex_buildings := (vertex_buildings s)[v := Some (Settlement, current_player s)]\<rparr>"
  from assms obtain s1 s2 where v: "v < length (vertex_buildings s)"
    and s1: "update_player (current_player s)
                  (\<lambda>p. p\<lparr>remaining_settlements := remaining_settlements p - 1\<rparr>) ?s0 = Some s1"
    and s2: "(if setup_round s1 = 1 then
                    do { topo \<leftarrow> get_topology s1;
                         hs \<leftarrow> nth_e (vertex_adjacent_hexes topo) v;
                         fold_e (\<lambda>hid st.
                            do { t \<leftarrow> nth_e (hex_terrains st) hid;
                                 case TERRAIN_TO_RESOURCE t of
                                   None \<Rightarrow> Some st
                                 | Some res \<Rightarrow>
                                     do { st' \<leftarrow> update_player (current_player s) (add_resource res 1) st;
                                          Some (bank_add res (- 1) st') } })
                           hs s1 }
                  else Some s1) = Some s2"
    and s': "s' = s2\<lparr>last_placed_vertex := Some v, phase := SETUP_PLACE_ROAD\<rparr>"
    by (auto simp: apply_setup_settlement_def bind_eq_Some_conv Let_def)
  have f1: "res_frame ?s0 s1" using s1 by (rule res_frame_update_player)
  have f2: "res_frame s1 s2"
  proof (cases "setup_round s1 = 1")
    case False
    then show ?thesis using s2 by simp
  next
    case True
    with s2 obtain hs where "fold_e (\<lambda>hid st.
                            do { t \<leftarrow> nth_e (hex_terrains st) hid;
                                 case TERRAIN_TO_RESOURCE t of
                                   None \<Rightarrow> Some st
                                 | Some res \<Rightarrow>
                                     do { st' \<leftarrow> update_player (current_player s) (add_resource res 1) st;
                                          Some (bank_add res (- 1) st') } })
                           hs s1 = Some s2"
      by (auto simp: bind_eq_Some_conv)
    then show ?thesis
    proof (rule res_frame_fold)
      fix x t t'
      assume "do { ter \<leftarrow> nth_e (hex_terrains t) x;
                                 case TERRAIN_TO_RESOURCE ter of
                                   None \<Rightarrow> Some t
                                 | Some res \<Rightarrow>
                                     do { st' \<leftarrow> update_player (current_player s) (add_resource res 1) t;
                                          Some (bank_add res (- 1) st') } } = Some t'"
      then show "res_frame t t'"
        by (auto simp: bind_eq_Some_conv split: option.splits intro: res_frame_gain[unfolded bind_eq_Some_conv])
    qed
  qed
  from res_frame_trans[OF f1 f2] obtain ps bk where "s2 = ?s0\<lparr>players := ps, bank := bk\<rparr>"
    unfolding res_frame_def by blast
  then have "s' = s\<lparr>vertex_buildings := (vertex_buildings s)[v := Some (Settlement, current_player s)],
                  players := ps, bank := bk, last_placed_vertex := Some v,
                  phase := SETUP_PLACE_ROAD\<rparr>" using s' by simp
  then show ?thesis using v by blast
qed

lemma apply_place_road_building_road_frame:
  assumes "apply_place_road_building_road e s = Some s'"
  shows "e < length (edge_roads s) \<and> (\<exists>ps ph rb lp ll.
           s' = s\<lparr>edge_roads := (edge_roads s)[e := Some (current_player s)], players := ps,
                  road_building_roads_left := rb, phase := ph,
                  longest_road_player := lp, longest_road_length := ll\<rparr>
           \<and> (ph = phase s \<or> ph = TRADE_BUILD_PLAY)
           \<and> map resources ps = map resources (players s))"
proof -
  let ?rb = "\<lambda>s1::CatanState. s1\<lparr>road_building_roads_left := road_building_roads_left s1 - 1\<rparr>"
  from assms obtain s1 s3 where s1: "apply_build_road (current_player s) e True s = Some s1"
    and s3: "(if road_building_roads_left (?rb s1) \<le> 0
              then Some ((?rb s1)\<lparr>phase := TRADE_BUILD_PLAY\<rparr>)
              else do { valid \<leftarrow> get_valid_road_edges_no_resource_check (?rb s1) (current_player s);
                        Some (if valid = []
                              then (?rb s1)\<lparr>phase := TRADE_BUILD_PLAY, road_building_roads_left := 0\<rparr>
                              else ?rb s1) })
             = Some s3"
    and s': "update_longest_road s3 = Some s'"
    unfolding apply_place_road_building_road_def Let_def bind_eq_Some_conv by blast
  from s1 have e: "e < length (edge_roads s)" and cp: "current_player s < length (players s)"
    and e1: "s1 = s\<lparr>edge_roads := (edge_roads s)[e := Some (current_player s)],
            players := (players s)[current_player s := (players s ! current_player s)
               \<lparr>remaining_roads := remaining_roads (players s ! current_player s) - 1,
                resources := (\<lambda>r. resources (players s ! current_player s) r - 0)\<rparr>],
            bank := (\<lambda>r. bank s r + 0)\<rparr>"
    by (simp_all add: apply_build_road_eq split: if_splits)
  have "\<exists>rb ph. s3 = s1\<lparr>road_building_roads_left := rb, phase := ph\<rparr>
           \<and> (ph = phase s1 \<or> ph = TRADE_BUILD_PLAY)"
  proof (cases "road_building_roads_left (?rb s1) \<le> 0")
    case True
    then have "s3 = s1\<lparr>road_building_roads_left := road_building_roads_left s1 - 1,
                        phase := TRADE_BUILD_PLAY\<rparr>" using s3 by auto
    then show ?thesis by blast
  next
    case False
    then have "s3 = s1\<lparr>road_building_roads_left := 0, phase := TRADE_BUILD_PLAY\<rparr>
             \<or> s3 = s1\<lparr>road_building_roads_left := road_building_roads_left s1 - 1, phase := phase s1\<rparr>"
      using s3 by (auto simp: bind_eq_Some_conv split: if_splits)
    then show ?thesis by blast
  qed
  then obtain rb ph where e3: "s3 = s1\<lparr>road_building_roads_left := rb, phase := ph\<rparr>"
    and ph: "ph = phase s1 \<or> ph = TRADE_BUILD_PLAY" by blast
  from update_longest_road_frame[OF s'] obtain lp ll where
    e': "s' = s3\<lparr>longest_road_player := lp, longest_road_length := ll\<rparr>" by blast
  have "s' = s\<lparr>edge_roads := (edge_roads s)[e := Some (current_player s)],
                players := players s1,
                road_building_roads_left := rb, phase := ph,
                longest_road_player := lp, longest_road_length := ll\<rparr>"
    unfolding e' e3 by (simp add: e1)
  moreover have "map resources (players s1) = map resources (players s)"
    using cp by (simp add: e1 map_update map_update_same)
  moreover have "ph = phase s \<or> ph = TRADE_BUILD_PLAY" using ph by (simp add: e1)
  ultimately show ?thesis using e by blast
qed

lemma count_vp_cards_append [simp]:
  "count_vp_cards (xs @ ys) = count_vp_cards xs + count_vp_cards ys"
  by (simp add: count_vp_cards_def)

lemma count_vp_cards_Nil [simp]: "count_vp_cards [] = 0"
  by (simp add: count_vp_cards_def)

lemma apply_end_turn_eq:
  "apply_end_turn s =
     (if current_player s < length (players s) then
        (let s1 = s\<lparr>players := (players s)[current_player s := (players s ! current_player s)
                       \<lparr>dev_cards := dev_cards (players s ! current_player s)
                                       @ new_dev_cards (players s ! current_player s),
                        new_dev_cards := [], has_played_dev_card_this_turn := False\<rparr>]\<rparr>
         in case calculate_vp s1 (current_player s) of
              None \<Rightarrow> None
            | Some vp \<Rightarrow>
                if vp \<ge> VP_TO_WIN then Some (s1\<lparr>phase := GAME_OVER, winner := Some (current_player s)\<rparr>)
                else if phase s = GAME_OVER then Some s1
                else if player_count s = 0 then None
                else Some (s1\<lparr>current_player := (current_player s + 1) mod player_count s,
                              turn_number := turn_number s + 1, last_roll := None, phase := ROLL_DICE\<rparr>))
      else None)"
  by (simp add: apply_end_turn_def update_player_eq check_game_over_eq Let_def split: option.split)

subsection \<open>End of the game\<close>

lemma upt_54:
  "[0..<54] = [0, 1, 2, 3, 4, 5, 6, 7, 8, 9, 10, 11, 12, 13, 14, 15, 16, 17]
     @ [18, 19, 20, 21, 22, 23, 24, 25, 26, 27, 28, 29, 30, 31, 32, 33, 34, 35]
     @ [36, 37, 38, 39, 40, 41, 42, 43, 44, 45, 46, 47, 48, 49, 50, 51, 52, 53]"
  by code_simp

lemma apply_action_phase:
  assumes "apply_action g a s = Some s'" and "a \<noteq> END_TURN" and "phase s' = GAME_OVER"
  shows "phase s = GAME_OVER"
proof (cases a)
  case (PLACE_SETUP_SETTLEMENT v)
  then show ?thesis using assms apply_setup_settlement_frame[of v s s'] by (auto simp: apply_action_def)
next
  case (PLACE_SETUP_ROAD e)
  then show ?thesis using assms
    by (auto simp: apply_action_def apply_setup_road_eq Let_def split: if_splits)
next
  case ROLL_DICE_action
  then show ?thesis using assms apply_roll_dice_frame[of g s s'] by (auto simp: apply_action_def)
next
  case (DISCARD_RESOURCES counts)
  with assms obtain res where "apply_discard res s = Some s'"
    by (auto simp: apply_action_def bind_eq_Some_conv)
  then show ?thesis using assms(3)
    by (cases "players_needing_discard s") (auto simp: apply_discard_eq split: if_splits)
next
  case (MOVE_ROBBER_action h)
  then show ?thesis using assms apply_move_robber_frame[of h s s'] by (auto simp: apply_action_def)
next
  case (STEAL_RESOURCE victim)
  then show ?thesis using assms apply_steal_frame[of g victim s s'] by (auto simp: apply_action_def)
next
  case (BUILD_ROAD e)
  with assms obtain s1 where s1: "apply_build_road (current_player s) e False s = Some s1"
    and u: "update_longest_road s1 = Some s'"
    by (auto simp: apply_action_def bind_eq_Some_conv)
  from update_longest_road_frame[OF u] have "phase s' = phase s1" by auto
  moreover from s1 have "phase s1 = phase s" by (auto simp: apply_build_road_eq split: if_splits)
  ultimately show ?thesis using assms(3) by simp
next
  case (BUILD_SETTLEMENT v)
  with assms obtain s1 where s1: "apply_build_settlement v s = Some s1"
    and u: "update_longest_road s1 = Some s'"
    by (auto simp: apply_action_def bind_eq_Some_conv)
  from update_longest_road_frame[OF u] have "phase s' = phase s1" by auto
  moreover from s1 have "phase s1 = phase s" by (auto simp: apply_build_settlement_eq split: if_splits)
  ultimately show ?thesis using assms(3) by simp
next
  case (BUILD_CITY v)
  then show ?thesis using assms
    by (auto simp: apply_action_def apply_build_city_eq split: if_splits)
next
  case BUY_DEV_CARD
  then show ?thesis using assms
    by (auto simp: apply_action_def apply_buy_dev_card_eq split: if_splits)
next
  case PLAY_KNIGHT
  then show ?thesis using assms apply_play_knight_frame[of s s'] by (auto simp: apply_action_def)
next
  case PLAY_ROAD_BUILDING
  then show ?thesis using assms
    by (auto simp: apply_action_def apply_play_road_building_eq Let_def split: if_splits)
next
  case (PLACE_ROAD_BUILDING_ROAD e)
  then show ?thesis using assms apply_place_road_building_road_frame[of e s s']
    by (auto simp: apply_action_def)
next
  case PLAY_YEAR_OF_PLENTY
  then show ?thesis using assms
    by (auto simp: apply_action_def apply_play_year_of_plenty_eq split: if_splits)
next
  case (PICK_YEAR_OF_PLENTY_RESOURCES r1 r2)
  then show ?thesis using assms
    by (auto simp: apply_action_def apply_pick_yop_eq split: if_splits)
next
  case PLAY_MONOPOLY
  then show ?thesis using assms
    by (auto simp: apply_action_def apply_play_monopoly_eq split: if_splits)
next
  case (PICK_MONOPOLY_RESOURCE r)
  then show ?thesis using assms apply_pick_monopoly_frame[of r s s'] by (auto simp: apply_action_def)
next
  case (MARITIME_TRADE give receive)
  then show ?thesis using assms
    by (auto simp: apply_action_def apply_maritime_trade_eq split: option.splits if_splits)
next
  case END_TURN
  then show ?thesis using assms by simp
qed

lemma step_Some:
  "step g a s = Some (s', reward, done, info) \<longleftrightarrow>
     apply_action g a s = Some s' \<and> reward = 0 \<and> done = (phase s' = GAME_OVER)
     \<and> info = (if phase s' = GAME_OVER then [(''winner'', winner s')] else [])"
  by (auto simp: step_def bind_eq_Some_conv Let_def)

lemma calculate_vp_promote:
  assumes "p < length (players s)"
  shows "calculate_vp
           (s\<lparr>players := (players s)[p := (players s ! p)
                  \<lparr>dev_cards := dev_cards (players s ! p) @ new_dev_cards (players s ! p),
                   new_dev_cards := [], has_played_dev_card_this_turn := False\<rparr>]\<rparr>) p
         = calculate_vp s p"
  using assms by (simp add: calculate_vp_def nth_e_def Let_def add.assoc cong: Option.bind_cong)

lemma calculate_vp_phase_winner [simp]:
  "calculate_vp (s\<lparr>phase := ph, winner := w\<rparr>) p = calculate_vp s p"
  by (simp add: calculate_vp_def cong: Option.bind_cong)

lemma end_turn_game_over:
  assumes "apply_end_turn s = Some s'" and "phase s \<noteq> GAME_OVER" and "phase s' = GAME_OVER"
  shows "\<exists>vp. calculate_vp s (current_player s) = Some vp \<and> VP_TO_WIN \<le> vp
           \<and> calculate_vp s' (current_player s') = Some vp
           \<and> winner s' = Some (current_player s) \<and> current_player s' = current_player s"
proof -
  let ?p = "current_player s"
  let ?s1 = "s\<lparr>players := (players s)[?p := (players s ! ?p)
                  \<lparr>dev_cards := dev_cards (players s ! ?p) @ new_dev_cards (players s ! ?p),
                   new_dev_cards := [], has_played_dev_card_this_turn := False\<rparr>]\<rparr>"
  from assms(1) have cp: "?p < length (players s)"
    by (simp add: apply_end_turn_eq split: if_splits)
  from assms(1) cp obtain vp where vp: "calculate_vp ?s1 ?p = Some vp"
    by (auto simp: apply_end_turn_eq Let_def split: option.splits)
  have win: "VP_TO_WIN \<le> vp" and s': "s' = ?s1\<lparr>phase := GAME_OVER, winner := Some ?p\<rparr>"
    using assms cp vp by (auto simp: apply_end_turn_eq Let_def split: if_splits)
  have "calculate_vp s ?p = Some vp" using vp calculate_vp_promote[OF cp] by simp
  moreover have "calculate_vp s' (current_player s') = Some vp"
    unfolding s' using vp by simp
  ultimately show ?thesis using win s' by simp
qed

text \<open>
  C2. The phase becomes GAME_OVER only through an END_TURN action, and then the acting
  player's victory points, recomputed at that moment, are at least 10 and the winner is
  that player. No other action sets the phase to GAME_OVER.
\<close>

theorem C2_game_over_only_at_end_turn:
  assumes "step g a s = Some (s', reward, done, info)"
    and "phase s \<noteq> GAME_OVER" and "phase s' = GAME_OVER"
  shows "a = END_TURN
         \<and> (\<exists>vp. calculate_vp s (current_player s) = Some vp \<and> VP_TO_WIN \<le> vp
                \<and> calculate_vp s' (current_player s') = Some vp)
         \<and> winner s' = Some (current_player s) \<and> current_player s' = current_player s"
proof -
  from assms(1) have a: "apply_action g a s = Some s'" by (simp add: step_Some)
  have e: "a = END_TURN" using apply_action_phase[OF a] assms(2,3) by blast
  then have "apply_end_turn s = Some s'" using a by (simp add: apply_action_def)
  from end_turn_game_over[OF this assms(2,3)] e show ?thesis by blast
qed

lemma win_example_vp:
  "calculate_vp
     (win_example\<lparr>players := (players win_example)[0 := (players win_example ! 0)
         \<lparr>dev_cards := dev_cards (players win_example ! 0) @ new_dev_cards (players win_example ! 0),
          new_dev_cards := [], has_played_dev_card_this_turn := False\<rparr>]\<rparr>) 0 = Some 10"
  by (simp add: calculate_vp_def win_example_def standard_topology_tables upt_54 nth_e_def
      new_player_def)

lemma win_example_end_turn:
  "\<exists>s'. step g END_TURN win_example = Some (s', 0, True, [(''winner'', Some 0)])
        \<and> phase s' = GAME_OVER \<and> winner s' = Some 0"
proof -
  have cp: "current_player win_example = 0" "0 < length (players win_example)"
    "players win_example \<noteq> []"
    by (simp_all add: win_example_def)
  show ?thesis
    using win_example_vp
    by (simp add: step_def apply_action_def apply_end_turn_eq cp Let_def VP_TO_WIN_def)
qed

theorem C2_game_over_only_at_end_turn_witness:
  "phase win_example \<noteq> GAME_OVER
   \<and> (\<exists>s'. step \<lparr>draw1 = 0, draw2 = 0\<rparr> END_TURN win_example
               = Some (s', 0, True, [(''winner'', Some 0)])
          \<and> phase s' = GAME_OVER
          \<and> (\<exists>vp. calculate_vp win_example (current_player win_example) = Some vp
                 \<and> VP_TO_WIN \<le> vp \<and> calculate_vp s' (current_player s') = Some vp)
          \<and> winner s' = Some (current_player win_example))"
proof -
  have ph: "phase win_example \<noteq> GAME_OVER" by (simp add: win_example_def)
  from win_example_end_turn[of "\<lparr>draw1 = 0, draw2 = 0\<rparr>"] obtain s' where
    s': "step \<lparr>draw1 = 0, draw2 = 0\<rparr> END_TURN win_example = Some (s', 0, True, [(''winner'', Some 0)])"
    and g: "phase s' = GAME_OVER" by blast
  from C2_game_over_only_at_end_turn[OF s' ph g] s' g ph show ?thesis by blast
qed

text \<open>
  C7. The docstring of \<^verbatim>\<open>step\<close> promises a reward of +1 for the winner and -1 for the
  others when the game ends; the code returns 0.0 always. At the end of the game of
  \<open>win_example\<close> the result is done, carries the winner, and has reward 0.
\<close>

theorem C7_reward_zero_at_game_end:
  "\<forall>g. \<exists>s'. step g END_TURN win_example = Some (s', 0, True, [(''winner'', Some 0)])
        \<and> phase s' = GAME_OVER \<and> winner s' = Some 0"
  using win_example_end_turn by blast

subsection \<open>Resource accounting\<close>

lemma length_hands [simp]: "length (hands s) = length (players s)"
  by (simp add: hands_def)

lemma nth_hands [simp]: "i < length (players s) \<Longrightarrow> hands s ! i = resources (players s ! i)"
  by (simp add: hands_def)

lemma hands_players_upd:
  "hands (s\<lparr>players := ps\<rparr>) = map resources ps"
  by (simp add: hands_def)

lemma sum_list_update_int:
  fixes xs :: "int list"
  assumes "i < length xs"
  shows "sum_list (xs[i := v]) = sum_list xs - xs ! i + v"
  using assms
proof (induction xs arbitrary: i)
  case Nil
  then show ?case by simp
next
  case (Cons x xs)
  then show ?case by (cases i) simp_all
qed

lemma held_update:
  assumes "i < length hs"
  shows "held (hs[i := h]) r = held hs r - (hs ! i) r + h r"
  using assms by (simp add: held_def map_update sum_list_update_int)

lemma set_update_nonneg:
  assumes "\<forall>h\<in>set hs. 0 \<le> (h::hand) r" and "0 \<le> h' r"
  shows "\<forall>h\<in>set (hs[i := h']). 0 \<le> h r"
  using assms by (metis insert_iff set_update_subset_insert subsetD)

text \<open>Player \<open>i\<close> hands \<open>c r\<close> units of every resource \<open>r\<close> to the bank (or takes them, when negative).\<close>

lemma conserved_exchange:
  assumes "conserved hs bk" and "i < length hs"
    and "\<And>r. c r \<le> (hs ! i) r" and "\<And>r. 0 \<le> bk r + c r"
  shows "conserved (hs[i := (\<lambda>r. (hs ! i) r - c r)]) (\<lambda>r. bk r + c r)"
  unfolding conserved_def
proof (intro allI conjI)
  fix r
  show "0 \<le> bk r + c r" by (rule assms(4))
  show "\<forall>h\<in>set (hs[i := \<lambda>r. (hs ! i) r - c r]). 0 \<le> h r"
    using assms(1,3) by (intro set_update_nonneg) (auto simp: conserved_def)
  show "held (hs[i := \<lambda>r. (hs ! i) r - c r]) r + (bk r + c r) = BANK_PER_RESOURCE"
    using assms(1,2) by (simp add: held_update conserved_def)
qed

text \<open>Player \<open>i\<close> hands \<open>n\<close> units of \<open>r\<close> to player \<open>j\<close>: first the loss, then the gain.\<close>

lemma conserved_move:
  assumes "conserved hs bk" and "i < length hs" and "j < length hs"
    and "0 \<le> n" and "n \<le> (hs ! i) r"
  defines "hs1 \<equiv> hs[i := (hs ! i)(r := (hs ! i) r - n)]"
  shows "conserved (hs1[j := (hs1 ! j)(r := (hs1 ! j) r + n)]) bk"
  unfolding conserved_def
proof (intro allI conjI)
  fix r'
  have nn: "\<forall>h\<in>set hs. 0 \<le> h r'" and bk: "0 \<le> bk r'" and tot: "held hs r' + bk r' = BANK_PER_RESOURCE"
    using assms(1) by (auto simp: conserved_def)
  show "0 \<le> bk r'" by (rule bk)
  have n1: "\<forall>h\<in>set hs1. 0 \<le> h r'"
    unfolding hs1_def using nn assms(2,5) by (intro set_update_nonneg) auto
  have "0 \<le> (hs1 ! j) r'" using n1 assms(3) by (simp add: hs1_def)
  then show "\<forall>h\<in>set (hs1[j := (hs1 ! j)(r := (hs1 ! j) r + n)]). 0 \<le> h r'"
    using n1 assms(4) by (intro set_update_nonneg) auto
  have "held hs1 r' = held hs r' - (if r' = r then n else 0)"
    unfolding hs1_def using assms(2) by (simp add: held_update)
  moreover have "held (hs1[j := (hs1 ! j)(r := (hs1 ! j) r + n)]) r' = held hs1 r' + (if r' = r then n else 0)"
    using assms(3) by (simp add: held_update hs1_def)
  ultimately show "held (hs1[j := (hs1 ! j)(r := (hs1 ! j) r + n)]) r' + bk r' = BANK_PER_RESOURCE"
    using tot by simp
qed

lemma held_pointwise:
  assumes "length hs' = length hs" and "\<And>i. i < length hs \<Longrightarrow> (hs' ! i) r = (hs ! i) r + d i"
  shows "held hs' r = held hs r + (\<Sum>i<length hs. d i)"
proof -
  have "map (\<lambda>h. h r) hs' = map (\<lambda>i. (hs ! i) r + d i) [0..<length hs]"
    using assms by (intro nth_equalityI) simp_all
  moreover have "map (\<lambda>h. h r) hs = map (\<lambda>i. (hs ! i) r) [0..<length hs]"
    by (intro nth_equalityI) simp_all
  ultimately show ?thesis
    by (simp add: held_def sum_list_addf interv_sum_list_conv_sum_set_nat atLeast0LessThan)
qed

subsection \<open>Resource distribution\<close>

lemma dict_total_Nil [simp]: "dict_total [] i = 0"
  by (simp add: dict_total_def)

lemma dict_total_Cons [simp]:
  "dict_total (kv # d) i = (if fst kv = i then snd kv else 0) + dict_total d i"
  by (simp add: dict_total_def)

lemma dict_total_demand_add:
  "dict_total (demand_add d k a) i = dict_total d i + (if i = k then a else 0)"
  by (induction d) auto

lemma sum_demand_add: "sum_list (map snd (demand_add d k a)) = sum_list (map snd d) + a"
  by (induction d) auto

lemma keys_demand_add: "fst ` set (demand_add d k a) = insert k (fst ` set d)"
  by (induction d) auto

lemma hex_demand_fold:
  assumes "fold_e (\<lambda>vid acc.
        do { b \<leftarrow> nth_e (vertex_buildings s) vid;
             Some (case b of
                     None \<Rightarrow> acc
                   | Some bo \<Rightarrow>
                       (let amount = (if fst bo = City then 2 else 1)
                        in (fst acc + amount, demand_add (snd acc) (snd bo) amount))) })
       vids acc = Some dem"
  shows "fst dem = fst acc + hex_total_demand s vids
         \<and> (\<forall>p. dict_total (snd dem) p = dict_total (snd acc) p + hex_claims s vids p)
         \<and> sum_list (map snd (snd dem)) = sum_list (map snd (snd acc)) + hex_total_demand s vids
         \<and> (\<forall>vid\<in>set vids. vid < length (vertex_buildings s))"
  using assms
proof (induction vids arbitrary: acc)
  case Nil
  then show ?case by (simp add: hex_total_demand_def hex_claims_def)
next
  case (Cons vid vids)
  from Cons.prems obtain acc1 where v: "vid < length (vertex_buildings s)"
    and acc1: "acc1 = (case vertex_buildings s ! vid of
                     None \<Rightarrow> acc
                   | Some bo \<Rightarrow>
                       (let amount = (if fst bo = City then 2 else 1)
                        in (fst acc + amount, demand_add (snd acc) (snd bo) amount)))"
    and rest: "fold_e (\<lambda>vid acc.
        do { b \<leftarrow> nth_e (vertex_buildings s) vid;
             Some (case b of
                     None \<Rightarrow> acc
                   | Some bo \<Rightarrow>
                       (let amount = (if fst bo = City then 2 else 1)
                        in (fst acc + amount, demand_add (snd acc) (snd bo) amount))) })
       vids acc1 = Some dem"
    by (auto simp: bind_eq_Some_conv)
  have a1: "fst acc1 = fst acc + demand_at s vid"
    "\<And>p. dict_total (snd acc1) p = dict_total (snd acc) p + claim_at s p vid"
    "sum_list (map snd (snd acc1)) = sum_list (map snd (snd acc)) + demand_at s vid"
    unfolding acc1 demand_at_def claim_at_def
    by (auto simp: Let_def dict_total_demand_add sum_demand_add split: option.splits)
  from Cons.IH[OF rest] a1 v show ?case
    by (simp add: hex_total_demand_def hex_claims_def)
qed

lemma hex_demand_Some:
  assumes "hex_demand s vids = Some dem"
  shows "fst dem = hex_total_demand s vids"
    and "dict_total (snd dem) p = hex_claims s vids p"
    and "sum_list (map snd (snd dem)) = hex_total_demand s vids"
  using hex_demand_fold[OF assms[unfolded hex_demand_def]] by simp_all

lemma add_resource_zero [simp]: "add_resource r 0 p = p"
  by (simp add: add_resource_def)

lemma add_resource_add: "add_resource r a (add_resource r b p) = add_resource r (b + a) p"
  by (simp add: add_resource_def add.assoc)

lemma pay_demand_eq:
  "pay_demand r kv s =
     (if fst kv < length (players s) then
        Some (s\<lparr>players := (players s)[fst kv := add_resource r (snd kv) (players s ! fst kv)],
                bank := (bank s)(r := bank s r - snd kv)\<rparr>)
      else None)"
  by (simp add: pay_demand_def update_player_eq bank_add_def)

lemma res_frame_eq:
  assumes "res_frame s s'"
  shows "s' = s\<lparr>players := players s', bank := bank s'\<rparr>"
  using assms unfolding res_frame_def by auto

lemma pay_demand_fold:
  assumes "fold_e (pay_demand r) d s = Some s'"
  shows "length (players s') = length (players s)
         \<and> (\<forall>i<length (players s). players s' ! i = add_resource r (dict_total d i) (players s ! i))
         \<and> res_frame s s'
         \<and> (\<forall>x. bank s' x = bank s x - (if x = r then sum_list (map snd d) else 0))
         \<and> (\<forall>kv\<in>set d. fst kv < length (players s))"
  using assms
proof (induction d arbitrary: s)
  case Nil
  then show ?case by simp
next
  case (Cons kv d)
  let ?s1 = "s\<lparr>players := (players s)[fst kv := add_resource r (snd kv) (players s ! fst kv)],
              bank := (bank s)(r := bank s r - snd kv)\<rparr>"
  from Cons.prems obtain t where t: "pay_demand r kv s = Some t" "fold_e (pay_demand r) d t = Some s'"
    by (auto simp: bind_eq_Some_conv)
  from t(1) have k: "fst kv < length (players s)" and "t = ?s1"
    by (simp_all add: pay_demand_eq split: if_splits)
  with t(2) have rest: "fold_e (pay_demand r) d ?s1 = Some s'" by simp
  note ih = Cons.IH[OF rest]
  have len: "length (players s') = length (players s)" using ih by simp
  have pt: "players s' ! i = add_resource r (dict_total d i) (players ?s1 ! i)"
    if "i < length (players s)" for i using ih that by simp
  have fr: "res_frame ?s1 s'" using ih by blast
  have bk: "bank s' x = bank ?s1 x - (if x = r then sum_list (map snd d) else 0)" for x
    using ih by blast
  have ks: "\<forall>kv\<in>set d. fst kv < length (players s)" using ih by simp
  have "players s' ! i = add_resource r (dict_total (kv # d) i) (players s ! i)"
    if "i < length (players s)" for i
    using pt[OF that] that by (auto simp: nth_list_update add_resource_add)
  moreover have "res_frame s s'"
    by (rule res_frame_trans[OF _ fr]) simp
  moreover have "bank s' x = bank s x - (if x = r then sum_list (map snd (kv # d)) else 0)" for x
    using bk[of x] by simp
  ultimately show ?case using len k ks by simp
qed

lemma sum_dict_total:
  assumes "\<forall>kv\<in>set d. fst kv < n"
  shows "(\<Sum>i<n. dict_total d i) = sum_list (map snd d)"
  using assms
proof (induction d)
  case Nil
  then show ?case by simp
next
  case (Cons kv d)
  have "(\<Sum>i<n. (if fst kv = i then snd kv else 0)) = snd kv"
    using Cons.prems by (simp add: sum.delta lessThan_def)
  then show ?case using Cons by (simp add: sum.distrib)
qed

lemma distribute_hex_payout:
  assumes "distribute_hex dice_total topo hid s = Some s'"
  shows "s' = payout_hex dice_total topo s hid"
proof -
  from assms have h: "hid < length (hex_numbers s)"
    by (auto simp: distribute_hex_def bind_eq_Some_conv)
  show ?thesis
  proof (cases "hex_numbers s ! hid = Some dice_total \<and> hid \<noteq> robber_hex s")
    case False
    then show ?thesis using assms h
      by (auto simp: distribute_hex_def payout_hex_def bind_eq_Some_conv split: if_splits)
  next
    case True
    then have t: "hid < length (hex_terrains s)" using assms h
      by (auto simp: distribute_hex_def bind_eq_Some_conv split: if_splits)
    show ?thesis
    proof (cases "TERRAIN_TO_RESOURCE (hex_terrains s ! hid)")
      case None
      then show ?thesis using assms h True
        by (auto simp: distribute_hex_def payout_hex_def bind_eq_Some_conv split: if_splits)
    next
      case (Some r)
      from assms h True t Some obtain dem where hv: "hid < length (hex_vertices topo)"
        and dem: "hex_demand s (hex_vertices topo ! hid) = Some dem"
        and pay: "(if fst dem > bank s r then Some s else fold_e (pay_demand r) (snd dem) s) = Some s'"
        by (auto simp: distribute_hex_def bind_eq_Some_conv split: if_splits)
      let ?vids = "hex_vertices topo ! hid"
      note d = hex_demand_Some[OF dem]
      show ?thesis
      proof (cases "fst dem > bank s r")
        case True
        then show ?thesis using pay \<open>hex_numbers s ! hid = Some dice_total \<and> hid \<noteq> robber_hex s\<close> Some d(1)
          by (simp add: payout_hex_def Let_def)
      next
        case False
        then have f: "fold_e (pay_demand r) (snd dem) s = Some s'" using pay by simp
        from pay_demand_fold[OF f] have len: "length (players s') = length (players s)"
          and pt: "\<forall>i<length (players s). players s' ! i
                      = add_resource r (dict_total (snd dem) i) (players s ! i)"
          and fr0: "res_frame s s'"
          and bk: "\<forall>x. bank s' x = bank s x - (if x = r then sum_list (map snd (snd dem)) else 0)"
          by blast+
        have "bank s' = (bank s)(r := bank s r - sum_list (map snd (snd dem)))"
          using bk by (auto simp: fun_eq_iff)
        with res_frame_eq[OF fr0] have fr: "s' = s\<lparr>players := players s',
                          bank := (bank s)(r := bank s r - sum_list (map snd (snd dem)))\<rparr>"
          by simp
        have "players s' = map (\<lambda>ip. add_resource r (hex_claims s ?vids (fst ip)) (snd ip))
                                (enumerate 0 (players s))"
          using len pt by (intro nth_equalityI) (simp_all add: d(2) nth_enumerate_eq)
        then show ?thesis
          using False \<open>hex_numbers s ! hid = Some dice_total \<and> hid \<noteq> robber_hex s\<close> Some d(1,3)
          by (subst fr) (simp add: payout_hex_def Let_def)
      qed
    qed
  qed
qed

lemma fold_e_foldl:
  assumes "fold_e f xs s = Some s'" and "\<And>x t t'. f x t = Some t' \<Longrightarrow> t' = g t x"
  shows "s' = foldl g s xs"
  using assms(1)
proof (induction xs arbitrary: s)
  case Nil
  then show ?case by simp
next
  case (Cons x xs)
  then obtain t where t: "f x s = Some t" "fold_e f xs t = Some s'"
    by (auto simp: bind_eq_Some_conv)
  from assms(2)[OF t(1)] Cons.IH[OF t(2)] show ?case by simp
qed

lemma payout_hex_static:
  "hex_terrains (payout_hex n topo s hid) = hex_terrains s"
  by (simp add: payout_hex_def Let_def split: option.split)

lemma distribute_resources_payout:
  assumes "distribute_resources s dice_total = Some s'" and "dice_total \<noteq> 7"
    and "topology s = Some topo"
  shows "s' = foldl (payout_hex dice_total topo) s [0..<length (hex_terrains s)]"
  using assms
  by (auto simp: distribute_resources_def intro!: fold_e_foldl distribute_hex_payout)

lemma upt_19: "[0..<19] = [0, 1, 2, 3, 4, 5, 6, 7, 8, 9, 10, 11, 12, 13, 14, 15, 16, 17, 18]"
  by code_simp

lemma shortage_example_roll:
  "\<exists>s'. distribute_resources shortage_example 3 = Some s'
        \<and> resources (players s' ! 0) Lumber = 10 \<and> resources (players s' ! 1) Lumber = 9
        \<and> bank s' Lumber = 0"
  by (simp add: distribute_resources_def shortage_example_def TERRAIN_DISTRIBUTION_def
      NUMBER_TOKEN_DISTRIBUTION_def upt_19 distribute_hex_def nth_e_def standard_topology_tables
      std_hex_vertices_def hex_demand_def pay_demand_eq new_player_def empty_resources_def
      add_resource_def BANK_PER_RESOURCE_def)

text \<open>
  C3, as amended. On a roll other than 7 the hexes are handled in index order and each
  on its own: a hex whose token is the roll, that is not under the robber and that
  produces a resource pays every adjacent settlement's owner 1 unit and every adjacent
  city's owner 2 units when the bank holds at least the total demand of that hex at that
  moment, and pays nothing otherwise. The shortage test is per hex, not per resource.
\<close>

theorem C3_distribution_per_hex:
  assumes "distribute_resources s dice_total = Some s'" and "dice_total \<noteq> 7"
    and "topology s = Some topo"
  shows "s' = foldl (payout_hex dice_total topo) s [0..<length (hex_terrains s)]"
  using assms by (rule distribute_resources_payout)

theorem C3_distribution_per_hex_witness:
  "(3::int) \<noteq> 7 \<and> topology shortage_example = Some standard_topology
   \<and> (\<exists>s'. distribute_resources shortage_example 3 = Some s'
          \<and> s' = foldl (payout_hex 3 standard_topology) shortage_example
                    [0..<length (hex_terrains shortage_example)])"
proof -
  have t: "topology shortage_example = Some standard_topology"
    by (simp add: shortage_example_def)
  from shortage_example_roll obtain s' where s': "distribute_resources shortage_example 3 = Some s'"
    by blast
  have "s' = foldl (payout_hex 3 standard_topology) shortage_example
                    [0..<length (hex_terrains shortage_example)]"
    by (rule C3_distribution_per_hex[OF s' _ t]) simp
  then show ?thesis using s' t by simp
qed

text \<open>
  The claim as stated fails: the roll 3 finds two forests; their joint demand for lumber
  (2) exceeds the bank's supply (1), and still player 0 is paid for the first hex.
\<close>

theorem C3_whole_resource_skipped_counterexample:
  "filter (\<lambda>hid. hex_numbers shortage_example ! hid = Some 3) [0..<19] = [1, 2]
   \<and> hex_terrains shortage_example ! 1 = Forest \<and> hex_terrains shortage_example ! 2 = Forest
   \<and> robber_hex shortage_example = 18
   \<and> hex_total_demand shortage_example (hex_vertices standard_topology ! 1)
       + hex_total_demand shortage_example (hex_vertices standard_topology ! 2) = 2
   \<and> bank shortage_example Lumber = 1
   \<and> (\<exists>s'. distribute_resources shortage_example 3 = Some s'
          \<and> resources (players shortage_example ! 0) Lumber = 9
          \<and> resources (players s' ! 0) Lumber = 10
          \<and> bank s' Lumber = 0)"
proof -
  have "filter (\<lambda>hid. hex_numbers shortage_example ! hid = Some 3) [0..<19] = [1, 2]"
    by (simp add: upt_19 shortage_example_def NUMBER_TOKEN_DISTRIBUTION_def)
  moreover have "hex_terrains shortage_example ! 1 = Forest \<and> hex_terrains shortage_example ! 2 = Forest
      \<and> robber_hex shortage_example = 18 \<and> bank shortage_example Lumber = 1
      \<and> resources (players shortage_example ! 0) Lumber = 9"
    by (simp add: shortage_example_def TERRAIN_DISTRIBUTION_def new_player_def empty_resources_def)
  moreover have "hex_total_demand shortage_example (hex_vertices standard_topology ! 1)
       + hex_total_demand shortage_example (hex_vertices standard_topology ! 2) = 2"
    by (simp add: hex_total_demand_def demand_at_def standard_topology_tables std_hex_vertices_def
        shortage_example_def)
  ultimately show ?thesis using shortage_example_roll by blast
qed

subsection \<open>What a legal action guarantees\<close>

lemma in_set_if_single: "a \<in> set (if b then [x] else []) \<longleftrightarrow> b \<and> a = x"
  by (cases b) simp_all

lemma trade_build_play_actions_parts:
  assumes "trade_build_play_actions s = Some acts"
  shows "\<exists>roads settlements cities buy knight road_building year_of_plenty monopoly trades.
      get_valid_road_edges s (current_player s) = Some roads
    \<and> get_valid_settlement_vertices s (current_player s) = Some settlements
    \<and> get_valid_city_vertices s (current_player s) = Some cities
    \<and> can_buy_dev_card s (current_player s) = Some buy
    \<and> filter_e (\<lambda>gr. is_valid_maritime_trade s (current_player s) (fst gr) (snd gr))
                      (List.product RESOURCES RESOURCES) = Some trades
    \<and> acts = map BUILD_ROAD roads
                @ map BUILD_SETTLEMENT settlements
                @ map BUILD_CITY cities
                @ (if buy then [BUY_DEV_CARD] else [])
                @ (if knight then [PLAY_KNIGHT] else [])
                @ (if road_building then [PLAY_ROAD_BUILDING] else [])
                @ (if year_of_plenty then [PLAY_YEAR_OF_PLENTY] else [])
                @ (if monopoly then [PLAY_MONOPOLY] else [])
                @ map (\<lambda>gr. MARITIME_TRADE (fst gr) (snd gr)) trades
                @ [END_TURN]"
  using assms unfolding trade_build_play_actions_def Let_def bind_eq_Some_conv option.inject
  by blast

lemma trade_build_play_actions_set:
  assumes "trade_build_play_actions s = Some acts" and "a \<in> set acts"
  shows "action_phase a = TRADE_BUILD_PLAY"
  using trade_build_play_actions_parts[OF assms(1)] assms(2)
  by (auto simp: in_set_if_single)

lemma year_of_plenty_actions_tag:
  "a \<in> set (year_of_plenty_actions s) \<Longrightarrow> action_phase a = YEAR_OF_PLENTY_PICK"
  by (auto simp: year_of_plenty_actions_def Let_def split: if_splits)

lemma year_of_plenty_actions_bank:
  "PICK_YEAR_OF_PLENTY_RESOURCES r1 r2 \<in> set (year_of_plenty_actions s) \<Longrightarrow>
     (if r1 = r2 then bank s r1 \<ge> 2 else bank s r1 \<ge> 1 \<and> bank s r2 \<ge> 1)"
  by (auto simp: year_of_plenty_actions_def Let_def split: if_splits)

lemma legal_action_phase:
  assumes "get_legal_actions s = Some acts" and "a \<in> set acts"
  shows "phase s = action_phase a"
proof (cases "phase s")
  case PRE_GAME
  then show ?thesis using assms by (simp add: get_legal_actions_def)
next
  case SETUP_PLACE_SETTLEMENT
  then show ?thesis using assms by (auto simp: get_legal_actions_def bind_eq_Some_conv)
next
  case SETUP_PLACE_ROAD
  then show ?thesis using assms by (auto simp: get_legal_actions_def bind_eq_Some_conv)
next
  case ROLL_DICE
  then show ?thesis using assms by (auto simp: get_legal_actions_def)
next
  case DISCARD
  then show ?thesis using assms
    by (auto simp: get_legal_actions_def bind_eq_Some_conv enumerate_discard_def Let_def)
next
  case MOVE_ROBBER
  then show ?thesis using assms by (auto simp: get_legal_actions_def)
next
  case STEAL
  then show ?thesis using assms
    by (auto simp: get_legal_actions_def bind_eq_Some_conv split: if_splits)
next
  case TRADE_BUILD_PLAY
  then show ?thesis using assms trade_build_play_actions_set[of s acts a]
    by (simp add: get_legal_actions_def)
next
  case ROAD_BUILDING_PLACE
  then show ?thesis using assms by (auto simp: get_legal_actions_def bind_eq_Some_conv)
next
  case YEAR_OF_PLENTY_PICK
  then show ?thesis using assms year_of_plenty_actions_tag[of a s]
    by (auto simp: get_legal_actions_def)
next
  case MONOPOLY_PICK
  then show ?thesis using assms by (auto simp: get_legal_actions_def)
next
  case GAME_OVER
  then show ?thesis using assms by (simp add: get_legal_actions_def)
qed

lemma legal_trade_build_play:
  assumes "get_legal_actions s = Some acts" and "a \<in> set acts"
    and "action_phase a = TRADE_BUILD_PLAY"
  shows "trade_build_play_actions s = Some acts"
  using assms legal_action_phase[OF assms(1,2)] by (simp add: get_legal_actions_def)

lemma filter_e_member:
  assumes "filter_e f xs = Some ys" and "y \<in> set ys"
  shows "f y = Some True"
  using assms unfolding filter_e_Some by simp

lemma valid_road_no_check:
  assumes "get_valid_road_edges_no_resource_check s p = Some roads" and "e \<in> set roads"
  shows "e < length (edge_roads s) \<and> edge_roads s ! e = None \<and> p < length (players s)"
proof -
  let ?f = "\<lambda>topo eid.
                 do { r \<leftarrow> nth_e (edge_roads s) eid;
                      if r \<noteq> None then Some False
                      else do { ends \<leftarrow> nth_e (edge_endpoints topo) eid;
                                a1 \<leftarrow> is_vertex_accessible s p (fst ends);
                                if a1 then Some True
                                else is_vertex_accessible s p (snd ends) } }"
  from assms(1) obtain topo :: BoardTopology and pl where pl: "nth_e (players s) p = Some pl"
    and f: "(if remaining_roads pl \<le> 0 then Some []
             else filter_e (?f topo) [0..<edge_count topo]) = Some roads"
    unfolding get_valid_road_edges_no_resource_check_def bind_eq_Some_conv by blast
  have "filter_e (?f topo) [0..<edge_count topo] = Some roads"
    using f assms(2) by (cases "remaining_roads pl \<le> 0") auto
  from filter_e_member[OF this assms(2)] obtain r where r: "nth_e (edge_roads s) e = Some r"
    and t: "(if r \<noteq> None then Some False
             else do { ends \<leftarrow> nth_e (edge_endpoints topo) e;
                                a1 \<leftarrow> is_vertex_accessible s p (fst ends);
                                if a1 then Some True
                                else is_vertex_accessible s p (snd ends) }) = Some True"
    unfolding bind_eq_Some_conv by blast
  have "r = None" using t by (cases r) simp_all
  then show ?thesis using r pl by simp
qed

lemma valid_road:
  assumes "get_valid_road_edges s p = Some roads" and "e \<in> set roads"
  shows "e < length (edge_roads s) \<and> edge_roads s ! e = None \<and> p < length (players s)
         \<and> has_resources (resources (players s ! p)) ROAD_COST"
proof -
  from assms(1) obtain pl where pl: "nth_e (players s) p = Some pl"
    and f: "(if remaining_roads pl \<le> 0 then Some []
             else if \<not> has_resources (resources pl) ROAD_COST then Some []
             else get_valid_road_edges_no_resource_check s p) = Some roads"
    unfolding get_valid_road_edges_def bind_eq_Some_conv by blast
  have h: "has_resources (resources pl) ROAD_COST"
    and g: "get_valid_road_edges_no_resource_check s p = Some roads"
    using f assms(2) by (auto split: if_splits)
  from valid_road_no_check[OF g assms(2)] h pl show ?thesis by auto
qed

lemma is_valid_settlement_vertex_True:
  assumes "is_valid_settlement_vertex s p v = Some True"
  shows "v < length (vertex_buildings s) \<and> vertex_buildings s ! v = None"
proof -
  from assms obtain topo :: BoardTopology and b where b: "nth_e (vertex_buildings s) v = Some b"
    and t: "(if b \<noteq> None then Some False
          else do { adjs \<leftarrow> nth_e (vertex_adjacent_vertices topo) v;
                    near \<leftarrow> any_e (is_occupied s) adjs;
                    if near then Some False
                    else do { es \<leftarrow> nth_e (vertex_adjacent_edges topo) v;
                              connected \<leftarrow> any_e (owns_road s p) es;
                              Some connected } }) = Some True"
    unfolding is_valid_settlement_vertex_def bind_eq_Some_conv by blast
  have "b = None" using t by (cases b) simp_all
  then show ?thesis using b by simp
qed

lemma valid_settlement:
  assumes "get_valid_settlement_vertices s p = Some vs" and "v \<in> set vs"
  shows "v < length (vertex_buildings s) \<and> vertex_buildings s ! v = None \<and> p < length (players s)
         \<and> has_resources (resources (players s ! p)) SETTLEMENT_COST"
proof -
  from assms(1) obtain pl where pl: "nth_e (players s) p = Some pl"
    and f: "(if remaining_settlements pl \<le> 0 then Some []
          else if \<not> has_resources (resources pl) SETTLEMENT_COST then Some []
          else do { topo \<leftarrow> get_topology s;
                    filter_e (is_valid_settlement_vertex s p) [0..<vertex_count topo] }) = Some vs"
    unfolding get_valid_settlement_vertices_def bind_eq_Some_conv by blast
  have h: "has_resources (resources pl) SETTLEMENT_COST"
    and g: "do { topo \<leftarrow> get_topology s;
                    filter_e (is_valid_settlement_vertex s p) [0..<vertex_count topo] } = Some vs"
    using f assms(2) by (auto split: if_splits)
  from g obtain topo :: BoardTopology where "filter_e (is_valid_settlement_vertex s p) [0..<vertex_count topo] = Some vs"
    by (auto simp: bind_eq_Some_conv)
  from is_valid_settlement_vertex_True[OF filter_e_member[OF this assms(2)]] h pl
  show ?thesis by auto
qed

lemma valid_city:
  assumes "get_valid_city_vertices s p = Some vs" and "v \<in> set vs"
  shows "v < length (vertex_buildings s) \<and> vertex_buildings s ! v = Some (Settlement, p)
         \<and> p < length (players s) \<and> has_resources (resources (players s ! p)) CITY_COST"
proof -
  let ?f = "\<lambda>vid. do { b \<leftarrow> nth_e (vertex_buildings s) vid; Some (b = Some (Settlement, p)) }"
  from assms(1) obtain pl where pl: "nth_e (players s) p = Some pl"
    and f: "(if remaining_cities pl \<le> 0 then Some []
          else if \<not> has_resources (resources pl) CITY_COST then Some []
          else do { topo \<leftarrow> get_topology s; filter_e ?f [0..<vertex_count topo] }) = Some vs"
    unfolding get_valid_city_vertices_def bind_eq_Some_conv by blast
  have h: "has_resources (resources pl) CITY_COST"
    and g: "do { topo \<leftarrow> get_topology s; filter_e ?f [0..<vertex_count topo] } = Some vs"
    using f assms(2) by (auto split: if_splits)
  from g obtain topo :: BoardTopology where "filter_e ?f [0..<vertex_count topo] = Some vs"
    by (auto simp: bind_eq_Some_conv)
  from filter_e_member[OF this assms(2)] have "v < length (vertex_buildings s)"
    "vertex_buildings s ! v = Some (Settlement, p)"
    by (auto simp: bind_eq_Some_conv)
  then show ?thesis using h pl by auto
qed

lemma legal_BUILD_ROAD:
  assumes "get_legal_actions s = Some acts" and "BUILD_ROAD e \<in> set acts"
  shows "e < length (edge_roads s) \<and> edge_roads s ! e = None
         \<and> current_player s < length (players s)
         \<and> has_resources (resources (players s ! current_player s)) ROAD_COST"
proof -
  from legal_trade_build_play[OF assms] have "trade_build_play_actions s = Some acts" by simp
  from trade_build_play_actions_parts[OF this] assms(2)
  obtain roads where "get_valid_road_edges s (current_player s) = Some roads" "e \<in> set roads"
    by (auto simp: in_set_if_single)
  then show ?thesis by (rule valid_road)
qed

lemma legal_BUILD_SETTLEMENT:
  assumes "get_legal_actions s = Some acts" and "BUILD_SETTLEMENT v \<in> set acts"
  shows "v < length (vertex_buildings s) \<and> vertex_buildings s ! v = None
         \<and> current_player s < length (players s)
         \<and> has_resources (resources (players s ! current_player s)) SETTLEMENT_COST"
proof -
  from legal_trade_build_play[OF assms] have "trade_build_play_actions s = Some acts" by simp
  from trade_build_play_actions_parts[OF this] assms(2)
  obtain vs where "get_valid_settlement_vertices s (current_player s) = Some vs" "v \<in> set vs"
    by (auto simp: in_set_if_single)
  then show ?thesis by (rule valid_settlement)
qed

lemma legal_BUILD_CITY:
  assumes "get_legal_actions s = Some acts" and "BUILD_CITY v \<in> set acts"
  shows "v < length (vertex_buildings s)
         \<and> vertex_buildings s ! v = Some (Settlement, current_player s)
         \<and> current_player s < length (players s)
         \<and> has_resources (resources (players s ! current_player s)) CITY_COST"
proof -
  from legal_trade_build_play[OF assms] have "trade_build_play_actions s = Some acts" by simp
  from trade_build_play_actions_parts[OF this] assms(2)
  obtain vs where "get_valid_city_vertices s (current_player s) = Some vs" "v \<in> set vs"
    by (auto simp: in_set_if_single)
  then show ?thesis by (rule valid_city)
qed

lemma legal_BUY_DEV_CARD:
  assumes "get_legal_actions s = Some acts" and "BUY_DEV_CARD \<in> set acts"
  shows "current_player s < length (players s) \<and> dev_card_deck s \<noteq> []
         \<and> has_resources (resources (players s ! current_player s)) DEV_CARD_COST"
proof -
  from legal_trade_build_play[OF assms] have "trade_build_play_actions s = Some acts" by simp
  from trade_build_play_actions_parts[OF this] assms(2)
  have "can_buy_dev_card s (current_player s) = Some True"
    by (auto simp: in_set_if_single)
  then show ?thesis by (auto simp: can_buy_dev_card_def bind_eq_Some_conv split: if_splits)
qed

lemma legal_MARITIME_TRADE:
  assumes "get_legal_actions s = Some acts"
  shows "MARITIME_TRADE give receive \<in> set acts \<longleftrightarrow>
           phase s = TRADE_BUILD_PLAY
           \<and> is_valid_maritime_trade s (current_player s) give receive = Some True"
proof (cases "phase s = TRADE_BUILD_PLAY")
  case False
  then show ?thesis using legal_action_phase[OF assms, of "MARITIME_TRADE give receive"] by auto
next
  case True
  then have t: "trade_build_play_actions s = Some acts" using assms
    by (simp add: get_legal_actions_def)
  have r: "(give, receive) \<in> set (List.product RESOURCES RESOURCES)"
    by (cases give; cases receive) (simp_all add: RESOURCES_def)
  from trade_build_play_actions_parts[OF t]
  obtain trades roads settlements cities buy knight road_building year_of_plenty monopoly
    where tr: "filter_e (\<lambda>gr. is_valid_maritime_trade s (current_player s) (fst gr) (snd gr))
                      (List.product RESOURCES RESOURCES) = Some trades"
    and a: "acts = map BUILD_ROAD roads
                @ map BUILD_SETTLEMENT settlements
                @ map BUILD_CITY cities
                @ (if buy then [BUY_DEV_CARD] else [])
                @ (if knight then [PLAY_KNIGHT] else [])
                @ (if road_building then [PLAY_ROAD_BUILDING] else [])
                @ (if year_of_plenty then [PLAY_YEAR_OF_PLENTY] else [])
                @ (if monopoly then [PLAY_MONOPOLY] else [])
                @ map (\<lambda>gr. MARITIME_TRADE (fst gr) (snd gr)) trades
                @ [END_TURN]"
    by blast
  have m: "MARITIME_TRADE give receive \<in> set acts \<longleftrightarrow> (give, receive) \<in> set trades"
    unfolding a by (force simp: in_set_if_single)
  have "(give, receive) \<in> set trades \<longleftrightarrow>
          is_valid_maritime_trade s (current_player s) give receive = Some True"
    using tr r unfolding filter_e_Some by (simp del: set_product)
  then show ?thesis using True m by simp
qed

lemma legal_PICK_YOP:
  assumes "get_legal_actions s = Some acts" and "PICK_YEAR_OF_PLENTY_RESOURCES r1 r2 \<in> set acts"
  shows "if r1 = r2 then bank s r1 \<ge> 2 else bank s r1 \<ge> 1 \<and> bank s r2 \<ge> 1"
proof -
  from legal_action_phase[OF assms] have "phase s = YEAR_OF_PLENTY_PICK" by simp
  then have "PICK_YEAR_OF_PLENTY_RESOURCES r1 r2 \<in> set (year_of_plenty_actions s)"
    using assms by (simp add: get_legal_actions_def)
  from year_of_plenty_actions_bank[OF this] show ?thesis .
qed

lemma legal_DISCARD:
  assumes "get_legal_actions s = Some acts" and "DISCARD_RESOURCES counts \<in> set acts"
  shows "\<exists>pid queue. players_needing_discard s = pid # queue \<and> pid < length (players s)
           \<and> within_hand (resources (players s ! pid)) counts RESOURCES"
proof -
  from legal_action_phase[OF assms] have ph: "phase s = DISCARD" by simp
  with assms(1) obtain pid where pid: "0 < length (players_needing_discard s)"
    "pid = players_needing_discard s ! 0" "pid < length (players s)"
    and acts: "acts = enumerate_discard (resources (players s ! pid))
                        (total_resources (resources (players s ! pid)) div 2)"
    by (auto simp: get_legal_actions_def bind_eq_Some_conv Let_def)
  from assms(2) have "counts \<in> set (recurse (resources (players s ! pid)) RESOURCES
                        (total_resources (resources (players s ! pid)) div 2) [])"
    unfolding acts enumerate_discard_def by auto
  then have "within_hand (resources (players s ! pid)) counts RESOURCES"
    by (auto simp: set_recurse)
  moreover from pid obtain queue where "players_needing_discard s = pid # queue"
    by (cases "players_needing_discard s") auto
  ultimately show ?thesis using pid(3) by blast
qed

lemma legal_PLACE_SETUP_SETTLEMENT:
  assumes "get_legal_actions s = Some acts" and "PLACE_SETUP_SETTLEMENT v \<in> set acts"
  shows "v < length (vertex_buildings s) \<and> vertex_buildings s ! v = None"
proof -
  from legal_action_phase[OF assms] have "phase s = SETUP_PLACE_SETTLEMENT" by simp
  with assms obtain vs where vs: "get_valid_setup_settlement_vertices s = Some vs" "v \<in> set vs"
    by (auto simp: get_legal_actions_def bind_eq_Some_conv)
  let ?f = "\<lambda>topo vid.
             do { b \<leftarrow> nth_e (vertex_buildings s) vid;
                  if b \<noteq> None then Some False
                  else do { adjs \<leftarrow> nth_e (vertex_adjacent_vertices topo) vid;
                            has_adj \<leftarrow> any_e (is_occupied s) adjs;
                            Some (\<not> has_adj) } }"
  from vs(1) obtain topo :: BoardTopology where "filter_e (?f topo) [0..<vertex_count topo] = Some vs"
    unfolding get_valid_setup_settlement_vertices_def bind_eq_Some_conv by blast
  from filter_e_member[OF this vs(2)] obtain b where b: "nth_e (vertex_buildings s) v = Some b"
    and t: "(if b \<noteq> None then Some False
                  else do { adjs \<leftarrow> nth_e (vertex_adjacent_vertices topo) v;
                            has_adj \<leftarrow> any_e (is_occupied s) adjs;
                            Some (\<not> has_adj) }) = Some True"
    unfolding bind_eq_Some_conv by blast
  have "b = None" using t by (cases b) simp_all
  then show ?thesis using b by simp
qed

lemma legal_PLACE_SETUP_ROAD:
  assumes "get_legal_actions s = Some acts" and "PLACE_SETUP_ROAD e \<in> set acts"
  shows "e < length (edge_roads s) \<and> edge_roads s ! e = None"
proof -
  from legal_action_phase[OF assms] have "phase s = SETUP_PLACE_ROAD" by simp
  with assms obtain es where es: "get_valid_setup_road_edges s = Some es" "e \<in> set es"
    by (auto simp: get_legal_actions_def bind_eq_Some_conv)
  let ?f = "\<lambda>eid. do { r \<leftarrow> nth_e (edge_roads s) eid; Some (r = None) }"
  have "\<exists>cand. filter_e ?f cand = Some es"
  proof (cases "last_placed_vertex s")
    case None
    then show ?thesis using es by (simp add: get_valid_setup_road_edges_def)
  next
    case (Some v)
    then show ?thesis using es(1)
      by (auto simp: get_valid_setup_road_edges_def bind_eq_Some_conv)
  qed
  then obtain cand where "filter_e ?f cand = Some es" by blast
  from filter_e_member[OF this es(2)] show ?thesis by (auto simp: bind_eq_Some_conv)
qed

lemma legal_PLACE_ROAD_BUILDING_ROAD:
  assumes "get_legal_actions s = Some acts" and "PLACE_ROAD_BUILDING_ROAD e \<in> set acts"
  shows "e < length (edge_roads s) \<and> edge_roads s ! e = None"
proof -
  from legal_action_phase[OF assms] have "phase s = ROAD_BUILDING_PLACE" by simp
  with assms obtain es where "get_valid_road_edges_no_resource_check s (current_player s) = Some es"
    "e \<in> set es"
    by (auto simp: get_legal_actions_def bind_eq_Some_conv)
  from valid_road_no_check[OF this] show ?thesis by simp
qed

subsection \<open>The accounts are kept by every legal action\<close>

lemma game_inv_frame:
  assumes "game_inv s" and "conserved (hands s') (bank s')"
    and "length (players s') = length (players s)"
    and "player_count s' = player_count s" and "topology s' = topology s"
    and "phase s' \<noteq> SETUP_PLACE_SETTLEMENT" and "phase s' \<noteq> SETUP_PLACE_ROAD"
    and "current_player s' < player_count s"
  shows "game_inv s'"
  using assms unfolding game_inv_def by simp

lemma game_inv_current: "game_inv s \<Longrightarrow> current_player s < length (players s)"
  by (simp add: game_inv_def)

lemma game_inv_current': "game_inv s \<Longrightarrow> current_player s < player_count s"
  by (simp add: game_inv_def)

lemma game_inv_conserved: "game_inv s \<Longrightarrow> conserved (hands s) (bank s)"
  by (simp add: game_inv_def)

lemma hand_nonneg:
  assumes "game_inv s" and "i < length (players s)"
  shows "0 \<le> resources (players s ! i) r"
proof -
  have "resources (players s ! i) \<in> set (hands s)"
    using assms(2) by (simp add: hands_def)
  then show ?thesis using assms(1) by (auto simp: game_inv_def conserved_def)
qed

lemma bank_nonneg: "game_inv s \<Longrightarrow> 0 \<le> bank s r"
  by (simp add: game_inv_def conserved_def)

lemma conserved_hands_exchange:
  assumes "conserved (hands s) (bank s)" and "i < length (players s)"
    and "\<And>r. c r \<le> resources (players s ! i) r" and "\<And>r. 0 \<le> bank s r + c r"
    and "resources p' = (\<lambda>r. resources (players s ! i) r - c r)"
    and "\<And>r. bk' r = bank s r + c r"
  shows "conserved (map resources ((players s)[i := p'])) bk'"
proof -
  have "conserved ((hands s)[i := (\<lambda>r. (hands s ! i) r - c r)]) (\<lambda>r. bank s r + c r)"
    using assms(1-4) by (intro conserved_exchange) (simp_all add: hands_def)
  moreover have "bk' = (\<lambda>r. bank s r + c r)" using assms(6) by (simp add: fun_eq_iff)
  ultimately show ?thesis using assms(2,5) by (simp add: hands_def map_update)
qed

lemma conserved_hands_same:
  assumes "conserved (hands s) (bank s)" and "map resources ps = map resources (players s)"
  shows "conserved (map resources ps) (bank s)"
  using assms by (simp add: hands_def)

lemma cost_nonneg:
  "0 \<le> ROAD_COST r" "0 \<le> SETTLEMENT_COST r" "0 \<le> CITY_COST r" "0 \<le> DEV_CARD_COST r"
  by (cases r; simp)+

lemma conserved_pay:
  assumes "conserved (hands s) (bank s)" and "i < length (players s)"
    and "has_resources (resources (players s ! i)) cost" and "\<And>r. 0 \<le> cost r"
    and "resources p' = (\<lambda>r. resources (players s ! i) r - cost r)"
  shows "conserved (map resources ((players s)[i := p'])) (\<lambda>r. bank s r + cost r)"
proof (rule conserved_hands_exchange[OF assms(1,2) _ _ assms(5)])
  show "cost r \<le> resources (players s ! i) r" for r
    using assms(3) by (simp add: has_resources_iff)
  show "0 \<le> bank s r + cost r" for r
    using assms(1) assms(4)[of r] by (simp add: conserved_def)
qed simp

lemma BUILD_ROAD_inv:
  assumes "game_inv s" and "get_legal_actions s = Some acts" and "BUILD_ROAD e \<in> set acts"
    and "apply_action g (BUILD_ROAD e) s = Some s'"
  shows "game_inv s'"
proof -
  note l = legal_BUILD_ROAD[OF assms(2,3)]
  from legal_action_phase[OF assms(2,3)] have ph: "phase s = TRADE_BUILD_PLAY" by simp
  let ?p = "(players s ! current_player s)
               \<lparr>remaining_roads := remaining_roads (players s ! current_player s) - 1,
                resources := (\<lambda>r. resources (players s ! current_player s) r - ROAD_COST r)\<rparr>"
  let ?s1 = "s\<lparr>edge_roads := (edge_roads s)[e := Some (current_player s)],
            players := (players s)[current_player s := ?p],
            bank := (\<lambda>r. bank s r + ROAD_COST r)\<rparr>"
  from assms(4) l have "update_longest_road ?s1 = Some s'"
    by (simp add: apply_action_def apply_build_road_eq)
  from update_longest_road_frame[OF this] obtain lp ll where
    s': "s' = ?s1\<lparr>longest_road_player := lp, longest_road_length := ll\<rparr>" by blast
  have "conserved (map resources ((players s)[current_player s := ?p])) (\<lambda>r. bank s r + ROAD_COST r)"
    using l by (intro conserved_pay game_inv_conserved assms(1) cost_nonneg) simp_all
  then show ?thesis using assms(1) ph
    by (intro game_inv_frame[OF assms(1)]) (simp_all add: s' hands_def game_inv_current')
qed

lemma BUILD_SETTLEMENT_inv:
  assumes "game_inv s" and "get_legal_actions s = Some acts" and "BUILD_SETTLEMENT v \<in> set acts"
    and "apply_action g (BUILD_SETTLEMENT v) s = Some s'"
  shows "game_inv s'"
proof -
  note l = legal_BUILD_SETTLEMENT[OF assms(2,3)]
  from legal_action_phase[OF assms(2,3)] have ph: "phase s = TRADE_BUILD_PLAY" by simp
  let ?p = "(players s ! current_player s)
               \<lparr>remaining_settlements := remaining_settlements (players s ! current_player s) - 1,
                resources := (\<lambda>r. resources (players s ! current_player s) r - SETTLEMENT_COST r)\<rparr>"
  let ?s1 = "s\<lparr>vertex_buildings := (vertex_buildings s)[v := Some (Settlement, current_player s)],
            players := (players s)[current_player s := ?p],
            bank := (\<lambda>r. bank s r + SETTLEMENT_COST r)\<rparr>"
  from assms(4) l have "update_longest_road ?s1 = Some s'"
    by (simp add: apply_action_def apply_build_settlement_eq)
  from update_longest_road_frame[OF this] obtain lp ll where
    s': "s' = ?s1\<lparr>longest_road_player := lp, longest_road_length := ll\<rparr>" by blast
  have "conserved (map resources ((players s)[current_player s := ?p])) (\<lambda>r. bank s r + SETTLEMENT_COST r)"
    using l by (intro conserved_pay game_inv_conserved assms(1) cost_nonneg) simp_all
  then show ?thesis using assms(1) ph
    by (intro game_inv_frame[OF assms(1)]) (simp_all add: s' hands_def game_inv_current')
qed

lemma BUILD_CITY_inv:
  assumes "game_inv s" and "get_legal_actions s = Some acts" and "BUILD_CITY v \<in> set acts"
    and "apply_action g (BUILD_CITY v) s = Some s'"
  shows "game_inv s'"
proof -
  note l = legal_BUILD_CITY[OF assms(2,3)]
  from legal_action_phase[OF assms(2,3)] have ph: "phase s = TRADE_BUILD_PLAY" by simp
  let ?p = "(players s ! current_player s)
               \<lparr>remaining_cities := remaining_cities (players s ! current_player s) - 1,
                remaining_settlements := remaining_settlements (players s ! current_player s) + 1,
                resources := (\<lambda>r. resources (players s ! current_player s) r - CITY_COST r)\<rparr>"
  from assms(4) l have
    s': "s' = s\<lparr>vertex_buildings := (vertex_buildings s)[v := Some (City, current_player s)],
            players := (players s)[current_player s := ?p],
            bank := (\<lambda>r. bank s r + CITY_COST r)\<rparr>"
    by (simp add: apply_action_def apply_build_city_eq)
  have "conserved (map resources ((players s)[current_player s := ?p])) (\<lambda>r. bank s r + CITY_COST r)"
    using l by (intro conserved_pay game_inv_conserved assms(1) cost_nonneg) simp_all
  then show ?thesis using assms(1) ph
    by (intro game_inv_frame[OF assms(1)]) (simp_all add: s' hands_def game_inv_current')
qed

lemma BUY_DEV_CARD_inv:
  assumes "game_inv s" and "get_legal_actions s = Some acts" and "BUY_DEV_CARD \<in> set acts"
    and "apply_action g BUY_DEV_CARD s = Some s'"
  shows "game_inv s'"
proof -
  note l = legal_BUY_DEV_CARD[OF assms(2,3)]
  from legal_action_phase[OF assms(2,3)] have ph: "phase s = TRADE_BUILD_PLAY" by simp
  let ?p = "(players s ! current_player s)
               \<lparr>resources := (\<lambda>r. resources (players s ! current_player s) r - DEV_CARD_COST r),
                new_dev_cards := new_dev_cards (players s ! current_player s) @ [last (dev_card_deck s)]\<rparr>"
  from assms(4) l have
    s': "s' = s\<lparr>dev_card_deck := butlast (dev_card_deck s),
            players := (players s)[current_player s := ?p],
            bank := (\<lambda>r. bank s r + DEV_CARD_COST r)\<rparr>"
    by (simp add: apply_action_def apply_buy_dev_card_eq)
  have "conserved (map resources ((players s)[current_player s := ?p])) (\<lambda>r. bank s r + DEV_CARD_COST r)"
    using l by (intro conserved_pay game_inv_conserved assms(1) cost_nonneg) simp_all
  then show ?thesis using assms(1) ph
    by (intro game_inv_frame[OF assms(1)]) (simp_all add: s' hands_def game_inv_current')
qed

lemma discard_dict_within:
  assumes "discard_dict counts = Some res" and "within_hand h counts RESOURCES"
  shows "0 \<le> res r \<and> res r \<le> h r"
proof -
  from assms(2) obtain a b c d e where c: "counts = [a, b, c, d, e]"
    and b: "0 \<le> a" "a \<le> h Lumber" "0 \<le> b" "b \<le> h Brick" "0 \<le> c" "c \<le> h Wool"
      "0 \<le> d" "d \<le> h Grain" "0 \<le> e" "e \<le> h Ore"
    by (auto simp: within_hand_def RESOURCES_def list_all2_Cons2)
  have "[0..<5] = [0, 1, 2, 3, 4::nat]" by (simp add: upt_rec)
  then have "res = (\<lambda>r. [a, b, c, d, e] ! resource_index r)"
    using assms(1) by (simp add: discard_dict_def c nth_e_def)
  then show ?thesis using b by (cases r) simp_all
qed

lemma DISCARD_inv:
  assumes "game_inv s" and "get_legal_actions s = Some acts" and "DISCARD_RESOURCES counts \<in> set acts"
    and "apply_action g (DISCARD_RESOURCES counts) s = Some s'"
  shows "game_inv s'"
proof -
  from legal_DISCARD[OF assms(2,3)] obtain pid queue where
    q: "players_needing_discard s = pid # queue" and pid: "pid < length (players s)"
    and w: "within_hand (resources (players s ! pid)) counts RESOURCES" by blast
  from legal_action_phase[OF assms(2,3)] have ph: "phase s = DISCARD" by simp
  from assms(4) obtain res where res: "discard_dict counts = Some res"
    and a: "apply_discard res s = Some s'"
    by (auto simp: apply_action_def bind_eq_Some_conv)
  let ?p = "(players s ! pid)\<lparr>resources := (\<lambda>r. resources (players s ! pid) r - res r)\<rparr>"
  from a q pid have
    s': "s' = s\<lparr>players := (players s)[pid := ?p],
               bank := (\<lambda>r. bank s r + res r),
               players_needing_discard := queue,
               phase := (if queue = [] then MOVE_ROBBER else phase s)\<rparr>"
    by (simp add: apply_discard_eq)
  note d = discard_dict_within[OF res w]
  have "conserved (map resources ((players s)[pid := ?p])) (\<lambda>r. bank s r + res r)"
    using pid d
    by (intro conserved_pay game_inv_conserved assms(1)) (simp_all add: has_resources_iff)
  then show ?thesis using assms(1) ph
    by (intro game_inv_frame[OF assms(1)]) (simp_all add: s' hands_def game_inv_current')
qed

lemma PICK_YEAR_OF_PLENTY_inv:
  assumes "game_inv s" and "get_legal_actions s = Some acts"
    and "PICK_YEAR_OF_PLENTY_RESOURCES r1 r2 \<in> set acts"
    and "apply_action g (PICK_YEAR_OF_PLENTY_RESOURCES r1 r2) s = Some s'"
  shows "game_inv s'"
proof -
  note l = legal_PICK_YOP[OF assms(2,3)]
  let ?c = "\<lambda>r. - (if r = r1 then 1 else 0) - (if r = r2 then 1 else (0::int))"
  let ?p = "add_resource r2 1 (add_resource r1 1 (players s ! current_player s))"
  from assms(4) have cp: "current_player s < length (players s)"
    and s': "s' = s\<lparr>players := (players s)[current_player s := ?p],
            bank := (\<lambda>r. bank s r - (if r = r1 then 1 else 0) - (if r = r2 then 1 else 0)),
            phase := TRADE_BUILD_PLAY\<rparr>"
    by (simp_all add: apply_action_def apply_pick_yop_eq split: if_splits)
  have "conserved (map resources ((players s)[current_player s := ?p]))
          (\<lambda>r. bank s r - (if r = r1 then 1 else 0) - (if r = r2 then 1 else 0))"
  proof (rule conserved_hands_exchange[OF game_inv_conserved[OF assms(1)] cp, where c = ?c])
    show "?c r \<le> resources (players s ! current_player s) r" for r
      using hand_nonneg[OF assms(1) cp, of r] by auto
    show "0 \<le> bank s r + ?c r" for r
      using l bank_nonneg[OF assms(1), of r] by (auto split: if_splits)
    show "resources ?p = (\<lambda>r. resources (players s ! current_player s) r - ?c r)"
      by (auto simp: add_resource_def fun_eq_iff)
  qed simp
  then show ?thesis using assms(1)
    by (intro game_inv_frame[OF assms(1)]) (simp_all add: s' hands_def game_inv_current')
qed

lemma get_trade_ratio_fold:
  fixes pv :: "nat list" and r :: resource
  defines "g \<equiv> (\<lambda>ratio h.
        (let has_access = (fst (vertices h) \<in> set pv \<or> snd (vertices h) \<in> set pv)
         in if \<not> has_access then ratio
            else if kind h = Generic then min ratio 3
            else if kind h = Specific r then min ratio 2
            else ratio))"
  assumes "a \<le> (4::int)"
  shows "foldl g a hs = min a (best_trade_ratio hs pv r)"
  using assms(2)
proof (induction hs arbitrary: a)
  case Nil
  then show ?case by (simp add: best_trade_ratio_def)
next
  case (Cons h hs)
  define k :: int where "k = (if harbor_access pv h then (if kind h = Generic then 3
                                           else if kind h = Specific r then 2 else 4) else 4)"
  have best: "best_trade_ratio (h # hs) pv r = min k (best_trade_ratio hs pv r)"
    by (auto simp: best_trade_ratio_def k_def)
  have step: "g a h = min a k"
    using Cons.prems by (simp add: g_def k_def harbor_access_def Let_def)
  then have "g a h \<le> 4" using Cons.prems by simp
  from Cons.IH[OF this] show ?case by (simp add: step best min.assoc)
qed

lemma get_trade_ratio_best: "get_trade_ratio hs pv r = best_trade_ratio hs pv r"
  unfolding get_trade_ratio_def
  by (subst get_trade_ratio_fold) (simp_all add: best_trade_ratio_def)

lemma best_trade_ratio_bounds: "2 \<le> best_trade_ratio hs pv r" "best_trade_ratio hs pv r \<le> 4"
  by (simp_all add: best_trade_ratio_def)

lemma get_player_vertices_Some:
  assumes "get_player_vertices s p = Some pv" and "topology s = Some topo"
  shows "pv = player_vertices s topo p"
proof -
  let ?f = "\<lambda>vid. do { b \<leftarrow> nth_e (vertex_buildings s) vid;
                                Some (case b of None \<Rightarrow> False | Some bo \<Rightarrow> snd bo = p) }"
  from assms have f: "filter_e ?f [0..<vertex_count topo] = Some pv"
    by (simp add: get_player_vertices_def)
  then have d: "\<forall>x\<in>set [0..<vertex_count topo]. ?f x \<noteq> None"
    and pv: "pv = filter (\<lambda>x. ?f x = Some True) [0..<vertex_count topo]"
    unfolding filter_e_Some by blast+
  have "?f x = Some True \<longleftrightarrow> owns_vertex s p x" if "x \<in> set [0..<vertex_count topo]" for x
    using d that by (auto simp: nth_e_def owns_vertex_def bind_eq_Some_conv split: if_splits)
  then show ?thesis unfolding pv player_vertices_def by (intro filter_cong) simp_all
qed

lemma get_player_trade_ratio_Some:
  assumes "get_player_trade_ratio s p r = Some ratio" and "topology s = Some topo"
  shows "ratio = best_trade_ratio (harbors s) (player_vertices s topo p) r"
  using assms get_player_vertices_Some[OF _ assms(2)]
  by (auto simp: get_player_trade_ratio_def bind_eq_Some_conv get_trade_ratio_best)

lemma get_player_trade_ratio_bounds:
  assumes "get_player_trade_ratio s p r = Some ratio"
  shows "2 \<le> ratio \<and> ratio \<le> 4"
  using assms
  by (auto simp: get_player_trade_ratio_def bind_eq_Some_conv get_trade_ratio_best
      best_trade_ratio_bounds)

lemma is_valid_maritime_trade_True:
  "is_valid_maritime_trade s p give receive = Some True \<longleftrightarrow>
     give \<noteq> receive \<and> p < length (players s)
     \<and> (\<exists>ratio. get_player_trade_ratio s p give = Some ratio
                \<and> ratio \<le> resources (players s ! p) give)
     \<and> 1 \<le> bank s receive"
  by (cases "get_player_trade_ratio s p give")
    (auto simp: is_valid_maritime_trade_def nth_e_def split: if_splits)

lemma MARITIME_TRADE_inv:
  assumes "game_inv s" and "get_legal_actions s = Some acts"
    and "MARITIME_TRADE give receive \<in> set acts"
    and "apply_action g (MARITIME_TRADE give receive) s = Some s'"
  shows "game_inv s'"
proof -
  from legal_MARITIME_TRADE[OF assms(2)] assms(3)
  have ph: "phase s = TRADE_BUILD_PLAY"
    and v: "is_valid_maritime_trade s (current_player s) give receive = Some True" by simp_all
  from v obtain ratio where ne: "give \<noteq> receive" and cp: "current_player s < length (players s)"
    and ratio: "get_player_trade_ratio s (current_player s) give = Some ratio"
    and enough: "ratio \<le> resources (players s ! current_player s) give"
    and bk: "1 \<le> bank s receive"
    unfolding is_valid_maritime_trade_True by blast
  note b = get_player_trade_ratio_bounds[OF ratio]
  let ?c = "\<lambda>r. (if r = give then ratio else 0) - (if r = receive then 1 else (0::int))"
  let ?p = "add_resource receive 1 (add_resource give (- ratio) (players s ! current_player s))"
  from assms(4) ratio cp have
    s': "s' = s\<lparr>players := (players s)[current_player s := ?p],
               bank := (\<lambda>r. bank s r + (if r = give then ratio else 0) - (if r = receive then 1 else 0))\<rparr>"
    by (simp add: apply_action_def apply_maritime_trade_eq)
  have "conserved (map resources ((players s)[current_player s := ?p]))
          (\<lambda>r. bank s r + (if r = give then ratio else 0) - (if r = receive then 1 else 0))"
  proof (rule conserved_hands_exchange[OF game_inv_conserved[OF assms(1)] cp, where c = ?c])
    show "?c r \<le> resources (players s ! current_player s) r" for r
      using hand_nonneg[OF assms(1) cp, of r] enough ne by auto
    show "0 \<le> bank s r + ?c r" for r
      using bk b bank_nonneg[OF assms(1), of r] ne by auto
    show "resources ?p = (\<lambda>r. resources (players s ! current_player s) r - ?c r)"
      using ne by (auto simp: add_resource_def fun_eq_iff)
  qed simp
  then show ?thesis using assms(1) ph
    by (intro game_inv_frame[OF assms(1)]) (simp_all add: s' hands_def game_inv_current')
qed

lemma unchanged_inv':
  assumes "game_inv s" and "map resources (players s') = map resources (players s)"
    and "bank s' = bank s"
    and "player_count s' = player_count s" and "topology s' = topology s"
    and "phase s' \<noteq> SETUP_PLACE_SETTLEMENT" and "phase s' \<noteq> SETUP_PLACE_ROAD"
    and "current_player s' < player_count s"
  shows "game_inv s'"
proof (rule game_inv_frame[OF assms(1) _ _ assms(4-8)])
  show "conserved (hands s') (bank s')"
    using assms(1-3) by (simp add: game_inv_def hands_def)
  show "length (players s') = length (players s)"
    using arg_cong[OF assms(2), of length] by simp
qed

lemma unchanged_inv:
  assumes "game_inv s" and "map resources (players s') = map resources (players s)"
    and "bank s' = bank s"
    and "player_count s' = player_count s" and "topology s' = topology s"
    and "phase s' \<noteq> SETUP_PLACE_SETTLEMENT" and "phase s' \<noteq> SETUP_PLACE_ROAD"
    and "current_player s' = current_player s"
  shows "game_inv s'"
  using assms(8) game_inv_current'[OF assms(1)]
  by (intro unchanged_inv'[OF assms(1-7)]) simp

lemma MOVE_ROBBER_inv:
  assumes "game_inv s" and "apply_action g (MOVE_ROBBER_action h) s = Some s'"
  shows "game_inv s'"
proof -
  from assms(2) have "apply_move_robber h s = Some s'" by (simp add: apply_action_def)
  from apply_move_robber_frame[OF this] obtain ph where
    "s' = s\<lparr>robber_hex := h, phase := ph\<rparr>" "ph = STEAL \<or> ph = TRADE_BUILD_PLAY" by blast
  then show ?thesis by (intro unchanged_inv[OF assms(1)]) auto
qed

lemma PLAY_KNIGHT_inv:
  assumes "game_inv s" and "apply_action g PLAY_KNIGHT s = Some s'"
  shows "game_inv s'"
proof -
  from assms(2) have "apply_play_knight s = Some s'" by (simp add: apply_action_def)
  from apply_play_knight_frame[OF this] obtain ps lp ll where
    "s' = s\<lparr>players := ps, largest_army_player := lp, largest_army_size := ll,
                              phase := MOVE_ROBBER\<rparr>"
    "map resources ps = map resources (players s)" by blast
  then show ?thesis by (intro unchanged_inv[OF assms(1)]) auto
qed

lemma PLAY_ROAD_BUILDING_inv:
  assumes "game_inv s" and "get_legal_actions s = Some acts" and "PLAY_ROAD_BUILDING \<in> set acts"
    and "apply_action g PLAY_ROAD_BUILDING s = Some s'"
  shows "game_inv s'"
proof -
  from legal_action_phase[OF assms(2,3)] have ph: "phase s = TRADE_BUILD_PLAY" by simp
  from assms(4) have a: "apply_play_road_building s = Some s'" by (simp add: apply_action_def)
  then have cp: "current_player s < length (players s)"
    by (simp add: apply_play_road_building_eq split: if_splits)
  show ?thesis using a cp ph
    by (intro unchanged_inv[OF assms(1)])
      (auto simp: apply_play_road_building_eq Let_def map_update map_update_same split: if_splits)
qed

lemma PLACE_ROAD_BUILDING_ROAD_inv:
  assumes "game_inv s" and "get_legal_actions s = Some acts"
    and "PLACE_ROAD_BUILDING_ROAD e \<in> set acts"
    and "apply_action g (PLACE_ROAD_BUILDING_ROAD e) s = Some s'"
  shows "game_inv s'"
proof -
  from legal_action_phase[OF assms(2,3)] have ph: "phase s = ROAD_BUILDING_PLACE" by simp
  from assms(4) have "apply_place_road_building_road e s = Some s'" by (simp add: apply_action_def)
  from apply_place_road_building_road_frame[OF this] obtain ps ph' rb lp ll where
    "s' = s\<lparr>edge_roads := (edge_roads s)[e := Some (current_player s)], players := ps,
                  road_building_roads_left := rb, phase := ph',
                  longest_road_player := lp, longest_road_length := ll\<rparr>"
    "ph' = phase s \<or> ph' = TRADE_BUILD_PLAY"
    "map resources ps = map resources (players s)" by blast
  then show ?thesis using ph by (intro unchanged_inv[OF assms(1)]) auto
qed

lemma PLAY_YEAR_OF_PLENTY_inv:
  assumes "game_inv s" and "apply_action g PLAY_YEAR_OF_PLENTY s = Some s'"
  shows "game_inv s'"
  using assms(2)
  by (intro unchanged_inv[OF assms(1)])
    (auto simp: apply_action_def apply_play_year_of_plenty_eq map_update map_update_same
      split: if_splits)

lemma PLAY_MONOPOLY_inv:
  assumes "game_inv s" and "apply_action g PLAY_MONOPOLY s = Some s'"
  shows "game_inv s'"
  using assms(2)
  by (intro unchanged_inv[OF assms(1)])
    (auto simp: apply_action_def apply_play_monopoly_eq map_update map_update_same
      split: if_splits)

lemma END_TURN_inv:
  assumes "game_inv s" and "get_legal_actions s = Some acts" and "END_TURN \<in> set acts"
    and "apply_action g END_TURN s = Some s'"
  shows "game_inv s'"
proof -
  from legal_action_phase[OF assms(2,3)] have ph: "phase s = TRADE_BUILD_PLAY" by simp
  from assms(4) have a: "apply_end_turn s = Some s'" by (simp add: apply_action_def)
  show ?thesis using a ph game_inv_current'[OF assms(1)]
    by (intro unchanged_inv'[OF assms(1)])
      (auto simp: apply_end_turn_eq Let_def map_update map_update_same
        split: if_splits option.splits)
qed

lemma conserved_hands_move:
  assumes "conserved (hands s) (bank s)" and "i < length (players s)" and "j < length (players s)"
    and "0 \<le> n" and "n \<le> resources (players s ! i) r"
  defines "ps1 \<equiv> (players s)[i := add_resource r (- n) (players s ! i)]"
  shows "conserved (map resources (ps1[j := add_resource r n (ps1 ! j)])) (bank s)"
proof -
  define hs1 where "hs1 = (hands s)[i := (hands s ! i)(r := (hands s ! i) r - n)]"
  have "conserved (hs1[j := (hs1 ! j)(r := (hs1 ! j) r + n)]) (bank s)"
    unfolding hs1_def using assms(1-5) by (intro conserved_move) (simp_all add: hands_def)
  moreover have h1: "map resources ps1 = hs1"
    using assms(2) by (simp add: ps1_def hs1_def hands_def map_update add_resource_def)
  moreover have "resources (ps1 ! j) = hs1 ! j"
    using assms(3) arg_cong[OF h1, of "\<lambda>l. l ! j"] by (simp add: ps1_def)
  ultimately show ?thesis by (simp add: map_update add_resource_def)
qed

lemma apply_steal_cases:
  assumes "apply_steal g victim s = Some s'"
  shows "s' = s\<lparr>phase := TRADE_BUILD_PLAY\<rparr>
       \<or> (\<exists>v stolen. victim = Some v \<and> v < length (players s)
             \<and> current_player s < length (players s)
             \<and> 1 \<le> resources (players s ! v) stolen
             \<and> s' = s\<lparr>players := ((players s)[v := add_resource stolen (- 1) (players s ! v)])
                         [current_player s := add_resource stolen 1
                            (((players s)[v := add_resource stolen (- 1) (players s ! v)])
                               ! current_player s)],
                       phase := TRADE_BUILD_PLAY\<rparr>)"
proof (cases victim)
  case None
  then show ?thesis using assms by (simp add: apply_steal_def)
next
  case (Some v)
  define available where
    "available = concat (map (\<lambda>r. replicate (nat (resources (players s ! v) r)) r) RESOURCES)"
  from assms Some have v: "v < length (players s)"
    by (auto simp: apply_steal_def bind_eq_Some_conv nth_e_def split: if_splits)
  then have n: "nth_e (players s) v = Some (players s ! v)" by (simp add: nth_e_def)
  have body: "(if available = [] then Some (s\<lparr>phase := TRADE_BUILD_PLAY\<rparr>)
               else
                 do { idx \<leftarrow> randint (draw1 g) 0 (int (length available));
                      stolen \<leftarrow> nth_e available (nat idx);
                      s1 \<leftarrow> update_player v (add_resource stolen (- 1)) s;
                      s2 \<leftarrow> update_player (current_player s1) (add_resource stolen 1) s1;
                      Some (s2\<lparr>phase := TRADE_BUILD_PLAY\<rparr>) }) = Some s'"
    using assms unfolding apply_steal_def Some option.case n Option.bind.simps Let_def available_def[symmetric]
    by simp
  show ?thesis
  proof (cases "available = []")
    case True
    then show ?thesis using body by simp
  next
    case False
    with body obtain idx stolen s1 s2 where
      st: "nth_e available (nat idx) = Some stolen"
      and s1: "update_player v (add_resource stolen (- 1)) s = Some s1"
      and s2: "update_player (current_player s1) (add_resource stolen 1) s1 = Some s2"
      and s': "s' = s2\<lparr>phase := TRADE_BUILD_PLAY\<rparr>"
      by (auto simp: bind_eq_Some_conv)
    from st have "stolen \<in> set available"
      by (auto simp: nth_e_def split: if_splits)
    then have one: "1 \<le> resources (players s ! v) stolen" by (auto simp: available_def)
    from s1 have e1: "s1 = s\<lparr>players := (players s)[v := add_resource stolen (- 1) (players s ! v)]\<rparr>"
      by (simp add: update_player_eq split: if_splits)
    from s2 have cp: "current_player s < length (players s)"
      and e2: "s2 = s1\<lparr>players := (players s1)[current_player s := add_resource stolen 1
                            (players s1 ! current_player s)]\<rparr>"
      by (simp_all add: update_player_eq e1 split: if_splits)
    show ?thesis
      apply (rule disjI2, rule exI[of _ v], rule exI[of _ stolen])
      using Some v cp one by (simp add: s' e2 e1)
  qed
qed

lemma STEAL_inv:
  assumes "game_inv s" and "get_legal_actions s = Some acts" and "STEAL_RESOURCE victim \<in> set acts"
    and "apply_action g (STEAL_RESOURCE victim) s = Some s'"
  shows "game_inv s'"
proof -
  from assms(4) have "apply_steal g victim s = Some s'" by (simp add: apply_action_def)
  from apply_steal_cases[OF this] show ?thesis
  proof (elim disjE exE conjE)
    assume "s' = s\<lparr>phase := TRADE_BUILD_PLAY\<rparr>"
    then show ?thesis by (intro unchanged_inv[OF assms(1)]) simp_all
  next
    fix v stolen
    let ?ps1 = "(players s)[v := add_resource stolen (- 1) (players s ! v)]"
    assume v: "v < length (players s)" and cp: "current_player s < length (players s)"
      and one: "1 \<le> resources (players s ! v) stolen"
      and s': "s' = s\<lparr>players := ?ps1[current_player s := add_resource stolen 1
                            (?ps1 ! current_player s)],
                       phase := TRADE_BUILD_PLAY\<rparr>"
    have "conserved (map resources (?ps1[current_player s := add_resource stolen 1
                            (?ps1 ! current_player s)])) (bank s)"
      using v cp one by (intro conserved_hands_move game_inv_conserved assms(1)) simp_all
    then show ?thesis
      by (intro game_inv_frame[OF assms(1)]) (simp_all add: s' hands_def game_inv_current'[OF assms(1)])
  qed
qed

lemma hex_claims_nonneg: "0 \<le> hex_claims s vids p"
  unfolding hex_claims_def
  by (rule sum_list_nonneg) (auto simp: claim_at_def split: option.splits)

lemma pay_demand_conserved:
  assumes f: "fold_e (pay_demand r) d s = Some s'" and c: "conserved (hands s) (bank s)"
    and le: "sum_list (map snd d) \<le> bank s r" and nn: "\<And>i. 0 \<le> dict_total d i"
  shows "conserved (hands s') (bank s') \<and> length (players s') = length (players s)"
proof
  from pay_demand_fold[OF f] have len: "length (players s') = length (players s)"
    and pt: "\<And>i. i < length (players s) \<Longrightarrow>
               players s' ! i = add_resource r (dict_total d i) (players s ! i)"
    and bk: "\<And>x. bank s' x = bank s x - (if x = r then sum_list (map snd d) else 0)"
    and keys: "\<forall>kv\<in>set d. fst kv < length (players s)"
    by blast+
  show "length (players s') = length (players s)" by (rule len)
  show "conserved (hands s') (bank s')"
    unfolding conserved_def
  proof (intro allI conjI ballI)
    fix x
    from c have b0: "0 \<le> bank s x" and h0: "\<forall>h\<in>set (hands s). 0 \<le> h x"
      and tot: "held (hands s) x + bank s x = BANK_PER_RESOURCE"
      by (simp_all add: conserved_def)
    show "0 \<le> bank s' x" using b0 le by (simp add: bk)
    have px: "(hands s' ! i) x = (hands s ! i) x + (if x = r then dict_total d i else 0)"
      if "i < length (hands s)" for i
      using that len pt[of i] by (simp add: hands_def add_resource_def)
    {
      fix h assume "h \<in> set (hands s')"
      then obtain i where i: "i < length (hands s')" "h = hands s' ! i"
        by (auto simp: in_set_conv_nth)
      then have il: "i < length (hands s)" using len by (simp add: hands_def)
      then have "0 \<le> (hands s ! i) x" using h0 nth_mem[of i "hands s"] by blast
      then show "0 \<le> h x" using px[OF il] nn[of i] i(2) by simp
    }
    have "held (hands s') x = held (hands s) x
            + (\<Sum>i<length (hands s). if x = r then dict_total d i else 0)"
      using len px by (intro held_pointwise) (simp_all add: hands_def)
    also have "(\<Sum>i<length (hands s). if x = r then dict_total d i else 0)
                 = (if x = r then sum_list (map snd d) else 0)"
      using sum_dict_total[OF keys] by (simp add: hands_def)
    finally show "held (hands s') x + bank s' x = BANK_PER_RESOURCE"
      using tot by (simp add: bk)
  qed
qed

lemma distribute_hex_cases:
  assumes "distribute_hex n topo hid s = Some s'"
  shows "s' = s \<or> (\<exists>r vids dem. hex_demand s vids = Some dem \<and> fst dem \<le> bank s r
                      \<and> fold_e (pay_demand r) (snd dem) s = Some s')"
proof (cases "s' = s")
  case True
  then show ?thesis by simp
next
  case False
  with assms obtain r dem where
    "hex_demand s (hex_vertices topo ! hid) = Some dem" "\<not> bank s r < fst dem"
    "fold_e (pay_demand r) (snd dem) s = Some s'"
    by (auto simp: distribute_hex_def bind_eq_Some_conv split: if_splits option.splits)
  then show ?thesis by (auto simp: not_less)
qed

lemma distribute_hex_conserved:
  assumes "distribute_hex n topo hid s = Some s'" and "conserved (hands s) (bank s)"
  shows "conserved (hands s') (bank s') \<and> length (players s') = length (players s)"
  using distribute_hex_cases[OF assms(1)]
proof (elim disjE exE conjE)
  assume "s' = s"
  then show ?thesis using assms(2) by simp
next
  fix r vids dem
  assume dem: "hex_demand s vids = Some dem" and le: "fst dem \<le> bank s r"
    and f: "fold_e (pay_demand r) (snd dem) s = Some s'"
  note d = hex_demand_Some[OF dem]
  show ?thesis
  proof (rule pay_demand_conserved[OF f assms(2)])
    show "sum_list (map snd (snd dem)) \<le> bank s r" using le d(1,3) by simp
    show "0 \<le> dict_total (snd dem) i" for i by (simp add: d(2) hex_claims_nonneg)
  qed
qed

lemma distribute_resources_conserved:
  assumes "distribute_resources s n = Some s'" and "conserved (hands s) (bank s)"
  shows "conserved (hands s') (bank s') \<and> length (players s') = length (players s)"
proof (cases "n = 7")
  case True
  then show ?thesis using assms by (simp add: distribute_resources_def)
next
  case False
  with assms(1) obtain topo where
    f: "fold_e (distribute_hex n topo) [0..<length (hex_terrains s)] s = Some s'"
    by (auto simp: distribute_resources_def bind_eq_Some_conv)
  show ?thesis
  proof (rule fold_e_invariant[OF f,
        where P = "\<lambda>t. conserved (hands t) (bank t) \<and> length (players t) = length (players s)"])
    show "conserved (hands s) (bank s) \<and> length (players s) = length (players s)"
      using assms(2) by simp
  next
    fix x t t'
    assume "conserved (hands t) (bank t) \<and> length (players t) = length (players s)"
      and "distribute_hex n topo x t = Some t'"
    then show "conserved (hands t') (bank t') \<and> length (players t') = length (players s)"
      using distribute_hex_conserved[of n topo x t t'] by simp
  qed
qed

lemma apply_roll_dice_conserved:
  assumes "apply_roll_dice g s = Some s'" and "conserved (hands s) (bank s)"
  shows "conserved (hands s') (bank s') \<and> length (players s') = length (players s)"
proof -
  from assms obtain d1 d2 where d: "randint (draw1 g) 1 7 = Some d1" "randint (draw2 g) 1 7 = Some d2"
    by (auto simp: apply_roll_dice_def bind_eq_Some_conv)
  let ?s1 = "s\<lparr>last_roll := Some (d1, d2)\<rparr>"
  show ?thesis
  proof (cases "d1 + d2 = 7")
    case True
    with assms d obtain need where "s' = (if need \<noteq> [] then ?s1\<lparr>phase := DISCARD, players_needing_discard := need\<rparr>
                       else ?s1\<lparr>phase := MOVE_ROBBER\<rparr>)"
      by (auto simp: apply_roll_dice_def bind_eq_Some_conv Let_def)
    then show ?thesis using assms(2) by (cases "need = []") (simp_all add: hands_def)
  next
    case False
    with assms d obtain s2 where s2: "distribute_resources ?s1 (d1 + d2) = Some s2"
      and s': "s' = s2\<lparr>phase := TRADE_BUILD_PLAY\<rparr>"
      by (auto simp: apply_roll_dice_def bind_eq_Some_conv Let_def)
    have "conserved (hands ?s1) (bank ?s1)" using assms(2) by (simp add: hands_def)
    from distribute_resources_conserved[OF s2 this] show ?thesis
      by (simp add: s' hands_def)
  qed
qed

lemma ROLL_DICE_inv:
  assumes "game_inv s" and "apply_action g ROLL_DICE_action s = Some s'"
  shows "game_inv s'"
proof -
  from assms(2) have a: "apply_roll_dice g s = Some s'" by (simp add: apply_action_def)
  note c = apply_roll_dice_conserved[OF a game_inv_conserved[OF assms(1)]]
  from apply_roll_dice_frame[OF a] obtain roll ps bk ph pnd where
    "s' = s\<lparr>last_roll := roll, players := ps, bank := bk, phase := ph,
                                      players_needing_discard := pnd\<rparr>"
    "ph = DISCARD \<or> ph = MOVE_ROBBER \<or> ph = TRADE_BUILD_PLAY" by blast
  then have "player_count s' = player_count s" "topology s' = topology s"
    "phase s' \<noteq> SETUP_PLACE_SETTLEMENT" "phase s' \<noteq> SETUP_PLACE_ROAD"
    "current_player s' = current_player s" by auto
  then show ?thesis using c game_inv_current'[OF assms(1)]
    by (intro game_inv_frame[OF assms(1)]) simp_all
qed

subsection \<open>Monopoly\<close>

lemma monopoly_fold:
  assumes "fold_e (monopoly_take pid r) [0..<n] (0, s) = Some acc"
  shows "(\<exists>ps. snd acc = s\<lparr>players := ps\<rparr>)
       \<and> length (players (snd acc)) = length (players s)
       \<and> (\<forall>i<length (players s). players (snd acc) ! i =
            (if i < n \<and> i \<noteq> pid \<and> 0 < resources (players s ! i) r
             then (players s ! i)\<lparr>resources := (resources (players s ! i))(r := 0)\<rparr>
             else players s ! i))
       \<and> fst acc = (\<Sum>i<n. if i \<noteq> pid \<and> 0 < resources (players s ! i) r
                            then resources (players s ! i) r else 0)
       \<and> (\<forall>i<n. i \<noteq> pid \<longrightarrow> i < length (players s))"
  using assms
proof (induction n arbitrary: acc)
  case 0
  then have "acc = (0, s)" by simp
  then show ?case by (simp add: self_players)
next
  case (Suc n)
  from Suc.prems obtain acc0 where a0: "fold_e (monopoly_take pid r) [0..<n] (0, s) = Some acc0"
    and step: "monopoly_take pid r n acc0 = Some acc"
    by (auto simp: fold_e_append bind_eq_Some_conv)
  from Suc.IH[OF a0] obtain ps0 where fr: "snd acc0 = s\<lparr>players := ps0\<rparr>"
    and len: "length (players (snd acc0)) = length (players s)"
    and pt: "\<And>i. i < length (players s) \<Longrightarrow> players (snd acc0) ! i =
            (if i < n \<and> i \<noteq> pid \<and> 0 < resources (players s ! i) r
             then (players s ! i)\<lparr>resources := (resources (players s ! i))(r := 0)\<rparr>
             else players s ! i)"
    and tot: "fst acc0 = (\<Sum>i<n. if i \<noteq> pid \<and> 0 < resources (players s ! i) r
                            then resources (players s ! i) r else 0)"
    and rng: "\<And>i. i < n \<Longrightarrow> i \<noteq> pid \<Longrightarrow> i < length (players s)"
    by blast
  show ?case
  proof (cases "n = pid")
    case True
    then have "acc = acc0" using step by (simp add: monopoly_take_def)
    then show ?thesis using fr len pt tot rng True
      by (auto simp: less_Suc_eq)
  next
    case False
    from step False have nl: "n < length (players s)"
      by (auto simp: monopoly_take_def bind_eq_Some_conv nth_e_def len split: if_splits)
    then have pn: "players (snd acc0) ! n = players s ! n" using pt[of n] by simp
    have r': "\<And>i. i < Suc n \<Longrightarrow> i \<noteq> pid \<Longrightarrow> i < length (players s)"
      using rng nl by (auto simp: less_Suc_eq)
    show ?thesis
    proof (cases "0 < resources (players s ! n) r")
      case True
      with step False nl pn have acc: "acc = (fst acc0 + resources (players s ! n) r,
             (snd acc0)\<lparr>players := (players (snd acc0))
                [n := (players s ! n)\<lparr>resources := (resources (players s ! n))(r := 0)\<rparr>]\<rparr>)"
        by (auto simp: monopoly_take_def nth_e_def len update_player_eq Let_def)
      have 1: "\<exists>ps. snd acc = s\<lparr>players := ps\<rparr>"
        by (rule exI[of _ "players (snd acc)"]) (simp add: acc fr)
      have 2: "length (players (snd acc)) = length (players s)" by (simp add: acc len)
      have 3: "players (snd acc) ! i =
            (if i < Suc n \<and> i \<noteq> pid \<and> 0 < resources (players s ! i) r
             then (players s ! i)\<lparr>resources := (resources (players s ! i))(r := 0)\<rparr>
             else players s ! i)" if "i < length (players s)" for i
        using that pt[of i] True False len by (cases "i = n") (auto simp: acc less_Suc_eq)
      have 4: "fst acc = (\<Sum>i<Suc n. if i \<noteq> pid \<and> 0 < resources (players s ! i) r
                            then resources (players s ! i) r else 0)"
        using True False by (simp add: acc tot)
      from 1 2 3 4 r' show ?thesis by blast
    next
      case F: False
      with step False nl pn have acc: "acc = acc0"
        by (auto simp: monopoly_take_def nth_e_def len Let_def)
      have 3: "players (snd acc) ! i =
            (if i < Suc n \<and> i \<noteq> pid \<and> 0 < resources (players s ! i) r
             then (players s ! i)\<lparr>resources := (resources (players s ! i))(r := 0)\<rparr>
             else players s ! i)" if "i < length (players s)" for i
        using that pt[of i] F by (cases "i = n") (auto simp: acc less_Suc_eq)
      have 4: "fst acc = (\<Sum>i<Suc n. if i \<noteq> pid \<and> 0 < resources (players s ! i) r
                            then resources (players s ! i) r else 0)"
        using F by (simp add: acc tot)
      from fr len 3 4 r' show ?thesis unfolding acc by blast
    qed
  qed
qed

lemma monopoly_fold_total:
  assumes "n \<le> length (players s)"
  shows "\<exists>acc. fold_e (monopoly_take pid r) [0..<n] (0, s) = Some acc"
  using assms
proof (induction n)
  case 0
  show ?case by simp
next
  case (Suc n)
  then obtain acc0 where a0: "fold_e (monopoly_take pid r) [0..<n] (0, s) = Some acc0" by auto
  from monopoly_fold[OF a0] have "length (players (snd acc0)) = length (players s)" by blast
  then have "n < length (players (snd acc0))" using Suc.prems by simp
  then have "\<exists>acc. monopoly_take pid r n acc0 = Some acc"
    by (simp add: monopoly_take_def nth_e_def update_player_eq Let_def)
  then obtain acc where "monopoly_take pid r n acc0 = Some acc" by blast
  then have "fold_e (monopoly_take pid r) [0..<Suc n] (0, s) = Some acc"
    by (simp add: fold_e_append a0)
  then show ?case by blast
qed

lemma apply_pick_monopoly_effect:
  assumes "apply_pick_monopoly r s = Some s'"
  defines "gain \<equiv> (\<Sum>i<player_count s. if i \<noteq> current_player s \<and> 0 < resources (players s ! i) r
                            then resources (players s ! i) r else 0)"
  shows "s' = s\<lparr>players := players s', phase := TRADE_BUILD_PLAY\<rparr>
       \<and> length (players s') = length (players s)
       \<and> current_player s < length (players s)
       \<and> (\<forall>i<length (players s). players s' ! i =
            (if i = current_player s then add_resource r gain (players s ! i)
             else if i < player_count s \<and> 0 < resources (players s ! i) r
             then (players s ! i)\<lparr>resources := (resources (players s ! i))(r := 0)\<rparr>
             else players s ! i))"
proof -
  from assms(1) obtain acc s2 where
    acc: "fold_e (monopoly_take (current_player s) r) [0..<player_count s] (0, s) = Some acc"
    and s2: "update_player (current_player s) (add_resource r (fst acc)) (snd acc) = Some s2"
    and s': "s' = s2\<lparr>phase := TRADE_BUILD_PLAY\<rparr>"
    by (auto simp: apply_pick_monopoly_def bind_eq_Some_conv Let_def)
  from monopoly_fold[OF acc] obtain ps0 where fr: "snd acc = s\<lparr>players := ps0\<rparr>"
    and len: "length (players (snd acc)) = length (players s)"
    and pt: "\<And>i. i < length (players s) \<Longrightarrow> players (snd acc) ! i =
            (if i < player_count s \<and> i \<noteq> current_player s \<and> 0 < resources (players s ! i) r
             then (players s ! i)\<lparr>resources := (resources (players s ! i))(r := 0)\<rparr>
             else players s ! i)"
    and tot: "fst acc = gain"
    unfolding gain_def by blast
  from s2 have cp: "current_player s < length (players s)"
    and e2: "s2 = (snd acc)\<lparr>players := (players (snd acc))[current_player s :=
                     add_resource r gain (players (snd acc) ! current_player s)]\<rparr>"
    by (simp_all add: update_player_eq len tot split: if_splits)
  have 1: "s' = s\<lparr>players := players s', phase := TRADE_BUILD_PLAY\<rparr>"
    by (simp add: s' e2 fr)
  have 2: "length (players s') = length (players s)" by (simp add: s' e2 len)
  have 3: "players s' ! i =
            (if i = current_player s then add_resource r gain (players s ! i)
             else if i < player_count s \<and> 0 < resources (players s ! i) r
             then (players s ! i)\<lparr>resources := (resources (players s ! i))(r := 0)\<rparr>
             else players s ! i)" if "i < length (players s)" for i
    using that pt[of i] len by (cases "i = current_player s") (simp_all add: s' e2)
  from 1 2 3 cp show ?thesis by blast
qed

lemma apply_pick_monopoly_total:
  assumes "player_count s \<le> length (players s)" and "current_player s < length (players s)"
  shows "\<exists>s'. apply_pick_monopoly r s = Some s'"
proof -
  from monopoly_fold_total[OF assms(1)] obtain acc where
    acc: "fold_e (monopoly_take (current_player s) r) [0..<player_count s] (0, s) = Some acc"
    by blast
  from monopoly_fold[OF acc] have "length (players (snd acc)) = length (players s)" by blast
  then show ?thesis using assms(2) acc
    by (simp add: apply_pick_monopoly_def Let_def update_player_eq)
qed

lemma held_sum: "held hs r = (\<Sum>i<length hs. (hs ! i) r)"
proof -
  have "held hs r = (\<Sum>i<length hs. map (\<lambda>h. h r) hs ! i)"
    by (simp add: held_def sum_list_sum_nth atLeast0LessThan)
  also have "\<dots> = (\<Sum>i<length hs. (hs ! i) r)"
    by (intro sum.cong) simp_all
  finally show ?thesis .
qed

lemma monopoly_transfer:
  assumes a: "apply_pick_monopoly r s = Some s'"
    and len: "length (players s) = player_count s"
    and nn: "\<forall>p\<in>set (players s). 0 \<le> resources p r"
  shows "s' = s\<lparr>players := players s', phase := TRADE_BUILD_PLAY\<rparr>"
    and "length (players s') = length (players s)"
    and "\<forall>i<length (players s). resources (players s' ! i) r
           = (if i = current_player s then held (hands s) r else 0)"
    and "\<forall>i<length (players s). \<forall>r'. r' \<noteq> r \<longrightarrow>
           resources (players s' ! i) r' = resources (players s ! i) r'"
    and "held (hands s') r = held (hands s) r"
proof -
  define n where "n = player_count s"
  define cp where "cp = current_player s"
  define h where "h i = resources (players s ! i) r" for i
  define gain where "gain = (\<Sum>i<n. if i \<noteq> cp \<and> 0 < h i then h i else 0)"
  from apply_pick_monopoly_effect[OF a] have fr: "s' = s\<lparr>players := players s', phase := TRADE_BUILD_PLAY\<rparr>"
    and l': "length (players s') = length (players s)"
    and cpl: "cp < n"
    and pt: "\<And>i. i < n \<Longrightarrow> players s' ! i =
            (if i = cp then add_resource r gain (players s ! i)
             else if 0 < h i
             then (players s ! i)\<lparr>resources := (resources (players s ! i))(r := 0)\<rparr>
             else players s ! i)"
    unfolding gain_def n_def cp_def h_def using len by simp_all
  have h0: "0 \<le> h i" if "i < n" for i
    using nn that len nth_mem[of i "players s"] by (auto simp: h_def n_def)
  have hs: "held (hands s) r = (\<Sum>i<n. h i)"
    by (simp add: held_sum hands_def h_def n_def len)
  have "gain = (\<Sum>i<n. if i = cp then 0 else h i)"
    unfolding gain_def using h0 by (intro sum.cong) (auto simp: order.order_iff_strict)
  moreover have "(\<Sum>i<n. h i) = (\<Sum>i<n. (if i = cp then h i else 0) + (if i = cp then 0 else h i))"
    by (intro sum.cong) auto
  ultimately have t: "h cp + gain = (\<Sum>i<n. h i)"
    using cpl by (simp add: sum.distrib)
  show "s' = s\<lparr>players := players s', phase := TRADE_BUILD_PLAY\<rparr>" by (rule fr)
  show "length (players s') = length (players s)" by (rule l')
  have r1: "resources (players s' ! i) r = (if i = cp then held (hands s) r else 0)" if "i < n" for i
    using pt[OF that] h0[OF that] t hs by (auto simp: add_resource_def h_def)
  then show "\<forall>i<length (players s). resources (players s' ! i) r
           = (if i = current_player s then held (hands s) r else 0)"
    by (simp add: len n_def cp_def)
  show "\<forall>i<length (players s). \<forall>r'. r' \<noteq> r \<longrightarrow>
           resources (players s' ! i) r' = resources (players s ! i) r'"
    using pt by (auto simp: len n_def add_resource_def)
  have "held (hands s') r = (\<Sum>i<n. if i = cp then held (hands s) r else 0)"
    using r1 l' by (simp add: held_sum hands_def len n_def)
  then show "held (hands s') r = held (hands s) r" using cpl by simp
qed

lemma PICK_MONOPOLY_inv:
  assumes "game_inv s" and "apply_action g (PICK_MONOPOLY_RESOURCE r) s = Some s'"
  shows "game_inv s'"
proof -
  from assms(2) have a: "apply_pick_monopoly r s = Some s'" by (simp add: apply_action_def)
  from assms(1) have len: "length (players s) = player_count s" by (simp add: game_inv_def)
  have nn: "0 \<le> resources (players s ! i) x" if "i < length (players s)" for i x
    using hand_nonneg[OF assms(1) that] .
  have nn': "\<forall>p\<in>set (players s). 0 \<le> resources p r"
    using nn by (auto simp: in_set_conv_nth)
  note m = monopoly_transfer[OF a len nn']
  have bk: "bank s' = bank s" using arg_cong[OF m(1), of bank] by simp
  have held0: "0 \<le> held (hands s) r"
    unfolding held_sum using nn by (intro sum_nonneg) (simp add: hands_def)
  have c: "conserved (hands s') (bank s')"
    unfolding conserved_def
  proof (intro allI conjI ballI)
    fix x
    from game_inv_conserved[OF assms(1)] have b0: "0 \<le> bank s x"
      and tot: "held (hands s) x + bank s x = BANK_PER_RESOURCE"
      by (simp_all add: conserved_def)
    show "0 \<le> bank s' x" using b0 by (simp add: bk)
    have px: "resources (players s' ! i) x =
                (if x = r then (if i = current_player s then held (hands s) r else 0)
                 else resources (players s ! i) x)" if "i < length (players s)" for i
      using m(3,4) that by auto
    {
      fix h assume "h \<in> set (hands s')"
      then obtain i where i: "i < length (players s)" "h = resources (players s' ! i)"
        using m(2) by (auto simp: in_set_conv_nth hands_def)
      show "0 \<le> h x" using px[OF i(1)] nn[OF i(1), of x] held0 by (simp add: i(2))
    }
    have "held (hands s') x = held (hands s) x"
    proof (cases "x = r")
      case True
      then show ?thesis using m(5) by simp
    next
      case False
      have "held (hands s') x = held (hands s) x + (\<Sum>i<length (hands s). (0::int))"
        using m(2) px False by (intro held_pointwise) (simp_all add: hands_def)
      then show ?thesis by simp
    qed
    then show "held (hands s') x + bank s' x = BANK_PER_RESOURCE" using tot by (simp add: bk)
  qed
  have "player_count s' = player_count s" "topology s' = topology s"
    "phase s' = TRADE_BUILD_PLAY" "current_player s' = current_player s"
    using arg_cong[OF m(1), of player_count] arg_cong[OF m(1), of topology]
      arg_cong[OF m(1), of phase] arg_cong[OF m(1), of current_player] by simp_all
  then show ?thesis using c m(2) game_inv_current'[OF assms(1)]
    by (intro game_inv_frame[OF assms(1)]) simp_all
qed

text \<open>
  C10. Picking the monopoly resource \<open>r\<close> always succeeds in a state with one record
  per seat whose current player is a seat and whose holdings of \<open>r\<close> are not negative.
  Afterwards every other player holds no \<open>r\<close>, the current player holds all the \<open>r\<close>
  the players held together, so the players' total of \<open>r\<close> is the same; the holdings of
  every other resource are the same for every player; the phase is
  \<^verbatim>\<open>TRADE_BUILD_PLAY\<close>; and nothing else of the state changes, the bank included.
\<close>

theorem C10_monopoly_transfer:
  assumes "length (players s) = player_count s" and "current_player s < player_count s"
    and "\<forall>p\<in>set (players s). 0 \<le> resources p r"
  shows "\<exists>s'. apply_action g (PICK_MONOPOLY_RESOURCE r) s = Some s'
     \<and> s' = s\<lparr>players := players s', phase := TRADE_BUILD_PLAY\<rparr>
     \<and> length (players s') = length (players s)
     \<and> (\<forall>i<length (players s). resources (players s' ! i) r
           = (if i = current_player s then held (hands s) r else 0))
     \<and> (\<forall>i<length (players s). \<forall>r'. r' \<noteq> r \<longrightarrow>
           resources (players s' ! i) r' = resources (players s ! i) r')
     \<and> held (hands s') r = held (hands s) r"
proof -
  from apply_pick_monopoly_total[of s r] assms(1,2) obtain s' where
    a: "apply_pick_monopoly r s = Some s'" by auto
  note m = monopoly_transfer[OF a assms(1,3)]
  have "apply_action g (PICK_MONOPOLY_RESOURCE r) s = Some s'" by (simp add: apply_action_def a)
  with m show ?thesis by blast
qed

theorem C10_monopoly_transfer_witness:
  "length (players monopoly_example) = player_count monopoly_example
   \<and> current_player monopoly_example = 0
   \<and> map (\<lambda>p. resources p Lumber) (players monopoly_example) = [1, 2, 3]
   \<and> (\<exists>s'. apply_action \<lparr>draw1 = 0, draw2 = 0\<rparr> (PICK_MONOPOLY_RESOURCE Lumber) monopoly_example
              = Some s'
          \<and> s' = monopoly_example\<lparr>players := players s', phase := TRADE_BUILD_PLAY\<rparr>
          \<and> length (players s') = 3
          \<and> map (\<lambda>p. resources p Lumber) (players s') = [6, 0, 0]
          \<and> map (\<lambda>p. resources p Brick) (players s') = [0, 1, 0]
          \<and> held (hands s') Lumber = 6)"
proof -
  have e: "length (players monopoly_example) = player_count monopoly_example"
    "current_player monopoly_example < player_count monopoly_example"
    "\<forall>p\<in>set (players monopoly_example). 0 \<le> resources p Lumber"
    "current_player monopoly_example = 0"
    "map (\<lambda>p. resources p Lumber) (players monopoly_example) = [1, 2, 3]"
    "map (\<lambda>p. resources p Brick) (players monopoly_example) = [0, 1, 0]"
    "held (hands monopoly_example) Lumber = 6" "length (players monopoly_example) = 3"
    by (simp_all add: monopoly_example_def new_player_def empty_resources_def held_def hands_def)
  from C10_monopoly_transfer[OF e(1-3), of "\<lparr>draw1 = 0, draw2 = 0\<rparr>"] obtain s' where
    a: "apply_action \<lparr>draw1 = 0, draw2 = 0\<rparr> (PICK_MONOPOLY_RESOURCE Lumber) monopoly_example = Some s'"
    and fr: "s' = monopoly_example\<lparr>players := players s', phase := TRADE_BUILD_PLAY\<rparr>"
    and len: "length (players s') = length (players monopoly_example)"
    and r: "\<And>i. i < length (players monopoly_example) \<Longrightarrow> resources (players s' ! i) Lumber
           = (if i = current_player monopoly_example then held (hands monopoly_example) Lumber else 0)"
    and o: "\<And>i. i < length (players monopoly_example) \<Longrightarrow>
           resources (players s' ! i) Brick = resources (players monopoly_example ! i) Brick"
    and h: "held (hands s') Lumber = held (hands monopoly_example) Lumber"
    by auto
  have l3: "length (players s') = 3" using len e(8) by simp
  have "map (\<lambda>p. resources p Lumber) (players s') = [6, 0, 0]"
  proof (intro nth_equalityI)
    show "length (map (\<lambda>p. resources p Lumber) (players s')) = length [6, 0, 0::int]"
      using l3 by simp
    fix i assume "i < length (map (\<lambda>p. resources p Lumber) (players s'))"
    then have i: "i < 3" using l3 by simp
    then have "resources (players s' ! i) Lumber = [6, 0, 0] ! i"
      using r[of i] e(4,7,8) by (auto simp: less_Suc_eq numeral_3_eq_3)
    then show "map (\<lambda>p. resources p Lumber) (players s') ! i = [6, 0, 0] ! i"
      using i l3 by simp
  qed
  moreover have "map (\<lambda>p. resources p Brick) (players s') = [0, 1, 0]"
  proof (intro nth_equalityI)
    show "length (map (\<lambda>p. resources p Brick) (players s')) = length [0, 1, 0::int]"
      using l3 by simp
    fix i assume "i < length (map (\<lambda>p. resources p Brick) (players s'))"
    then have i: "i < 3" using l3 by simp
    then have "resources (players s' ! i) Brick = map (\<lambda>p. resources p Brick) (players monopoly_example) ! i"
      using o[of i] e(8) by simp
    then show "map (\<lambda>p. resources p Brick) (players s') ! i = [0, 1, 0] ! i"
      using i l3 by (simp add: e(6))
  qed
  moreover have "held (hands s') Lumber = 6" using h e(7) by simp
  ultimately have "apply_action \<lparr>draw1 = 0, draw2 = 0\<rparr> (PICK_MONOPOLY_RESOURCE Lumber) monopoly_example
              = Some s'
          \<and> s' = monopoly_example\<lparr>players := players s', phase := TRADE_BUILD_PLAY\<rparr>
          \<and> length (players s') = 3
          \<and> map (\<lambda>p. resources p Lumber) (players s') = [6, 0, 0]
          \<and> map (\<lambda>p. resources p Brick) (players s') = [0, 1, 0]
          \<and> held (hands s') Lumber = 6"
    using a fr l3 by (intro conjI)
  then have ex: "\<exists>s'. apply_action \<lparr>draw1 = 0, draw2 = 0\<rparr> (PICK_MONOPOLY_RESOURCE Lumber) monopoly_example
              = Some s'
          \<and> s' = monopoly_example\<lparr>players := players s', phase := TRADE_BUILD_PLAY\<rparr>
          \<and> length (players s') = 3
          \<and> map (\<lambda>p. resources p Lumber) (players s') = [6, 0, 0]
          \<and> map (\<lambda>p. resources p Brick) (players s') = [0, 1, 0]
          \<and> held (hands s') Lumber = 6"
    by (rule exI)
  show ?thesis
    by (intro conjI) (rule e(1), rule e(4), rule e(5), rule ex)
qed

subsection \<open>The set-up\<close>

lemma bank_pays_refl: "bank_pays 0 s s"
  by (simp add: bank_pays_def)

lemma bank_pays_trans:
  assumes "bank_pays j s t" and "bank_pays k t u"
  shows "bank_pays (j + k) s u"
  unfolding bank_pays_def
proof (intro conjI allI impI)
  show "length (players u) = length (players s)" using assms by (simp add: bank_pays_def)
  show "resources (players s ! i) x \<le> resources (players u ! i) x" if "i < length (players s)" for i x
  proof -
    have "resources (players s ! i) x \<le> resources (players t ! i) x"
      using assms(1) that by (simp add: bank_pays_def)
    moreover have "resources (players t ! i) x \<le> resources (players u ! i) x"
      using assms that by (simp add: bank_pays_def)
    ultimately show ?thesis by simp
  qed
  show "held (hands u) x + bank u x = held (hands s) x + bank s x" for x
    using assms by (simp add: bank_pays_def)
  show "bank s x - (j + k) \<le> bank u x" for x
  proof -
    have "bank s x - j \<le> bank t x" "bank t x - k \<le> bank u x"
      using assms by (simp_all add: bank_pays_def)
    then show ?thesis by simp
  qed
qed

lemma bank_pays_mono: "bank_pays j s t \<Longrightarrow> j \<le> k \<Longrightarrow> bank_pays k s t"
  unfolding bank_pays_def by (meson diff_left_mono order_trans)

lemma bank_pays_fold:
  assumes "fold_e f xs s = Some s'" and "\<And>x t t'. f x t = Some t' \<Longrightarrow> bank_pays 1 t t'"
  shows "bank_pays (int (length xs)) s s'"
  using assms(1)
proof (induction xs arbitrary: s)
  case Nil
  then show ?case by (simp add: bank_pays_refl)
next
  case (Cons x xs)
  then obtain t where t: "f x s = Some t" "fold_e f xs t = Some s'"
    by (auto simp: bind_eq_Some_conv)
  from bank_pays_trans[OF assms(2)[OF t(1)] Cons.IH[OF t(2)]] show ?case by simp
qed

lemma bank_pays_gain:
  assumes "i < length (players s)"
  shows "bank_pays 1 s (s\<lparr>players := (players s)[i := add_resource r 1 (players s ! i)],
                          bank := (bank s)(r := bank s r - 1)\<rparr>)"
  unfolding bank_pays_def
proof (intro conjI allI impI)
  let ?ps = "(players s)[i := add_resource r 1 (players s ! i)]"
  let ?s' = "s\<lparr>players := ?ps, bank := (bank s)(r := bank s r - 1)\<rparr>"
  show "length (players ?s') = length (players s)" by simp
  show "resources (players s ! j) x \<le> resources (players ?s' ! j) x" for j x
    using assms by (cases "j = i") (simp_all add: add_resource_def)
  show "bank s x - 1 \<le> bank ?s' x" for x by simp
  show "held (hands ?s') x + bank ?s' x = held (hands s) x + bank s x" for x
  proof -
    have "hands ?s' = (hands s)[i := resources (add_resource r 1 (players s ! i))]"
      by (simp add: hands_def map_update)
    then have "held (hands ?s') x = held (hands s) x - (hands s ! i) x
                 + resources (add_resource r 1 (players s ! i)) x"
      using assms by (simp add: held_update hands_def)
    then show ?thesis using assms by (simp add: add_resource_def hands_def)
  qed
qed

lemma bank_pays_conserved:
  assumes "conserved (hands s) (bank s)" and "bank_pays k s s'" and "\<And>x. k \<le> bank s x"
  shows "conserved (hands s') (bank s')"
  unfolding conserved_def
proof (intro allI conjI ballI)
  fix x
  from assms(2) have len: "length (players s') = length (players s)"
    and up: "\<And>i. i < length (players s) \<Longrightarrow> resources (players s ! i) x \<le> resources (players s' ! i) x"
    and tot: "held (hands s') x + bank s' x = held (hands s) x + bank s x"
    and bk: "bank s x - k \<le> bank s' x"
    by (simp_all add: bank_pays_def)
  show "0 \<le> bank s' x" using bk assms(3)[of x] by simp
  show "held (hands s') x + bank s' x = BANK_PER_RESOURCE"
    using tot assms(1) by (simp add: conserved_def)
  fix h assume "h \<in> set (hands s')"
  then obtain i where i: "i < length (players s)" "h = resources (players s' ! i)"
    using len by (auto simp: in_set_conv_nth hands_def)
  have "resources (players s ! i) \<in> set (hands s)" using i(1) by (simp add: hands_def)
  then have "0 \<le> resources (players s ! i) x" using assms(1) by (auto simp: conserved_def)
  then show "0 \<le> h x" using up[OF i(1)] i(2) by simp
qed

lemma adjacent_hexes_le_3:
  assumes "v < length (vertex_adjacent_hexes standard_topology)"
  shows "length (vertex_adjacent_hexes standard_topology ! v) \<le> 3"
proof -
  have "\<forall>hs\<in>set std_vertex_adjacent_hexes. length hs \<le> 3"
    by (simp add: std_vertex_adjacent_hexes_def)
  then show ?thesis using assms nth_mem[OF assms] by (simp add: standard_topology_tables)
qed

lemma apply_setup_settlement_pays:
  assumes "apply_setup_settlement v s = Some s'" and "topology s = Some standard_topology"
  shows "bank_pays (if setup_round s = 1 then 3 else 0) s s'"
proof -
  let ?s0 = "s\<lparr>vertex_buildings := (vertex_buildings s)[v := Some (Settlement, current_player s)]\<rparr>"
  let ?f = "\<lambda>hid st.
                            do { t \<leftarrow> nth_e (hex_terrains st) hid;
                                 case TERRAIN_TO_RESOURCE t of
                                   None \<Rightarrow> Some st
                                 | Some res \<Rightarrow>
                                     do { st' \<leftarrow> update_player (current_player s) (add_resource res 1) st;
                                          Some (bank_add res (- 1) st') } }"
  from assms(1) obtain s1 s2 where v: "v < length (vertex_buildings s)"
    and s1: "update_player (current_player s)
                  (\<lambda>p. p\<lparr>remaining_settlements := remaining_settlements p - 1\<rparr>) ?s0 = Some s1"
    and s2: "(if setup_round s1 = 1 then
                    do { topo \<leftarrow> get_topology s1;
                         hs \<leftarrow> nth_e (vertex_adjacent_hexes topo) v;
                         fold_e ?f hs s1 }
                  else Some s1) = Some s2"
    and s': "s' = s2\<lparr>last_placed_vertex := Some v, phase := SETUP_PLACE_ROAD\<rparr>"
    by (auto simp: apply_setup_settlement_def bind_eq_Some_conv Let_def)
  from s1 have cp: "current_player s < length (players s)"
    and e1: "s1 = ?s0\<lparr>players := (players s)[current_player s := (players s ! current_player s)
                \<lparr>remaining_settlements := remaining_settlements (players s ! current_player s) - 1\<rparr>]\<rparr>"
    by (simp_all add: update_player_eq split: if_splits)
  have h1: "hands s1 = hands s" using cp by (simp add: e1 hands_def map_update map_update_same)
  have p01: "bank_pays 0 s s1"
    unfolding bank_pays_def h1 using cp
    by (auto simp: e1 nth_list_update)
  have step: "bank_pays 1 t t'" if "?f x t = Some t'" for x t t'
  proof (cases "TERRAIN_TO_RESOURCE (hex_terrains t ! x)")
    case None
    then have "t' = t" using that by (auto simp: bind_eq_Some_conv nth_e_def split: if_splits)
    then show ?thesis using bank_pays_mono[OF bank_pays_refl, of 1 t] by simp
  next
    case (Some res)
    then have "current_player s < length (players t)"
      and "t' = t\<lparr>players := (players t)[current_player s :=
                      add_resource res 1 (players t ! current_player s)],
                    bank := (bank t)(res := bank t res - 1)\<rparr>"
      using that
      by (auto simp: bind_eq_Some_conv nth_e_def update_player_eq bank_add_def split: if_splits)
    then show ?thesis using bank_pays_gain[of "current_player s" t res] by simp
  qed
  have p12: "bank_pays (if setup_round s = 1 then 3 else 0) s1 s2"
  proof (cases "setup_round s = 1")
    case False
    then have "s2 = s1" using s2 by (simp add: e1)
    then show ?thesis using False by (simp add: bank_pays_refl)
  next
    case True
    with s2 assms(2) have vl: "v < length (vertex_adjacent_hexes standard_topology)"
      and f: "fold_e ?f (vertex_adjacent_hexes standard_topology ! v) s1 = Some s2"
      by (auto simp: e1 bind_eq_Some_conv nth_e_def split: if_splits)
    from bank_pays_fold[of ?f, OF f step]
    have b: "bank_pays (int (length (vertex_adjacent_hexes standard_topology ! v))) s1 s2" .
    have "bank_pays 3 s1 s2"
      using adjacent_hexes_le_3[OF vl] by (intro bank_pays_mono[OF b]) simp
    then show ?thesis using True by simp
  qed
  have "bank_pays (if setup_round s = 1 then 3 else 0) s s2"
    using bank_pays_trans[OF p01 p12] by simp
  then show ?thesis by (simp add: bank_pays_def s' hands_def)
qed

lemma PLACE_SETUP_SETTLEMENT_inv:
  assumes "game_inv s" and "get_legal_actions s = Some acts"
    and "PLACE_SETUP_SETTLEMENT v \<in> set acts"
    and "apply_action g (PLACE_SETUP_SETTLEMENT v) s = Some s'"
  shows "game_inv s'"
proof -
  from legal_action_phase[OF assms(2,3)] have ph: "phase s = SETUP_PLACE_SETTLEMENT" by simp
  from assms(4) have a: "apply_setup_settlement v s = Some s'" by (simp add: apply_action_def)
  from assms(1) ph have c: "conserved (hands s) (bank s)"
    and len: "length (players s) = player_count s" and pc: "3 \<le> player_count s" "player_count s \<le> 4"
    and cp: "current_player s < player_count s" and topo: "topology s = Some standard_topology"
    and idx: "setup_index s < 2 * player_count s"
    and rnd: "setup_round s = (if player_count s \<le> setup_index s then 1 else 0)"
    and bk: "\<And>r. BANK_PER_RESOURCE - 3 * setup_taken s \<le> bank s r"
    by (simp_all add: game_inv_def setup_ok_def)
  let ?k = "if setup_round s = 1 then 3 else (0::int)"
  note p = apply_setup_settlement_pays[OF a topo]
  from apply_setup_settlement_frame[OF a] obtain ps bk' where
    fr: "s' = s\<lparr>vertex_buildings := (vertex_buildings s)[v := Some (Settlement, current_player s)],
                  players := ps, bank := bk', last_placed_vertex := Some v,
                  phase := SETUP_PLACE_ROAD\<rparr>" by blast
  have st: "player_count s' = player_count s" "topology s' = topology s"
    "current_player s' = current_player s" "setup_index s' = setup_index s"
    "setup_round s' = setup_round s" "phase s' = SETUP_PLACE_ROAD"
    by (simp_all add: fr)
  have tk: "setup_taken s = (if player_count s \<le> setup_index s
                              then int (setup_index s - player_count s) else 0)"
    "setup_taken s' = (if player_count s \<le> setup_index s
                              then int (setup_index s - player_count s) + 1 else 0)"
    by (simp_all add: setup_taken_def ph st)
  have kb: "?k \<le> bank s x" for x
    using bk[of x] idx pc rnd bank_nonneg[OF assms(1), of x]
    by (auto simp: tk BANK_PER_RESOURCE_def split: if_splits)
  have c': "conserved (hands s') (bank s')" using c p kb by (rule bank_pays_conserved)
  have l': "length (players s') = length (players s)" using p by (simp add: bank_pays_def)
  have b': "bank s x - ?k \<le> bank s' x" for x using p by (simp add: bank_pays_def)
  have "setup_ok s'"
    unfolding setup_ok_def st
  proof (intro conjI allI)
    show "setup_index s < 2 * player_count s" by (rule idx)
    show "setup_round s = (if player_count s \<le> setup_index s then 1 else 0)" by (rule rnd)
    show "BANK_PER_RESOURCE - 3 * setup_taken s' \<le> bank s' r" for r
      using bk[of r] b'[of r] rnd by (auto simp: tk split: if_splits)
  qed
  then show ?thesis using c' l' len pc cp topo by (simp add: game_inv_def st)
qed

lemma get_setup_order_less: "k < 2 * n \<Longrightarrow> get_setup_order n ! k < n"
  by (auto simp: get_setup_order_def nth_append rev_nth)

lemma PLACE_SETUP_ROAD_inv:
  assumes "game_inv s" and "get_legal_actions s = Some acts"
    and "PLACE_SETUP_ROAD e \<in> set acts"
    and "apply_action g (PLACE_SETUP_ROAD e) s = Some s'"
  shows "game_inv s'"
proof -
  from legal_action_phase[OF assms(2,3)] have ph: "phase s = SETUP_PLACE_ROAD" by simp
  from assms(4) have a: "apply_setup_road e s = Some s'" by (simp add: apply_action_def)
  from assms(1) ph have c: "conserved (hands s) (bank s)"
    and len: "length (players s) = player_count s" and pc: "3 \<le> player_count s" "player_count s \<le> 4"
    and cp: "current_player s < player_count s" and topo: "topology s = Some standard_topology"
    and idx: "setup_index s < 2 * player_count s"
    and rnd: "setup_round s = (if player_count s \<le> setup_index s then 1 else 0)"
    and bk: "\<And>r. BANK_PER_RESOURCE - 3 * setup_taken s \<le> bank s r"
    by (simp_all add: game_inv_def setup_ok_def)
  let ?ps = "(players s)[current_player s := (players s ! current_player s)
                     \<lparr>remaining_roads := remaining_roads (players s ! current_player s) - 1\<rparr>]"
  have hs: "map resources ?ps = map resources (players s)"
    using cp len by (simp add: map_update map_update_same)
  show ?thesis
  proof (cases "setup_index s + 1 \<ge> 2 * player_count s")
    case True
    with a have "s' = s\<lparr>edge_roads := (edge_roads s)[e := Some (current_player s)], players := ?ps,
                      phase := ROLL_DICE, current_player := 0, last_placed_vertex := None,
                      turn_number := 1\<rparr>"
      by (simp add: apply_setup_road_eq Let_def split: if_splits)
    then show ?thesis using hs pc
      by (intro unchanged_inv'[OF assms(1)]) simp_all
  next
    case False
    with a have s': "s' = s\<lparr>edge_roads := (edge_roads s)[e := Some (current_player s)], players := ?ps,
                      current_player := get_setup_order (player_count s) ! (setup_index s + 1),
                      setup_index := setup_index s + 1,
                      setup_round := (if setup_index s + 1 \<ge> player_count s then 1 else 0),
                      phase := SETUP_PLACE_SETTLEMENT, last_placed_vertex := None\<rparr>"
      by (simp add: apply_setup_road_eq Let_def split: if_splits)
    have c': "conserved (hands s') (bank s')" using c hs by (simp add: s' hands_def)
    have cp': "current_player s' < player_count s"
      using False by (simp add: s' get_setup_order_less)
    have tk: "setup_taken s' = setup_taken s"
      using ph by (auto simp: setup_taken_def s')
    have "setup_ok s'"
      unfolding setup_ok_def tk using False bk by (simp add: s')
    then show ?thesis using c' cp' len pc topo by (simp add: game_inv_def s')
  qed
qed

lemma held_new_players: "held (map (resources \<circ> new_player) xs) r = 0"
  by (induction xs) (simp_all add: held_def new_player_def empty_resources_def)

lemma reset_inv:
  assumes "CatanEnv_init n = Inr n_players" and "reset n_players terrains numbers deck hs = Some s"
  shows "game_inv s"
proof -
  from assms(1) have n: "3 \<le> n_players" "n_players \<le> 4"
    by (auto simp: CatanEnv_init_def split: if_splits)
  from assms(2) obtain d nums where s: "s = \<lparr> phase = SETUP_PLACE_SETTLEMENT,
                 current_player = 0,
                 player_count = n_players,
                 turn_number = 0,
                 topology = Some standard_topology,
                 hex_terrains = terrains,
                 hex_numbers = nums,
                 vertex_buildings = replicate (vertex_count standard_topology) None,
                 edge_roads = replicate (edge_count standard_topology) None,
                 harbors = hs,
                 robber_hex = d,
                 players = map new_player [0..<n_players],
                 dev_card_deck = deck,
                 bank = (\<lambda>r. BANK_PER_RESOURCE),
                 longest_road_player = None,
                 longest_road_length = 0,
                 largest_army_player = None,
                 largest_army_size = 0,
                 last_roll = None,
                 setup_round = 0,
                 setup_index = 0,
                 players_needing_discard = [],
                 road_building_roads_left = 0,
                 last_placed_vertex = None,
                 winner = None \<rparr>"
    by (auto simp: reset_def bind_eq_Some_conv Let_def)
  have "conserved (hands s) (bank s)"
    unfolding conserved_def
    by (auto simp: s hands_def held_new_players BANK_PER_RESOURCE_def new_player_def
        empty_resources_def)
  moreover have "setup_ok s" using n by (simp add: setup_ok_def setup_taken_def s)
  ultimately show ?thesis using n by (simp add: game_inv_def s)
qed

lemma apply_action_inv:
  assumes "game_inv s" and "get_legal_actions s = Some acts" and "a \<in> set acts"
    and "apply_action g a s = Some s'"
  shows "game_inv s'"
proof (cases a)
  case (PLACE_SETUP_SETTLEMENT v)
  then show ?thesis using assms by (auto intro: PLACE_SETUP_SETTLEMENT_inv)
next
  case (PLACE_SETUP_ROAD e)
  then show ?thesis using assms by (auto intro: PLACE_SETUP_ROAD_inv)
next
  case ROLL_DICE_action
  then show ?thesis using assms by (auto intro: ROLL_DICE_inv)
next
  case (DISCARD_RESOURCES counts)
  then show ?thesis using assms by (auto intro: DISCARD_inv)
next
  case (MOVE_ROBBER_action h)
  then show ?thesis using assms by (auto intro: MOVE_ROBBER_inv)
next
  case (STEAL_RESOURCE victim)
  then show ?thesis using assms by (auto intro: STEAL_inv)
next
  case (BUILD_ROAD e)
  then show ?thesis using assms by (auto intro: BUILD_ROAD_inv)
next
  case (BUILD_SETTLEMENT v)
  then show ?thesis using assms by (auto intro: BUILD_SETTLEMENT_inv)
next
  case (BUILD_CITY v)
  then show ?thesis using assms by (auto intro: BUILD_CITY_inv)
next
  case BUY_DEV_CARD
  then show ?thesis using assms by (auto intro: BUY_DEV_CARD_inv)
next
  case PLAY_KNIGHT
  then show ?thesis using assms by (auto intro: PLAY_KNIGHT_inv)
next
  case PLAY_ROAD_BUILDING
  then show ?thesis using assms by (auto intro: PLAY_ROAD_BUILDING_inv)
next
  case (PLACE_ROAD_BUILDING_ROAD e)
  then show ?thesis using assms by (auto intro: PLACE_ROAD_BUILDING_ROAD_inv)
next
  case PLAY_YEAR_OF_PLENTY
  then show ?thesis using assms by (auto intro: PLAY_YEAR_OF_PLENTY_inv)
next
  case (PICK_YEAR_OF_PLENTY_RESOURCES r1 r2)
  then show ?thesis using assms by (auto intro: PICK_YEAR_OF_PLENTY_inv)
next
  case PLAY_MONOPOLY
  then show ?thesis using assms by (auto intro: PLAY_MONOPOLY_inv)
next
  case (PICK_MONOPOLY_RESOURCE r)
  then show ?thesis using assms by (auto intro: PICK_MONOPOLY_inv)
next
  case (MARITIME_TRADE give receive)
  then show ?thesis using assms by (auto intro: MARITIME_TRADE_inv)
next
  case END_TURN
  then show ?thesis using assms by (auto intro: END_TURN_inv)
qed

lemma reachable_game_inv: "reachable s \<Longrightarrow> game_inv s"
proof (induction rule: reachable.induct)
  case (reachable_reset n n_players terrains numbers deck hs s)
  then show ?case by (auto intro: reset_inv)
next
  case (reachable_step s acts a g s' reward don info)
  from reachable_step.hyps(4) have "apply_action g a s = Some s'" by (simp add: step_Some)
  from apply_action_inv[OF reachable_step.IH reachable_step.hyps(2,3) this] show ?case .
qed

text \<open>
  C1. In every state reachable from a reset by legal actions, and for each resource, the
  bank's counter and every player's counter are not negative, and the players' counters
  and the bank's counter add up to 19.
\<close>

theorem C1_resource_conservation:
  assumes "reachable s"
  shows "0 \<le> bank s r \<and> (\<forall>p\<in>set (players s). 0 \<le> resources p r)
         \<and> (\<Sum>p\<leftarrow>players s. resources p r) + bank s r = 19"
proof -
  from reachable_game_inv[OF assms] have "conserved (hands s) (bank s)"
    by (rule game_inv_conserved)
  then show ?thesis
    by (simp add: conserved_def hands_def held_def BANK_PER_RESOURCE_def comp_def)
qed

subsection \<open>Maritime trade\<close>

lemma maritime_enumerated:
  assumes "phase s = TRADE_BUILD_PLAY" and "get_legal_actions s = Some acts"
    and "topology s = Some topo"
  shows "MARITIME_TRADE give receive \<in> set acts \<longleftrightarrow>
           give \<noteq> receive
           \<and> best_trade_ratio (harbors s) (player_vertices s topo (current_player s)) give
                 \<le> resources (players s ! current_player s) give
           \<and> 1 \<le> bank s receive"
    and "current_player s < length (players s)"
    and "give \<noteq> receive \<Longrightarrow> get_player_trade_ratio s (current_player s) give
           = Some (best_trade_ratio (harbors s) (player_vertices s topo (current_player s)) give)"
proof -
  let ?cp = "current_player s"
  from assms(1,2) have t: "trade_build_play_actions s = Some acts"
    by (simp add: get_legal_actions_def)
  from trade_build_play_actions_parts[OF t] obtain roads trades where
    roads: "get_valid_road_edges s ?cp = Some roads"
    and trades: "filter_e (\<lambda>gr. is_valid_maritime_trade s ?cp (fst gr) (snd gr))
                      (List.product RESOURCES RESOURCES) = Some trades"
    by blast
  from roads show cp: "?cp < length (players s)"
    by (auto simp: get_valid_road_edges_def bind_eq_Some_conv nth_e_def split: if_splits)
  have ratio: "get_player_trade_ratio s ?cp g
           = Some (best_trade_ratio (harbors s) (player_vertices s topo ?cp) g)"
    if ne: "g \<noteq> r" for g r
  proof -
    have "(g, r) \<in> set (List.product RESOURCES RESOURCES)"
      by (cases g; cases r) (simp_all add: RESOURCES_def)
    then have "is_valid_maritime_trade s ?cp g r \<noteq> None"
      using trades unfolding filter_e_Some by (auto simp del: set_product)
    then obtain x where "get_player_trade_ratio s ?cp g = Some x"
      using ne by (cases "get_player_trade_ratio s ?cp g") (auto simp: is_valid_maritime_trade_def)
    then show ?thesis using get_player_trade_ratio_Some[OF _ assms(3)] by simp
  qed
  then show "give \<noteq> receive \<Longrightarrow> get_player_trade_ratio s ?cp give
           = Some (best_trade_ratio (harbors s) (player_vertices s topo ?cp) give)" .
  show "MARITIME_TRADE give receive \<in> set acts \<longleftrightarrow>
           give \<noteq> receive
           \<and> best_trade_ratio (harbors s) (player_vertices s topo ?cp) give
                 \<le> resources (players s ! ?cp) give
           \<and> 1 \<le> bank s receive"
    unfolding legal_MARITIME_TRADE[OF assms(2)] is_valid_maritime_trade_True
    using assms(1) cp ratio[of give receive] by auto
qed

text \<open>
  C6. In the main phase, when the enumerator returns, the trade of \<open>give\<close> for
  \<open>receive\<close> is among the legal actions exactly if the two resources differ, the current
  player holds at least the ratio for \<open>give\<close> (2 with an accessible harbor of \<open>give\<close>,
  else 3 with an accessible generic harbor, else 4) and the bank holds at least one
  \<open>receive\<close>. Applying an enumerated trade returns, takes that ratio of \<open>give\<close> from the
  hand to the bank and one \<open>receive\<close> from the bank to the hand, and changes nothing
  else.
\<close>

theorem C6_maritime_trade:
  assumes "phase s = TRADE_BUILD_PLAY" and "get_legal_actions s = Some acts"
    and "topology s = Some topo"
  shows "(let p = players s ! current_player s;
              ratio = best_trade_ratio (harbors s) (player_vertices s topo (current_player s)) give
          in (MARITIME_TRADE give receive \<in> set acts \<longleftrightarrow>
                give \<noteq> receive \<and> ratio \<le> resources p give \<and> 1 \<le> bank s receive)
           \<and> (MARITIME_TRADE give receive \<in> set acts \<longrightarrow>
                apply_action g (MARITIME_TRADE give receive) s =
                  Some (s\<lparr>players := (players s)[current_player s :=
                             p\<lparr>resources := (resources p)(give := resources p give - ratio,
                                                         receive := resources p receive + 1)\<rparr>],
                          bank := (bank s)(give := bank s give + ratio,
                                           receive := bank s receive - 1)\<rparr>)))"
proof -
  note m = maritime_enumerated(1)[OF assms, of give receive] maritime_enumerated(2)[OF assms]
    maritime_enumerated(3)[OF assms, of give receive]
  let ?p = "players s ! current_player s"
  let ?ratio = "best_trade_ratio (harbors s) (player_vertices s topo (current_player s)) give"
  have "apply_action g (MARITIME_TRADE give receive) s =
                  Some (s\<lparr>players := (players s)[current_player s :=
                             ?p\<lparr>resources := (resources ?p)(give := resources ?p give - ?ratio,
                                                         receive := resources ?p receive + 1)\<rparr>],
                          bank := (bank s)(give := bank s give + ?ratio,
                                           receive := bank s receive - 1)\<rparr>)"
    if "MARITIME_TRADE give receive \<in> set acts"
  proof -
    from that m(1) have ne: "give \<noteq> receive" by simp
    have p: "add_resource receive 1 (add_resource give (- ?ratio) ?p)
               = ?p\<lparr>resources := (resources ?p)(give := resources ?p give - ?ratio,
                                                         receive := resources ?p receive + 1)\<rparr>"
      using ne by (simp add: add_resource_def)
    have b: "(\<lambda>r. bank s r + (if r = give then ?ratio else 0) - (if r = receive then 1 else 0))
               = (bank s)(give := bank s give + ?ratio, receive := bank s receive - 1)"
      using ne by (auto simp: fun_eq_iff)
    show ?thesis
      by (simp add: apply_action_def apply_maritime_trade_eq m(3)[OF ne] m(2) p b)
  qed
  then show ?thesis using m(1) by (simp add: Let_def)
qed

lemma get_player_vertices_total:
  assumes "topology s = Some topo" and "vertex_count topo \<le> length (vertex_buildings s)"
  shows "get_player_vertices s p = Some (player_vertices s topo p)"
proof -
  let ?f = "\<lambda>vid. do { b \<leftarrow> nth_e (vertex_buildings s) vid;
                                Some (case b of None \<Rightarrow> False | Some bo \<Rightarrow> snd bo = p) }"
  have "\<forall>x\<in>set [0..<vertex_count topo]. ?f x \<noteq> None"
    using assms(2) by (auto simp: nth_e_def)
  then have "filter_e ?f [0..<vertex_count topo]
               = Some (filter (\<lambda>x. ?f x = Some True) [0..<vertex_count topo])"
    unfolding filter_e_Some by simp
  then obtain pv where "get_player_vertices s p = Some pv"
    using assms(1) by (simp add: get_player_vertices_def)
  then show ?thesis using get_player_vertices_Some[OF _ assms(1)] by simp
qed

lemma is_valid_maritime_trade_total:
  assumes "get_player_vertices s p = Some pv" and "p < length (players s)"
  shows "is_valid_maritime_trade s p g r \<noteq> None"
  using assms by (auto simp: is_valid_maritime_trade_def get_player_trade_ratio_def nth_e_def)

lemma trade_example_ratio:
  "best_trade_ratio (harbors trade_example) (player_vertices trade_example standard_topology 0) r
     = (if r = Lumber then 2 else 4)"
  by (simp add: best_trade_ratio_def harbor_access_def player_vertices_def owns_vertex_def
      trade_example_def standard_topology_tables)

lemma trade_example_legal: "\<exists>acts. get_legal_actions trade_example = Some acts"
proof -
  have f: "phase trade_example = TRADE_BUILD_PLAY" "current_player trade_example = 0"
    "topology trade_example = Some standard_topology"
    "length (vertex_buildings trade_example) = 54"
    "nth_e (players trade_example) 0 = Some ((new_player 0)\<lparr>resources := empty_resources(Lumber := 4),
                                  remaining_settlements := 4\<rparr>)"
    "dev_card_deck trade_example = DEV_CARD_DISTRIBUTION"
    by (simp_all add: trade_example_def nth_e_def)
  have pv: "get_player_vertices trade_example 0
              = Some (player_vertices trade_example standard_topology 0)"
    by (rule get_player_vertices_total) (simp_all add: f standard_topology_tables)
  have "\<forall>x\<in>set (List.product RESOURCES RESOURCES).
          is_valid_maritime_trade trade_example 0 (fst x) (snd x) \<noteq> None"
    by (intro ballI is_valid_maritime_trade_total[OF pv]) (simp add: trade_example_def)
  then have tr: "filter_e (\<lambda>gr. is_valid_maritime_trade trade_example 0 (fst gr) (snd gr))
                      (List.product RESOURCES RESOURCES)
           = Some (filter (\<lambda>gr. is_valid_maritime_trade trade_example 0 (fst gr) (snd gr) = Some True)
                      (List.product RESOURCES RESOURCES))"
    unfolding filter_e_Some by simp
  have r: "get_valid_road_edges trade_example 0 = Some []"
    by (simp add: get_valid_road_edges_def f has_resources_iff new_player_def empty_resources_def
        exI[of _ Brick])
  have st: "get_valid_settlement_vertices trade_example 0 = Some []"
    by (simp add: get_valid_settlement_vertices_def f has_resources_iff new_player_def
        empty_resources_def exI[of _ Brick])
  have c: "get_valid_city_vertices trade_example 0 = Some []"
    by (simp add: get_valid_city_vertices_def f has_resources_iff new_player_def
        empty_resources_def exI[of _ Ore])
  have b: "can_buy_dev_card trade_example 0 = Some False"
    by (simp add: can_buy_dev_card_def f has_resources_iff new_player_def
        empty_resources_def exI[of _ Ore])
  have d: "can_play_dev_card trade_example 0 x = Some False" for x
    by (simp add: can_play_dev_card_def f new_player_def)
  show ?thesis
    by (simp add: get_legal_actions_def trade_build_play_actions_def f r st c b d tr)
qed

theorem C6_maritime_trade_witness:
  "phase trade_example = TRADE_BUILD_PLAY \<and> topology trade_example = Some standard_topology
   \<and> best_trade_ratio (harbors trade_example)
        (player_vertices trade_example standard_topology (current_player trade_example)) Lumber = 2
   \<and> resources (players trade_example ! 0) Lumber = 4 \<and> bank trade_example Lumber = 15
   \<and> (\<exists>acts. get_legal_actions trade_example = Some acts
         \<and> MARITIME_TRADE Lumber Brick \<in> set acts
         \<and> (\<exists>s'. apply_action \<lparr>draw1 = 0, draw2 = 0\<rparr> (MARITIME_TRADE Lumber Brick) trade_example
                    = Some s'
                \<and> resources (players s' ! 0) Lumber = 2 \<and> resources (players s' ! 0) Brick = 1
                \<and> bank s' Lumber = 17 \<and> bank s' Brick = 18))"
proof -
  have f: "phase trade_example = TRADE_BUILD_PLAY" "current_player trade_example = 0"
    "topology trade_example = Some standard_topology"
    "resources (players trade_example ! 0) = empty_resources(Lumber := 4)"
    "bank trade_example = (\<lambda>r. BANK_PER_RESOURCE)(Lumber := 15)"
    "length (players trade_example) = 3"
    by (simp_all add: trade_example_def new_player_def)
  from trade_example_legal obtain acts where a: "get_legal_actions trade_example = Some acts"
    by blast
  note c = C6_maritime_trade[OF f(1) a f(3), of Lumber Brick "\<lparr>draw1 = 0, draw2 = 0\<rparr>",
      unfolded Let_def f(2) trade_example_ratio]
  from c have m: "MARITIME_TRADE Lumber Brick \<in> set acts"
    by (simp add: f BANK_PER_RESOURCE_def)
  with c obtain s' where
    s': "apply_action \<lparr>draw1 = 0, draw2 = 0\<rparr> (MARITIME_TRADE Lumber Brick) trade_example = Some s'"
    and e: "s' = trade_example\<lparr>players := (players trade_example)[0 :=
                   (players trade_example ! 0)\<lparr>resources := (resources (players trade_example ! 0))
                      (Lumber := resources (players trade_example ! 0) Lumber - 2,
                       Brick := resources (players trade_example ! 0) Brick + 1)\<rparr>],
                 bank := (bank trade_example)(Lumber := bank trade_example Lumber + 2,
                                              Brick := bank trade_example Brick - 1)\<rparr>"
    by simp
  have "resources (players s' ! 0) Lumber = 2 \<and> resources (players s' ! 0) Brick = 1
                \<and> bank s' Lumber = 17 \<and> bank s' Brick = 18"
    by (simp add: e f empty_resources_def BANK_PER_RESOURCE_def)
  with s' m a have "\<exists>acts. get_legal_actions trade_example = Some acts
         \<and> MARITIME_TRADE Lumber Brick \<in> set acts
         \<and> (\<exists>s'. apply_action \<lparr>draw1 = 0, draw2 = 0\<rparr> (MARITIME_TRADE Lumber Brick) trade_example
                    = Some s'
                \<and> resources (players s' ! 0) Lumber = 2 \<and> resources (players s' ! 0) Brick = 1
                \<and> bank s' Lumber = 17 \<and> bank s' Brick = 18)"
    by blast
  then show ?thesis using trade_example_ratio[of Lumber] by (simp add: f empty_resources_def)
qed

subsection \<open>The longest-road award\<close>

lemma fold_max_ge_init: "(a::int) \<le> fold max ls a"
proof (induction ls arbitrary: a)
  case Nil
  show ?case by simp
next
  case (Cons x xs)
  have "a \<le> max x a" by simp
  also have "\<dots> \<le> fold max xs (max x a)" by (rule Cons.IH)
  finally show ?case by simp
qed

lemma fold_max_ge_elem: "x \<in> set ls \<Longrightarrow> (x::int) \<le> fold max ls a"
proof (induction ls arbitrary: a)
  case Nil
  then show ?case by simp
next
  case (Cons y ys)
  show ?case
  proof (cases "x = y")
    case True
    have "x \<le> max y a" using True by simp
    also have "\<dots> \<le> fold max ys (max y a)" by (rule fold_max_ge_init)
    finally show ?thesis by simp
  next
    case False
    then have "x \<in> set ys" using Cons.prems by simp
    from Cons.IH[OF this] show ?thesis by simp
  qed
qed

lemma fold_max_mem: "fold max ls a = (a::int) \<or> fold max ls a \<in> set ls"
proof (induction ls arbitrary: a)
  case Nil
  show ?case by simp
next
  case (Cons y ys)
  from Cons.IH[of "max y a"] show ?case by (auto simp: max_def split: if_splits)
qed

lemma index_of_None_iff: "index_of x ys = None \<longleftrightarrow> x \<notin> set ys"
  by (induction ys) auto

lemma index_of_snoc:
  "index_of x (ys @ [z]) =
     (case index_of x ys of Some i \<Rightarrow> Some i
      | None \<Rightarrow> if z = x then Some (length ys) else None)"
  by (induction ys) (auto split: option.splits)

lemma index_of_Some:
  assumes "index_of x ys = Some i"
  shows "i < length ys \<and> ys ! i = x \<and> (\<forall>j<i. ys ! j \<noteq> x)"
  using assms
proof (induction ys arbitrary: i)
  case Nil
  then show ?case by simp
next
  case (Cons y ys)
  show ?case
  proof (cases "y = x")
    case True
    then show ?thesis using Cons.prems by simp
  next
    case False
    with Cons.prems obtain k where k: "index_of x ys = Some k" "i = Suc k" by auto
    from Cons.IH[OF k(1)] False show ?thesis
      by (auto simp: k(2) nth_Cons split: nat.splits)
  qed
qed

lemma map_e_snoc:
  "map_e f (xs @ [x]) = do { ys \<leftarrow> map_e f xs; y \<leftarrow> f x; Some (ys @ [y]) }"
  by (induction xs) (simp_all add: Option.bind_assoc cong: Option.bind_cong)

lemma map_e_nth:
  assumes "map_e f [0..<n] = Some ls"
  shows "length ls = n" and "\<And>p. p < n \<Longrightarrow> f p = Some (ls ! p)"
proof -
  from assms have l: "list_all2 (\<lambda>x y. f x = Some y) [0..<n] ls" by (simp add: map_e_Some)
  then show "length ls = n" by (auto dest: list_all2_lengthD)
  show "f p = Some (ls ! p)" if "p < n" for p
    using list_all2_nthD[OF l, of p] that by simp
qed

lemma scratch_scan:
  assumes "fold_e (lr_scan_scratch s) [0..<n] (h0, l0) = Some acc"
  shows "\<exists>ls. map_e (calculate_longest_road s) [0..<n] = Some ls
            \<and> acc = (if MIN_LONGEST_ROAD \<le> fold max ls 0 \<and> l0 < fold max ls 0
                      then (index_of (fold max ls 0) ls, fold max ls 0) else (h0, l0))"
  using assms
proof (induction n arbitrary: acc)
  case 0
  then show ?case by (simp add: MIN_LONGEST_ROAD_def)
next
  case (Suc n)
  from Suc.prems obtain a where a: "fold_e (lr_scan_scratch s) [0..<n] (h0, l0) = Some a"
    and st: "lr_scan_scratch s n a = Some acc"
    by (auto simp: fold_e_append bind_eq_Some_conv)
  from Suc.IH[OF a] obtain ls where ls: "map_e (calculate_longest_road s) [0..<n] = Some ls"
    and av: "a = (if MIN_LONGEST_ROAD \<le> fold max ls 0 \<and> l0 < fold max ls 0
                      then (index_of (fold max ls 0) ls, fold max ls 0) else (h0, l0))"
    by blast
  from st obtain l where l: "calculate_longest_road s n = Some l"
    and acc: "acc = (if l \<ge> MIN_LONGEST_ROAD \<and> l > snd a then (Some n, l) else a)"
    by (cases a) (auto simp: lr_scan_scratch_def bind_eq_Some_conv)
  define m where "m = fold max ls 0"
  have len: "length ls = n" using map_e_nth(1)[OF ls] .
  have le: "\<And>x. x \<in> set ls \<Longrightarrow> x \<le> m" unfolding m_def by (rule fold_max_ge_elem)
  have mem: "m = 0 \<or> m \<in> set ls" unfolding m_def by (rule fold_max_mem)
  have m': "fold max (ls @ [l]) 0 = max l m" by (simp add: m_def)
  have "map_e (calculate_longest_road s) [0..<Suc n] = Some (ls @ [l])"
    by (simp add: map_e_snoc ls l)
  moreover have "acc = (if MIN_LONGEST_ROAD \<le> max l m \<and> l0 < max l m
                      then (index_of (max l m) (ls @ [l]), max l m) else (h0, l0))"
  proof (cases "MIN_LONGEST_ROAD \<le> m \<and> l0 < m")
    case True
    then have a': "a = (index_of m ls, m)" using av by (simp add: m_def)
    show ?thesis
    proof (cases "l \<ge> MIN_LONGEST_ROAD \<and> l > m")
      case T: True
      then have "l \<notin> set ls" using le by force
      then have "index_of l (ls @ [l]) = Some n"
        by (simp add: index_of_snoc index_of_None_iff[THEN iffD2] len)
      then show ?thesis using T True by (simp add: acc a' max_def)
    next
      case F: False
      then have lm: "l \<le> m" using True by auto
      from True mem have "m \<in> set ls" by (auto simp: MIN_LONGEST_ROAD_def)
      then obtain i where "index_of m ls = Some i"
        using index_of_None_iff[of m ls] by (cases "index_of m ls") auto
      then have "index_of m (ls @ [l]) = index_of m ls" by (simp add: index_of_snoc)
      then show ?thesis using F True lm by (simp add: acc a' max_def)
    qed
  next
    case False
    then have a': "a = (h0, l0)" using av by (simp add: m_def)
    show ?thesis
    proof (cases "l \<ge> MIN_LONGEST_ROAD \<and> l > l0")
      case T: True
      then have ml: "m < l" using False by auto
      then have "l \<notin> set ls" using le by force
      then have "index_of l (ls @ [l]) = Some n"
        by (simp add: index_of_snoc index_of_None_iff[THEN iffD2] len)
      then show ?thesis using T ml by (simp add: acc a' max_def)
    next
      case F: False
      then show ?thesis using False by (auto simp: acc a' max_def)
    qed
  qed
  ultimately show ?case by (simp add: m_def)
qed

lemma keep_step_holder:
  "lr_scan_keep s x (Some h, l0) = lr_scan_scratch s x (Some h, l0)"
  by (cases "calculate_longest_road s x") (simp_all add: lr_scan_keep_def lr_scan_scratch_def)

lemma scratch_step_holder:
  assumes "lr_scan_scratch s x (Some h, l0) = Some a"
  shows "\<exists>h' l'. a = (Some h', l')"
  using assms by (auto simp: lr_scan_scratch_def bind_eq_Some_conv)

lemma keep_scan_holder:
  "fold_e (lr_scan_keep s) xs (Some h, l0) = fold_e (lr_scan_scratch s) xs (Some h, l0)"
proof (induction xs arbitrary: h l0)
  case Nil
  show ?case by simp
next
  case (Cons x xs)
  show ?case
  proof (cases "lr_scan_scratch s x (Some h, l0)")
    case None
    then show ?thesis by (simp add: keep_step_holder)
  next
    case (Some a)
    from scratch_step_holder[OF Some] obtain h' l' where "a = (Some h', l')" by blast
    then show ?thesis using Some by (simp add: keep_step_holder Cons.IH)
  qed
qed

lemma fold_max_index:
  assumes "MIN_LONGEST_ROAD \<le> fold max ls 0"
  shows "\<exists>i. index_of (fold max ls 0) ls = Some i \<and> i < length ls \<and> ls ! i = fold max ls 0"
proof -
  from fold_max_mem[of ls 0] assms have "fold max ls 0 \<in> set ls"
    by (auto simp: MIN_LONGEST_ROAD_def)
  then obtain i where i: "index_of (fold max ls 0) ls = Some i"
    using index_of_None_iff[of "fold max ls 0" ls] by (cases "index_of (fold max ls 0) ls") auto
  from index_of_Some[OF i] i show ?thesis by blast
qed

lemma update_longest_road_holder:
  assumes "update_longest_road s = Some s'" and "longest_road_player s = Some h"
    and "h < player_count s"
  shows "\<exists>ls. map_e (calculate_longest_road s) [0..<player_count s] = Some ls
          \<and> (longest_road_player s', longest_road_length s') =
              (if MIN_LONGEST_ROAD \<le> fold max ls 0 \<and> longest_road_length s < fold max ls 0
               then (index_of (fold max ls 0) ls, fold max ls 0)
               else if ls ! h < MIN_LONGEST_ROAD then award_from_scratch ls
               else (Some h, longest_road_length s))"
proof -
  let ?n = "player_count s"
  let ?L = "longest_road_length s"
  from assms(1,2) obtain acc acc' where
    acc: "fold_e (lr_scan_keep s) [0..<?n] (Some h, ?L) = Some acc"
    and acc': "(case fst acc of
                     None \<Rightarrow> Some acc
                   | Some holder \<Rightarrow>
                       do { cur \<leftarrow> calculate_longest_road s holder;
                            if cur < MIN_LONGEST_ROAD then
                              fold_e (lr_scan_scratch s) [0..<?n] (None, 0)
                            else Some acc }) = Some acc'"
    and s': "s' = s\<lparr>longest_road_player := fst acc', longest_road_length := snd acc'\<rparr>"
    by (auto simp: update_longest_road_def bind_eq_Some_conv)
  from acc have "fold_e (lr_scan_scratch s) [0..<?n] (Some h, ?L) = Some acc"
    by (simp add: keep_scan_holder)
  from scratch_scan[OF this] obtain ls where
    ls: "map_e (calculate_longest_road s) [0..<?n] = Some ls"
    and av: "acc = (if MIN_LONGEST_ROAD \<le> fold max ls 0 \<and> ?L < fold max ls 0
                      then (index_of (fold max ls 0) ls, fold max ls 0) else (Some h, ?L))"
    by blast
  note n = map_e_nth[OF ls]
  have aw: "(longest_road_player s', longest_road_length s') = acc'" by (simp add: s')
  have "acc' = (if MIN_LONGEST_ROAD \<le> fold max ls 0 \<and> ?L < fold max ls 0
               then (index_of (fold max ls 0) ls, fold max ls 0)
               else if ls ! h < MIN_LONGEST_ROAD then award_from_scratch ls
               else (Some h, ?L))"
  proof (cases "MIN_LONGEST_ROAD \<le> fold max ls 0 \<and> ?L < fold max ls 0")
    case True
    from fold_max_index[of ls] True obtain i where i: "index_of (fold max ls 0) ls = Some i"
      "i < length ls" "ls ! i = fold max ls 0" by blast
    then have "calculate_longest_road s i = Some (fold max ls 0)" using n by simp
    then show ?thesis using acc' True av i(1) by simp
  next
    case False
    then have a: "acc = (Some h, ?L)" using av by simp
    have cur: "calculate_longest_road s h = Some (ls ! h)" using n(2)[OF assms(3)] .
    show ?thesis
    proof (cases "ls ! h < MIN_LONGEST_ROAD")
      case F: False
      then show ?thesis using acc' a cur False by auto
    next
      case T: True
      then have "fold_e (lr_scan_scratch s) [0..<?n] (None, 0) = Some acc'"
        using acc' a cur by simp
      from scratch_scan[OF this] ls have "acc' =
          (if MIN_LONGEST_ROAD \<le> fold max ls 0 \<and> 0 < fold max ls 0
                      then (index_of (fold max ls 0) ls, fold max ls 0) else (None, 0))"
        by simp
      then have "acc' = award_from_scratch ls"
        by (auto simp: award_from_scratch_def Let_def MIN_LONGEST_ROAD_def)
      then show ?thesis using T False by auto
    qed
  qed
  then show ?thesis using ls aw by simp
qed

subsection \<open>What the road length depends on\<close>

lemma lr_dfs_edges_step:
  "lr_dfs_edges s topo player player_edges vertex visited_edges (eid # es) max_len =
     (if eid \<notin> set player_edges \<or> eid \<in> set visited_edges then
        lr_dfs_edges s topo player player_edges vertex visited_edges es max_len
      else
        do { ends \<leftarrow> nth_e (edge_endpoints topo) eid;
             blocked \<leftarrow> blocked_at s player (if fst ends = vertex then snd ends else fst ends);
             if blocked then
               lr_dfs_edges s topo player player_edges vertex visited_edges es (max max_len 1)
             else
               do { sub \<leftarrow> lr_dfs s topo player player_edges
                            (if fst ends = vertex then snd ends else fst ends)
                            (eid # visited_edges);
                    lr_dfs_edges s topo player player_edges vertex visited_edges es
                      (max max_len (1 + sub)) } })"
  by (simp add: blocked_at_def Let_def cong: Option.bind_cong)

lemma blocked_at_Some:
  "blocked_at s p v = Some b \<longleftrightarrow>
     (\<exists>bldg. nth_e (vertex_buildings s) v = Some bldg
        \<and> b = (case bldg of None \<Rightarrow> False | Some bo \<Rightarrow> snd bo \<noteq> p))"
  by (auto simp: blocked_at_def bind_eq_Some_conv)

lemma lr_dfs_induct [case_names dfs Nil Cons]:
  assumes dfs: "\<And>s topo p pes v vis.
        (\<And>es. nth_e (vertex_adjacent_edges topo) v = Some es \<Longrightarrow> Q s topo p pes v vis es 0)
        \<Longrightarrow> P s topo p pes v vis"
    and nil: "\<And>s topo p pes v vis m. Q s topo p pes v vis [] m"
    and cons: "\<And>s topo p pes v vis eid es m.
        (eid \<notin> set pes \<or> eid \<in> set vis \<Longrightarrow> Q s topo p pes v vis es m) \<Longrightarrow>
        (\<And>ends. eid \<in> set pes \<Longrightarrow> eid \<notin> set vis \<Longrightarrow>
            nth_e (edge_endpoints topo) eid = Some ends \<Longrightarrow>
            blocked_at s p (if fst ends = v then snd ends else fst ends) = Some True \<Longrightarrow>
            Q s topo p pes v vis es (max m 1)) \<Longrightarrow>
        (\<And>ends. eid \<in> set pes \<Longrightarrow> eid \<notin> set vis \<Longrightarrow>
            nth_e (edge_endpoints topo) eid = Some ends \<Longrightarrow>
            blocked_at s p (if fst ends = v then snd ends else fst ends) = Some False \<Longrightarrow>
            P s topo p pes (if fst ends = v then snd ends else fst ends) (eid # vis)) \<Longrightarrow>
        (\<And>ends sub. eid \<in> set pes \<Longrightarrow> eid \<notin> set vis \<Longrightarrow>
            nth_e (edge_endpoints topo) eid = Some ends \<Longrightarrow>
            blocked_at s p (if fst ends = v then snd ends else fst ends) = Some False \<Longrightarrow>
            lr_dfs s topo p pes (if fst ends = v then snd ends else fst ends) (eid # vis) = Some sub \<Longrightarrow>
            Q s topo p pes v vis es (max m (1 + sub))) \<Longrightarrow>
        Q s topo p pes v vis (eid # es) m"
  shows "P s topo p pes v vis" and "Q s topo p pes v vis es m"
proof (induction s topo p pes v vis and s topo p pes v vis es m rule: lr_dfs_lr_dfs_edges.induct)
  case (1 s topo player player_edges vertex visited_edges)
  show ?case by (rule dfs) (rule "1.IH")
next
  case (2 s topo player player_edges vertex visited_edges max_len)
  show ?case by (rule nil)
next
  case (3 s topo player player_edges vertex visited_edges eid es max_len)
  show ?case
  proof (rule cons)
    assume "eid \<notin> set player_edges \<or> eid \<in> set visited_edges"
    then show "Q s topo player player_edges vertex visited_edges es max_len"
      using "3.IH"(1,2) by blast
  next
    fix ends
    assume a: "eid \<in> set player_edges" "eid \<notin> set visited_edges"
      "nth_e (edge_endpoints topo) eid = Some ends"
      "blocked_at s player (if fst ends = vertex then snd ends else fst ends) = Some True"
    from a(4) obtain bldg where
      b: "nth_e (vertex_buildings s) (if fst ends = vertex then snd ends else fst ends) = Some bldg"
      "(case bldg of None \<Rightarrow> False | Some bo \<Rightarrow> snd bo \<noteq> player)"
      unfolding blocked_at_Some by blast
    show "Q s topo player player_edges vertex visited_edges es (max max_len 1)"
      by (rule "3.IH"(3)[OF _ a(2,3) refl b(1) refl b(2)]) (simp add: a(1))
  next
    fix ends
    assume a: "eid \<in> set player_edges" "eid \<notin> set visited_edges"
      "nth_e (edge_endpoints topo) eid = Some ends"
      "blocked_at s player (if fst ends = vertex then snd ends else fst ends) = Some False"
    from a(4) obtain bldg where
      b: "nth_e (vertex_buildings s) (if fst ends = vertex then snd ends else fst ends) = Some bldg"
      "\<not> (case bldg of None \<Rightarrow> False | Some bo \<Rightarrow> snd bo \<noteq> player)"
      unfolding blocked_at_Some by blast
    show "P s topo player player_edges (if fst ends = vertex then snd ends else fst ends)
            (eid # visited_edges)"
      by (rule "3.IH"(4)[OF _ a(2,3) refl b(1) refl b(2)]) (simp add: a(1))
  next
    fix ends sub
    assume a: "eid \<in> set player_edges" "eid \<notin> set visited_edges"
      "nth_e (edge_endpoints topo) eid = Some ends"
      "blocked_at s player (if fst ends = vertex then snd ends else fst ends) = Some False"
      "lr_dfs s topo player player_edges (if fst ends = vertex then snd ends else fst ends)
         (eid # visited_edges) = Some sub"
    from a(4) obtain bldg where
      b: "nth_e (vertex_buildings s) (if fst ends = vertex then snd ends else fst ends) = Some bldg"
      "\<not> (case bldg of None \<Rightarrow> False | Some bo \<Rightarrow> snd bo \<noteq> player)"
      unfolding blocked_at_Some by blast
    show "Q s topo player player_edges vertex visited_edges es (max max_len (1 + sub))"
      by (rule "3.IH"(5)[OF _ a(2,3) refl b(1) refl b(2) a(5)]) (simp add: a(1))
  qed
qed

lemma lr_dfs_edges_step_Some:
  assumes "lr_dfs_edges s topo p pes v vis (eid # es) m = Some a"
    and "eid \<in> set pes" and "eid \<notin> set vis"
  obtains ends bl where "nth_e (edge_endpoints topo) eid = Some ends"
    and "blocked_at s p (if fst ends = v then snd ends else fst ends) = Some bl"
    and "(if bl then lr_dfs_edges s topo p pes v vis es (max m 1)
          else do { sub \<leftarrow> lr_dfs s topo p pes
                            (if fst ends = v then snd ends else fst ends) (eid # vis);
                    lr_dfs_edges s topo p pes v vis es (max m (1 + sub)) }) = Some a"
proof -
  have c: "\<not> (eid \<notin> set pes \<or> eid \<in> set vis)" using assms(2,3) by simp
  from assms(1) have "do { ends \<leftarrow> nth_e (edge_endpoints topo) eid;
             blocked \<leftarrow> blocked_at s p (if fst ends = v then snd ends else fst ends);
             if blocked then
               lr_dfs_edges s topo p pes v vis es (max m 1)
             else
               do { sub \<leftarrow> lr_dfs s topo p pes
                            (if fst ends = v then snd ends else fst ends)
                            (eid # vis);
                    lr_dfs_edges s topo p pes v vis es
                      (max m (1 + sub)) } } = Some a"
    unfolding lr_dfs_edges_step if_not_P[OF c] .
  then show ?thesis unfolding bind_eq_Some_conv using that by blast
qed

lemma lr_dfs_cong:
  assumes "\<And>v. blocked_at s' p v = blocked_at s p v"
  shows "lr_dfs s' topo p pes v vis = lr_dfs s topo p pes v vis"
    and "lr_dfs_edges s' topo p pes v vis es m = lr_dfs_edges s topo p pes v vis es m"
  using assms
proof (induction s topo p pes v vis and s topo p pes v vis es m rule: lr_dfs_induct)
  case (dfs s topo p pes v vis)
  show ?case
  proof (cases "nth_e (vertex_adjacent_edges topo) v")
    case None
    show ?thesis unfolding lr_dfs.simps None by simp
  next
    case (Some es)
    from dfs.IH[OF Some dfs.prems] show ?thesis unfolding lr_dfs.simps Some by simp
  qed
next
  case (Nil s topo p pes v vis m)
  show ?case by simp
next
  case (Cons s topo p pes v vis eid es m)
  show ?case
  proof (cases "eid \<notin> set pes \<or> eid \<in> set vis")
    case True
    from Cons.IH(1)[OF True Cons.prems] True show ?thesis unfolding lr_dfs_edges_step by simp
  next
    case False
    then have in_pes: "eid \<in> set pes" and nv: "eid \<notin> set vis" by simp_all
    show ?thesis
    proof (cases "nth_e (edge_endpoints topo) eid")
      case None
      show ?thesis using False unfolding lr_dfs_edges_step None by simp
    next
      case (Some ends)
      define nx where "nx = (if fst ends = v then snd ends else fst ends)"
      have b: "blocked_at s' p nx = blocked_at s p nx" by (rule Cons.prems)
      show ?thesis
      proof (cases "blocked_at s p nx")
        case None
        then show ?thesis using False b unfolding lr_dfs_edges_step Some nx_def by simp
      next
        case (Some bl)
        note bl = this
        show ?thesis
        proof (cases bl)
          case True
          from Cons.IH(2)[OF in_pes nv \<open>nth_e (edge_endpoints topo) eid = Some ends\<close> _ Cons.prems]
            bl True
          have "lr_dfs_edges s' topo p pes v vis es (max m 1)
                  = lr_dfs_edges s topo p pes v vis es (max m 1)" by (simp add: nx_def)
          then show ?thesis using False b bl True
            unfolding lr_dfs_edges_step \<open>nth_e (edge_endpoints topo) eid = Some ends\<close> nx_def
            by simp
        next
          case F: False
          have bf: "blocked_at s p (if fst ends = v then snd ends else fst ends) = Some False"
            using bl F by (simp add: nx_def)
          from Cons.IH(3)[OF in_pes nv \<open>nth_e (edge_endpoints topo) eid = Some ends\<close> bf Cons.prems]
          have sub: "lr_dfs s' topo p pes nx (eid # vis) = lr_dfs s topo p pes nx (eid # vis)"
            by (simp add: nx_def)
          show ?thesis
          proof (cases "lr_dfs s topo p pes nx (eid # vis)")
            case None
            then show ?thesis using False b bl F sub
              unfolding lr_dfs_edges_step \<open>nth_e (edge_endpoints topo) eid = Some ends\<close> nx_def
              by simp
          next
            case (Some x)
            then have "lr_dfs s topo p pes (if fst ends = v then snd ends else fst ends) (eid # vis)
                         = Some x" by (simp add: nx_def)
            from Cons.IH(4)[OF in_pes nv \<open>nth_e (edge_endpoints topo) eid = Some ends\<close> bf this
                Cons.prems]
            show ?thesis using False b bl F sub Some
              unfolding lr_dfs_edges_step \<open>nth_e (edge_endpoints topo) eid = Some ends\<close> nx_def
              by simp
          qed
        qed
      qed
    qed
  qed
qed

lemma lr_dfs_lower:
  shows "lr_dfs s topo p pes v vis = Some a \<Longrightarrow> 0 \<le> a"
    and "lr_dfs_edges s topo p pes v vis es m = Some a \<Longrightarrow> m \<le> a"
proof (induction s topo p pes v vis and s topo p pes v vis es m arbitrary: a and a
    rule: lr_dfs_induct)
  case (dfs s topo p pes v vis)
  from dfs.prems obtain es where es: "nth_e (vertex_adjacent_edges topo) v = Some es"
    and r: "lr_dfs_edges s topo p pes v vis es 0 = Some a"
    unfolding lr_dfs.simps bind_eq_Some_conv by blast
  from dfs.IH[OF es r] show ?case .
next
  case (Nil s topo p pes v vis m)
  then show ?case by simp
next
  case (Cons s topo p pes v vis eid es m)
  show ?case
  proof (cases "eid \<notin> set pes \<or> eid \<in> set vis")
    case True
    with Cons.prems have "lr_dfs_edges s topo p pes v vis es m = Some a"
      unfolding lr_dfs_edges_step by simp
    from Cons.IH(1)[OF True this] show ?thesis .
  next
    case False
    then have in_pes: "eid \<in> set pes" and nv: "eid \<notin> set vis" by simp_all
    from lr_dfs_edges_step_Some[OF Cons.prems in_pes nv]
    obtain ends bl where ends: "nth_e (edge_endpoints topo) eid = Some ends"
      and bl: "blocked_at s p (if fst ends = v then snd ends else fst ends) = Some bl"
      and r: "(if bl then lr_dfs_edges s topo p pes v vis es (max m 1)
               else do { sub \<leftarrow> lr_dfs s topo p pes
                            (if fst ends = v then snd ends else fst ends) (eid # vis);
                         lr_dfs_edges s topo p pes v vis es (max m (1 + sub)) }) = Some a"
      by blast
    show ?thesis
    proof (cases bl)
      case True
      with r have "lr_dfs_edges s topo p pes v vis es (max m 1) = Some a" by simp
      from Cons.IH(2)[OF in_pes nv ends _ this] bl True show ?thesis by simp
    next
      case F: False
      with r obtain sub where
        sub: "lr_dfs s topo p pes (if fst ends = v then snd ends else fst ends) (eid # vis) = Some sub"
        and r': "lr_dfs_edges s topo p pes v vis es (max m (1 + sub)) = Some a"
        by (auto simp: bind_eq_Some_conv)
      from Cons.IH(4)[OF in_pes nv ends _ sub r'] bl F show ?thesis by simp
    qed
  qed
qed

text \<open>A building of another player more never makes a road longer.\<close>

lemma lr_dfs_mono:
  assumes "\<And>v b. blocked_at s p v = Some b \<Longrightarrow>
             (\<exists>b'. blocked_at s1 p v = Some b' \<and> (b \<longrightarrow> b'))"
  shows "lr_dfs s topo p pes v vis = Some a \<Longrightarrow> lr_dfs s1 topo p pes v vis = Some b \<Longrightarrow> b \<le> a"
    and "lr_dfs_edges s topo p pes v vis es m = Some a \<Longrightarrow>
         lr_dfs_edges s1 topo p pes v vis es m1 = Some b \<Longrightarrow> m1 \<le> m \<Longrightarrow> b \<le> a"
  using assms
proof (induction s topo p pes v vis and s topo p pes v vis es m arbitrary: a b and a b m1
    rule: lr_dfs_induct)
  case (dfs s topo p pes v vis)
  from dfs.prems(1) obtain es where es: "nth_e (vertex_adjacent_edges topo) v = Some es"
    and r: "lr_dfs_edges s topo p pes v vis es 0 = Some a"
    unfolding lr_dfs.simps bind_eq_Some_conv by blast
  from dfs.prems(2) es have r1: "lr_dfs_edges s1 topo p pes v vis es 0 = Some b"
    unfolding lr_dfs.simps by simp
  from dfs.IH[OF es r r1 _ dfs.prems(3)] show ?case by simp
next
  case (Nil s topo p pes v vis m)
  then show ?case by simp
next
  case (Cons s topo p pes v vis eid es m)
  note more = Cons.prems(4)
  show ?case
  proof (cases "eid \<notin> set pes \<or> eid \<in> set vis")
    case True
    with Cons.prems(1,2) have "lr_dfs_edges s topo p pes v vis es m = Some a"
      "lr_dfs_edges s1 topo p pes v vis es m1 = Some b"
      unfolding lr_dfs_edges_step by simp_all
    from Cons.IH(1)[OF True this Cons.prems(3) more] show ?thesis .
  next
    case False
    then have in_pes: "eid \<in> set pes" and nv: "eid \<notin> set vis" by simp_all
    from lr_dfs_edges_step_Some[OF Cons.prems(1) in_pes nv]
    obtain ends bl where ends: "nth_e (edge_endpoints topo) eid = Some ends"
      and bl: "blocked_at s p (if fst ends = v then snd ends else fst ends) = Some bl"
      and r: "(if bl then lr_dfs_edges s topo p pes v vis es (max m 1)
               else do { sub \<leftarrow> lr_dfs s topo p pes
                            (if fst ends = v then snd ends else fst ends) (eid # vis);
                         lr_dfs_edges s topo p pes v vis es (max m (1 + sub)) }) = Some a"
      by blast
    from lr_dfs_edges_step_Some[OF Cons.prems(2) in_pes nv]
    obtain ends1 bl1 where e1: "nth_e (edge_endpoints topo) eid = Some ends1"
      and bl1': "blocked_at s1 p (if fst ends1 = v then snd ends1 else fst ends1) = Some bl1"
      and r1': "(if bl1 then lr_dfs_edges s1 topo p pes v vis es (max m1 1)
               else do { sub \<leftarrow> lr_dfs s1 topo p pes
                            (if fst ends1 = v then snd ends1 else fst ends1) (eid # vis);
                         lr_dfs_edges s1 topo p pes v vis es (max m1 (1 + sub)) }) = Some b"
      by blast
    have ee: "ends1 = ends" using e1 ends by simp
    have bl1: "blocked_at s1 p (if fst ends = v then snd ends else fst ends) = Some bl1"
      using bl1' unfolding ee .
    have r1: "(if bl1 then lr_dfs_edges s1 topo p pes v vis es (max m1 1)
               else do { sub \<leftarrow> lr_dfs s1 topo p pes
                            (if fst ends = v then snd ends else fst ends) (eid # vis);
                         lr_dfs_edges s1 topo p pes v vis es (max m1 (1 + sub)) }) = Some b"
      using r1' unfolding ee .
    from more[OF bl] bl1 have imp: "bl \<longrightarrow> bl1" by simp
    show ?thesis
    proof (cases bl)
      case True
      with imp have t1: bl1 by simp
      from r True have a: "lr_dfs_edges s topo p pes v vis es (max m 1) = Some a" by simp
      from r1 t1 have b: "lr_dfs_edges s1 topo p pes v vis es (max m1 1) = Some b" by simp
      from Cons.IH(2)[OF in_pes nv ends _ a b _ more] bl True Cons.prems(3) show ?thesis by simp
    next
      case F: False
      with r obtain sub where
        sub: "lr_dfs s topo p pes (if fst ends = v then snd ends else fst ends) (eid # vis) = Some sub"
        and a: "lr_dfs_edges s topo p pes v vis es (max m (1 + sub)) = Some a"
        by (auto simp: bind_eq_Some_conv)
      have bf: "blocked_at s p (if fst ends = v then snd ends else fst ends) = Some False"
        using bl F by simp
      have sub0: "0 \<le> sub" using lr_dfs_lower(1)[OF sub] .
      show ?thesis
      proof (cases bl1)
        case True
        with r1 have b: "lr_dfs_edges s1 topo p pes v vis es (max m1 1) = Some b" by simp
        have "max m1 1 \<le> max m (1 + sub)" using Cons.prems(3) sub0 by (auto simp: max_def)
        from Cons.IH(4)[OF in_pes nv ends bf sub a b this more] show ?thesis .
      next
        case False
        with r1 obtain sub1 where
          sub1: "lr_dfs s1 topo p pes (if fst ends = v then snd ends else fst ends) (eid # vis)
                   = Some sub1"
          and b: "lr_dfs_edges s1 topo p pes v vis es (max m1 (1 + sub1)) = Some b"
          by (auto simp: bind_eq_Some_conv)
        from Cons.IH(3)[OF in_pes nv ends bf sub sub1 more] have "sub1 \<le> sub" .
        then have "max m1 (1 + sub1) \<le> max m (1 + sub)" using Cons.prems(3)
          by (auto simp: max_def)
        from Cons.IH(4)[OF in_pes nv ends bf sub a b this more] show ?thesis .
      qed
    qed
  qed
qed

lemma calculate_longest_road_alt:
  "calculate_longest_road s player =
     do { topo \<leftarrow> get_topology s;
          player_edges \<leftarrow> filter_e (owns_road s player) [0..<edge_count topo];
          if player_edges = [] then Some 0
          else
            do { ends \<leftarrow> map_e (nth_e (edge_endpoints topo)) player_edges;
                 lens \<leftarrow> map_e (\<lambda>sv. lr_dfs s topo player player_edges sv [])
                           (remdups (concat (map (\<lambda>e. [fst e, snd e]) ends)));
                 Some (foldl max 0 lens) } }"
proof -
  have m: "(\<lambda>max_length l. if l > max_length then l else max_length) = (max :: int \<Rightarrow> int \<Rightarrow> int)"
    by (auto simp: fun_eq_iff max_def)
  have o: "(\<lambda>eid. do { r \<leftarrow> nth_e (edge_roads s) eid; Some (r = Some player) })
                   = owns_road s player"
    by (simp add: fun_eq_iff owns_road_def)
  show ?thesis unfolding calculate_longest_road_def Let_def m o ..
qed

lemma calculate_longest_road_cong:
  assumes "topology s' = topology s" and "\<And>e. owns_road s' p e = owns_road s p e"
    and "\<And>v. blocked_at s' p v = blocked_at s p v"
  shows "calculate_longest_road s' p = calculate_longest_road s p"
proof -
  have o: "owns_road s' p = owns_road s p" using assms(2) by (simp add: fun_eq_iff)
  have d: "(\<lambda>sv. lr_dfs s' topo p pes sv []) = (\<lambda>sv. lr_dfs s topo p pes sv [])" for topo pes
    using lr_dfs_cong(1)[of s' p s, OF assms(3)] by (intro ext)
  show ?thesis
    unfolding calculate_longest_road_alt get_topology_def assms(1) o d ..
qed

lemma map_e_le:
  assumes "map_e f xs = Some as" and "map_e g xs = Some bs"
    and "\<And>x a b. f x = Some a \<Longrightarrow> g x = Some b \<Longrightarrow> b \<le> (a::int)"
  shows "list_all2 (\<le>) bs as"
  using assms(1,2)
proof (induction xs arbitrary: as bs)
  case Nil
  then show ?case by simp
next
  case (Cons x xs)
  from Cons.prems(1) obtain a as' where a: "f x = Some a" "map_e f xs = Some as'" "as = a # as'"
    by (auto simp: bind_eq_Some_conv)
  from Cons.prems(2) obtain b bs' where b: "g x = Some b" "map_e g xs = Some bs'" "bs = b # bs'"
    by (auto simp: bind_eq_Some_conv)
  from Cons.IH[OF a(2) b(2)] assms(3)[OF a(1) b(1)] show ?case by (simp add: a(3) b(3))
qed

lemma foldl_max_le:
  assumes "list_all2 (\<le>) bs as" and "m1 \<le> (m::int)"
  shows "foldl max m1 bs \<le> foldl max m as"
  using assms
proof (induction bs as arbitrary: m1 m rule: list_all2_induct)
  case Nil
  then show ?case by simp
next
  case (Cons b bs a as)
  have "max m1 b \<le> max m a" using Cons.hyps(1) Cons.prems by (auto simp: max_def)
  from Cons.IH[OF this] show ?case by simp
qed

lemma calculate_longest_road_mono:
  assumes "topology s1 = topology s" and "\<And>e. owns_road s1 p e = owns_road s p e"
    and "\<And>v b. blocked_at s p v = Some b \<Longrightarrow>
             (\<exists>b'. blocked_at s1 p v = Some b' \<and> (b \<longrightarrow> b'))"
    and "calculate_longest_road s p = Some a" and "calculate_longest_road s1 p = Some b"
  shows "b \<le> a"
proof -
  have o: "owns_road s1 p = owns_road s p" using assms(2) by (simp add: fun_eq_iff)
  from assms(4) obtain topo pes where topo: "topology s = Some topo"
    and pes: "filter_e (owns_road s p) [0..<edge_count topo] = Some pes"
    and r: "(if pes = [] then Some 0
          else
            do { ends \<leftarrow> map_e (nth_e (edge_endpoints topo)) pes;
                 lens \<leftarrow> map_e (\<lambda>sv. lr_dfs s topo p pes sv [])
                           (remdups (concat (map (\<lambda>e. [fst e, snd e]) ends)));
                 Some (foldl max 0 lens) }) = Some a"
    unfolding calculate_longest_road_alt get_topology_def bind_eq_Some_conv by blast
  from assms(5) topo pes have r1: "(if pes = [] then Some 0
          else
            do { ends \<leftarrow> map_e (nth_e (edge_endpoints topo)) pes;
                 lens \<leftarrow> map_e (\<lambda>sv. lr_dfs s1 topo p pes sv [])
                           (remdups (concat (map (\<lambda>e. [fst e, snd e]) ends)));
                 Some (foldl max 0 lens) }) = Some b"
    unfolding calculate_longest_road_alt get_topology_def assms(1) o by simp
  show ?thesis
  proof (cases "pes = []")
    case True
    then show ?thesis using r r1 by simp
  next
    case False
    with r obtain ends lens where ends: "map_e (nth_e (edge_endpoints topo)) pes = Some ends"
      and lens: "map_e (\<lambda>sv. lr_dfs s topo p pes sv [])
                           (remdups (concat (map (\<lambda>e. [fst e, snd e]) ends))) = Some lens"
      and a: "a = foldl max 0 lens"
      by (auto simp: bind_eq_Some_conv)
    from r1 False ends obtain lens1 where
      lens1: "map_e (\<lambda>sv. lr_dfs s1 topo p pes sv [])
                           (remdups (concat (map (\<lambda>e. [fst e, snd e]) ends))) = Some lens1"
      and b: "b = foldl max 0 lens1"
      by (auto simp: bind_eq_Some_conv)
    have "list_all2 (\<le>) lens1 lens"
      using lens lens1 by (rule map_e_le) (rule lr_dfs_mono(1)[OF assms(3)])
    from foldl_max_le[OF this, of 0 0] show ?thesis by (simp add: a b)
  qed
qed

subsection \<open>The award after a placement\<close>

lemma award_fields_lengths:
  "calculate_longest_road (s\<lparr>longest_road_player := lp, longest_road_length := ll\<rparr>) p
     = calculate_longest_road s p"
  by (rule calculate_longest_road_cong) (simp_all add: owns_road_def blocked_at_def)

lemma placement_decompose:
  assumes "apply_action g a s = Some s'" and "places s a"
  shows "\<exists>s1. update_longest_road s1 = Some s'
           \<and> topology s1 = topology s \<and> player_count s1 = player_count s
           \<and> longest_road_player s1 = longest_road_player s
           \<and> longest_road_length s1 = longest_road_length s
           \<and> (phase s1 = phase s \<or> phase s1 = TRADE_BUILD_PLAY)
           \<and> ((\<exists>e. e < length (edge_roads s) \<and> edge_roads s ! e = None
                    \<and> edge_roads s1 = (edge_roads s)[e := Some (current_player s)]
                    \<and> vertex_buildings s1 = vertex_buildings s)
              \<or> (\<exists>v. v < length (vertex_buildings s) \<and> vertex_buildings s ! v = None
                    \<and> vertex_buildings s1
                        = (vertex_buildings s)[v := Some (Settlement, current_player s)]
                    \<and> edge_roads s1 = edge_roads s))"
proof (cases a)
  case (BUILD_ROAD e)
  with assms(2) have e: "e < length (edge_roads s)" "edge_roads s ! e = None"
    by (simp_all add: places_def)
  from assms(1) BUILD_ROAD obtain s1 where
    s1: "apply_build_road (current_player s) e False s = Some s1"
    and u: "update_longest_road s1 = Some s'"
    by (auto simp: apply_action_def bind_eq_Some_conv)
  from s1 have "s1 = s\<lparr>edge_roads := (edge_roads s)[e := Some (current_player s)],
            players := (players s)[current_player s := (players s ! current_player s)
               \<lparr>remaining_roads := remaining_roads (players s ! current_player s) - 1,
                resources := (\<lambda>r. resources (players s ! current_player s) r - ROAD_COST r)\<rparr>],
            bank := (\<lambda>r. bank s r + ROAD_COST r)\<rparr>"
    by (simp add: apply_build_road_eq split: if_splits)
  then have "topology s1 = topology s" "player_count s1 = player_count s"
    "longest_road_player s1 = longest_road_player s"
    "longest_road_length s1 = longest_road_length s" "phase s1 = phase s"
    "edge_roads s1 = (edge_roads s)[e := Some (current_player s)]"
    "vertex_buildings s1 = vertex_buildings s"
    by simp_all
  with u e show ?thesis by blast
next
  case (BUILD_SETTLEMENT v)
  with assms(2) have v: "v < length (vertex_buildings s)" "vertex_buildings s ! v = None"
    by (simp_all add: places_def)
  from assms(1) BUILD_SETTLEMENT obtain s1 where
    s1: "apply_build_settlement v s = Some s1"
    and u: "update_longest_road s1 = Some s'"
    by (auto simp: apply_action_def bind_eq_Some_conv)
  from s1 have "s1 = s\<lparr>vertex_buildings := (vertex_buildings s)[v := Some (Settlement, current_player s)],
            players := (players s)[current_player s := (players s ! current_player s)
               \<lparr>remaining_settlements := remaining_settlements (players s ! current_player s) - 1,
                resources := (\<lambda>r. resources (players s ! current_player s) r - SETTLEMENT_COST r)\<rparr>],
            bank := (\<lambda>r. bank s r + SETTLEMENT_COST r)\<rparr>"
    by (simp add: apply_build_settlement_eq split: if_splits)
  then have "topology s1 = topology s" "player_count s1 = player_count s"
    "longest_road_player s1 = longest_road_player s"
    "longest_road_length s1 = longest_road_length s" "phase s1 = phase s"
    "vertex_buildings s1 = (vertex_buildings s)[v := Some (Settlement, current_player s)]"
    "edge_roads s1 = edge_roads s"
    by simp_all
  with u v show ?thesis by blast
next
  case (PLACE_ROAD_BUILDING_ROAD e)
  with assms(2) have e: "e < length (edge_roads s)" "edge_roads s ! e = None"
    by (simp_all add: places_def)
  let ?rb = "\<lambda>s1::CatanState. s1\<lparr>road_building_roads_left := road_building_roads_left s1 - 1\<rparr>"
  from assms(1) PLACE_ROAD_BUILDING_ROAD
  have "apply_place_road_building_road e s = Some s'" by (simp add: apply_action_def)
  then obtain s1 s3 where s1: "apply_build_road (current_player s) e True s = Some s1"
    and s3: "(if road_building_roads_left (?rb s1) \<le> 0
              then Some ((?rb s1)\<lparr>phase := TRADE_BUILD_PLAY\<rparr>)
              else do { valid \<leftarrow> get_valid_road_edges_no_resource_check (?rb s1) (current_player s);
                        Some (if valid = []
                              then (?rb s1)\<lparr>phase := TRADE_BUILD_PLAY, road_building_roads_left := 0\<rparr>
                              else ?rb s1) })
             = Some s3"
    and u: "update_longest_road s3 = Some s'"
    unfolding apply_place_road_building_road_def Let_def bind_eq_Some_conv by blast
  from s1 have e1: "s1 = s\<lparr>edge_roads := (edge_roads s)[e := Some (current_player s)],
            players := (players s)[current_player s := (players s ! current_player s)
               \<lparr>remaining_roads := remaining_roads (players s ! current_player s) - 1,
                resources := (\<lambda>r. resources (players s ! current_player s) r - 0)\<rparr>],
            bank := (\<lambda>r. bank s r + 0)\<rparr>"
    by (simp add: apply_build_road_eq split: if_splits)
  have "\<exists>rb ph. s3 = s1\<lparr>road_building_roads_left := rb, phase := ph\<rparr>
           \<and> (ph = phase s1 \<or> ph = TRADE_BUILD_PLAY)"
  proof (cases "road_building_roads_left (?rb s1) \<le> 0")
    case True
    then have "s3 = s1\<lparr>road_building_roads_left := road_building_roads_left s1 - 1,
                        phase := TRADE_BUILD_PLAY\<rparr>" using s3 by auto
    then show ?thesis by blast
  next
    case False
    then have "s3 = s1\<lparr>road_building_roads_left := 0, phase := TRADE_BUILD_PLAY\<rparr>
             \<or> s3 = s1\<lparr>road_building_roads_left := road_building_roads_left s1 - 1, phase := phase s1\<rparr>"
      using s3 by (auto simp: bind_eq_Some_conv split: if_splits)
    then show ?thesis by blast
  qed
  then obtain rb ph where e3: "s3 = s1\<lparr>road_building_roads_left := rb, phase := ph\<rparr>"
    and ph: "ph = phase s1 \<or> ph = TRADE_BUILD_PLAY" by blast
  have "topology s3 = topology s" "player_count s3 = player_count s"
    "longest_road_player s3 = longest_road_player s"
    "longest_road_length s3 = longest_road_length s"
    "phase s3 = phase s \<or> phase s3 = TRADE_BUILD_PLAY"
    "edge_roads s3 = (edge_roads s)[e := Some (current_player s)]"
    "vertex_buildings s3 = vertex_buildings s"
    using ph by (simp_all add: e3 e1)
  with u e show ?thesis by blast
qed (insert assms(2), simp_all add: places_def)

lemma placement_lengths:
  assumes "topology s1 = topology s" and "p \<noteq> current_player s"
    and "(\<exists>e. e < length (edge_roads s) \<and> edge_roads s ! e = None
                    \<and> edge_roads s1 = (edge_roads s)[e := Some (current_player s)]
                    \<and> vertex_buildings s1 = vertex_buildings s)
              \<or> (\<exists>v. v < length (vertex_buildings s) \<and> vertex_buildings s ! v = None
                    \<and> vertex_buildings s1
                        = (vertex_buildings s)[v := Some (Settlement, current_player s)]
                    \<and> edge_roads s1 = edge_roads s)"
    and "calculate_longest_road s p = Some a" and "calculate_longest_road s1 p = Some b"
  shows "b \<le> a"
proof (rule calculate_longest_road_mono[OF assms(1) _ _ assms(4,5)])
  show "owns_road s1 p e = owns_road s p e" for e
    using assms(2,3) by (auto simp: owns_road_def nth_e_def nth_list_update split: if_splits)
  show "\<exists>b'. blocked_at s1 p v = Some b' \<and> (b \<longrightarrow> b')" if "blocked_at s p v = Some b" for v b
    using assms(2,3) that
    by (auto simp: blocked_at_def nth_e_def nth_list_update bind_eq_Some_conv split: if_splits)
qed

text \<open>
  C4. Take a state in which a player \<open>h\<close> holds the award and in which no seat's road
  is longer than the recorded length (this holds in every reachable state), and an
  action after which the award is updated: a road or a settlement on a free place. With
  the road lengths \<open>ls\<close> recomputed on the new board, in seat order: if the length of
  \<open>h\<close> is still at least 5, then \<open>h\<close> keeps the award or it goes to a player whose
  length is greater than that of \<open>h\<close>; if the length of \<open>h\<close> is below 5, the award
  is the one computed from scratch, the first seat with the greatest length when that is
  at least 5 and nobody otherwise.
\<close>

theorem C4_longest_road_award:
  assumes "award_inv s" and "longest_road_player s = Some h"
    and "places s a" and "apply_action g a s = Some s'"
  shows "\<exists>ls. map_e (calculate_longest_road s') [0..<player_count s'] = Some ls
          \<and> (5 \<le> ls ! h \<longrightarrow>
                longest_road_player s' = Some h
                \<or> (\<exists>p<player_count s'. longest_road_player s' = Some p \<and> ls ! h < ls ! p))
          \<and> (ls ! h < 5 \<longrightarrow>
                (longest_road_player s', longest_road_length s') = award_from_scratch ls)"
proof -
  from placement_decompose[OF assms(4,3)] obtain s1 where u: "update_longest_road s1 = Some s'"
    and t: "topology s1 = topology s" and n: "player_count s1 = player_count s"
    and h1: "longest_road_player s1 = longest_road_player s"
    and l1: "longest_road_length s1 = longest_road_length s"
    and pl: "(\<exists>e. e < length (edge_roads s) \<and> edge_roads s ! e = None
                    \<and> edge_roads s1 = (edge_roads s)[e := Some (current_player s)]
                    \<and> vertex_buildings s1 = vertex_buildings s)
              \<or> (\<exists>v. v < length (vertex_buildings s) \<and> vertex_buildings s ! v = None
                    \<and> vertex_buildings s1
                        = (vertex_buildings s)[v := Some (Settlement, current_player s)]
                    \<and> edge_roads s1 = edge_roads s)"
    by blast
  let ?n = "player_count s"
  let ?L = "longest_road_length s"
  from assms(1,2) have hn: "h < ?n"
    and old: "\<And>p. p < ?n \<Longrightarrow> \<exists>l. calculate_longest_road s p = Some l \<and> l \<le> ?L"
    by (simp_all add: award_inv_def)
  from update_longest_road_holder[OF u, of h] assms(2) hn obtain ls where
    ls: "map_e (calculate_longest_road s1) [0..<?n] = Some ls"
    and res: "(longest_road_player s', longest_road_length s') =
              (if MIN_LONGEST_ROAD \<le> fold max ls 0 \<and> ?L < fold max ls 0
               then (index_of (fold max ls 0) ls, fold max ls 0)
               else if ls ! h < MIN_LONGEST_ROAD then award_from_scratch ls
               else (Some h, ?L))"
    by (auto simp: h1 l1 n)
  note nth = map_e_nth[OF ls]
  from update_longest_road_frame[OF u] obtain lp ll where
    s': "s' = s1\<lparr>longest_road_player := lp, longest_road_length := ll\<rparr>" by blast
  have "calculate_longest_road s' = calculate_longest_road s1"
    by (simp add: fun_eq_iff s' award_fields_lengths)
  moreover have n': "player_count s' = ?n" by (simp add: s' n)
  ultimately have ls': "map_e (calculate_longest_road s') [0..<player_count s'] = Some ls"
    using ls by simp
  have le: "ls ! p \<le> ?L" if "p < ?n" "p \<noteq> current_player s" for p
  proof -
    from old[OF that(1)] obtain l where l: "calculate_longest_road s p = Some l" "l \<le> ?L"
      by blast
    from placement_lengths[OF t that(2) pl l(1) nth(2)[OF that(1)]] l(2) show ?thesis by simp
  qed
  have part1: "longest_road_player s' = Some h
                \<or> (\<exists>p<player_count s'. longest_road_player s' = Some p \<and> ls ! h < ls ! p)"
    if five: "5 \<le> ls ! h"
  proof (cases "MIN_LONGEST_ROAD \<le> fold max ls 0 \<and> ?L < fold max ls 0")
    case False
    then show ?thesis using res five by (auto simp: MIN_LONGEST_ROAD_def split: if_splits)
  next
    case True
    from fold_max_index[of ls] True obtain i where i: "index_of (fold max ls 0) ls = Some i"
      "i < length ls" "ls ! i = fold max ls 0" by blast
    from res True i(1) have hp: "longest_road_player s' = Some i" by simp
    show ?thesis
    proof (cases "i = h")
      case True
      then show ?thesis using hp by simp
    next
      case ne: False
      have "ls ! h < ls ! i"
      proof (cases "h = current_player s")
        case False
        from le[OF hn False] True i(3) show ?thesis by simp
      next
        case hc: True
        with ne have "i \<noteq> current_player s" by simp
        from le[OF _ this] i(2) nth(1) True i(3) show ?thesis by simp
      qed
      then show ?thesis using hp i(2) nth(1) n' by auto
    qed
  qed
  have part2: "(longest_road_player s', longest_road_length s') = award_from_scratch ls"
    if low: "ls ! h < 5"
  proof (cases "MIN_LONGEST_ROAD \<le> fold max ls 0 \<and> ?L < fold max ls 0")
    case False
    then show ?thesis using res low by (auto simp: MIN_LONGEST_ROAD_def split: if_splits)
  next
    case True
    then show ?thesis using res by (simp add: award_from_scratch_def Let_def)
  qed
  from ls' part1 part2 show ?thesis by blast
qed

subsection \<open>The award in the reachable states\<close>

lemma keep_scan_none:
  assumes "fold_e (lr_scan_keep s) [0..<n] (None, l0) = Some acc"
  shows "\<exists>ls. map_e (calculate_longest_road s) [0..<n] = Some ls
            \<and> acc = (if fold max ls 0 < MIN_LONGEST_ROAD then (None, l0)
                      else (index_of (fold max ls 0) ls, fold max ls 0))"
  using assms
proof (induction n arbitrary: acc)
  case 0
  then show ?case by (simp add: MIN_LONGEST_ROAD_def)
next
  case (Suc n)
  from Suc.prems obtain a where a: "fold_e (lr_scan_keep s) [0..<n] (None, l0) = Some a"
    and st: "lr_scan_keep s n a = Some acc"
    by (auto simp: fold_e_append bind_eq_Some_conv)
  from Suc.IH[OF a] obtain ls where ls: "map_e (calculate_longest_road s) [0..<n] = Some ls"
    and av: "a = (if fold max ls 0 < MIN_LONGEST_ROAD then (None, l0)
                      else (index_of (fold max ls 0) ls, fold max ls 0))"
    by blast
  from st obtain l where l: "calculate_longest_road s n = Some l"
    and acc: "acc = (if l \<ge> MIN_LONGEST_ROAD then
                     (if fst a = None then (Some n, l)
                      else if l > snd a then (Some n, l)
                      else a)
                   else a)"
    by (cases a) (auto simp: lr_scan_keep_def bind_eq_Some_conv)
  define m where "m = fold max ls 0"
  have len: "length ls = n" using map_e_nth(1)[OF ls] .
  have le: "\<And>x. x \<in> set ls \<Longrightarrow> x \<le> m" unfolding m_def by (rule fold_max_ge_elem)
  have "map_e (calculate_longest_road s) [0..<Suc n] = Some (ls @ [l])"
    by (simp add: map_e_snoc ls l)
  moreover have "acc = (if max l m < MIN_LONGEST_ROAD then (None, l0)
                      else (index_of (max l m) (ls @ [l]), max l m))"
  proof (cases "m < MIN_LONGEST_ROAD")
    case True
    then have a': "a = (None, l0)" using av by (simp add: m_def)
    show ?thesis
    proof (cases "l \<ge> MIN_LONGEST_ROAD")
      case T: True
      then have "l \<notin> set ls" using le True by force
      then have "index_of l (ls @ [l]) = Some n"
        by (simp add: index_of_snoc index_of_None_iff[THEN iffD2] len)
      then show ?thesis using T True by (simp add: acc a' max_def)
    next
      case False
      then show ?thesis using True by (simp add: acc a' max_def)
    qed
  next
    case False
    from fold_max_index[of ls] False obtain i where i: "index_of m ls = Some i"
      by (auto simp: m_def)
    then have a': "a = (Some i, m)" using av False by (simp add: m_def)
    have keep: "index_of m (ls @ [l]) = Some i" using i by (simp add: index_of_snoc)
    show ?thesis
    proof (cases "l \<ge> MIN_LONGEST_ROAD \<and> l > m")
      case T: True
      then have "l \<notin> set ls" using le by force
      then have "index_of l (ls @ [l]) = Some n"
        by (simp add: index_of_snoc index_of_None_iff[THEN iffD2] len)
      then show ?thesis using T False by (simp add: acc a' max_def)
    next
      case F: False
      then have "l \<le> m" using False by auto
      then show ?thesis using F False keep by (auto simp: acc a' max_def)
    qed
  qed
  ultimately show ?case by (simp add: m_def)
qed

lemma update_longest_road_post:
  assumes "update_longest_road s = Some s'"
    and "\<And>h. longest_road_player s = Some h \<Longrightarrow> h < player_count s"
  shows "\<forall>h. longest_road_player s' = Some h \<longrightarrow>
           h < player_count s'
           \<and> (\<forall>p<player_count s'. \<exists>l. calculate_longest_road s' p = Some l
                                        \<and> l \<le> longest_road_length s')"
proof -
  let ?n = "player_count s"
  from update_longest_road_frame[OF assms(1)] obtain lp ll where
    s': "s' = s\<lparr>longest_road_player := lp, longest_road_length := ll\<rparr>" by blast
  have c: "calculate_longest_road s' p = calculate_longest_road s p" for p
    by (simp add: s' award_fields_lengths)
  have n': "player_count s' = ?n" by (simp add: s')
  have "\<exists>ls. map_e (calculate_longest_road s) [0..<?n] = Some ls
          \<and> (longest_road_player s' = None
              \<or> (\<exists>i. longest_road_player s' = Some i \<and> i < ?n
                     \<and> (\<forall>x\<in>set ls. x \<le> longest_road_length s')))"
  proof (cases "longest_road_player s")
    case (Some h)
    from update_longest_road_holder[OF assms(1) Some assms(2)[OF Some]] obtain ls where
      ls: "map_e (calculate_longest_road s) [0..<?n] = Some ls"
      and res: "(longest_road_player s', longest_road_length s') =
              (if MIN_LONGEST_ROAD \<le> fold max ls 0 \<and> longest_road_length s < fold max ls 0
               then (index_of (fold max ls 0) ls, fold max ls 0)
               else if ls ! h < MIN_LONGEST_ROAD then award_from_scratch ls
               else (Some h, longest_road_length s))"
      by blast
    note nth = map_e_nth[OF ls]
    have mx: "\<forall>x\<in>set ls. x \<le> fold max ls 0" by (simp add: fold_max_ge_elem)
    have big: "longest_road_player s' = None
              \<or> (\<exists>i. longest_road_player s' = Some i \<and> i < ?n
                     \<and> (\<forall>x\<in>set ls. x \<le> longest_road_length s'))"
      if "(longest_road_player s', longest_road_length s')
            = (index_of (fold max ls 0) ls, fold max ls 0)"
        and "MIN_LONGEST_ROAD \<le> fold max ls 0"
    proof -
      from fold_max_index[OF that(2)] obtain i where "index_of (fold max ls 0) ls = Some i"
        "i < length ls" by blast
      then show ?thesis using that(1) mx nth(1) by auto
    qed
    have ?thesis if "MIN_LONGEST_ROAD \<le> fold max ls 0 \<and> longest_road_length s < fold max ls 0"
      using big res that ls by auto
    moreover have ?thesis
      if "\<not> (MIN_LONGEST_ROAD \<le> fold max ls 0 \<and> longest_road_length s < fold max ls 0)"
        and "ls ! h < MIN_LONGEST_ROAD"
    proof (cases "fold max ls 0 < MIN_LONGEST_ROAD")
      case True
      then have "longest_road_player s' = None"
        using res that by (auto simp: award_from_scratch_def Let_def)
      then show ?thesis using ls by blast
    next
      case False
      then have "(longest_road_player s', longest_road_length s')
            = (index_of (fold max ls 0) ls, fold max ls 0)"
        using res that by (auto simp: award_from_scratch_def Let_def)
      from big[OF this] False ls show ?thesis by auto
    qed
    moreover have ?thesis
      if a: "\<not> (MIN_LONGEST_ROAD \<le> fold max ls 0 \<and> longest_road_length s < fold max ls 0)"
        and b: "\<not> ls ! h < MIN_LONGEST_ROAD"
    proof -
      have "ls ! h \<in> set ls" using assms(2)[OF Some] nth(1) by simp
      then have "ls ! h \<le> fold max ls 0" using mx by blast
      then have "fold max ls 0 \<le> longest_road_length s" using a b by auto
      then have "\<forall>x\<in>set ls. x \<le> longest_road_length s" using mx by force
      moreover have "longest_road_player s' = Some h" "longest_road_length s' = longest_road_length s"
        using res a b by auto
      ultimately show ?thesis using ls assms(2)[OF Some] by auto
    qed
    ultimately show ?thesis by blast
  next
    case None
    from assms(1) None obtain acc acc' where
      acc: "fold_e (lr_scan_keep s) [0..<?n] (None, longest_road_length s) = Some acc"
      and acc': "(case fst acc of
                     None \<Rightarrow> Some acc
                   | Some holder \<Rightarrow>
                       do { cur \<leftarrow> calculate_longest_road s holder;
                            if cur < MIN_LONGEST_ROAD then
                              fold_e (lr_scan_scratch s) [0..<?n] (None, 0)
                            else Some acc }) = Some acc'"
      and e: "s' = s\<lparr>longest_road_player := fst acc', longest_road_length := snd acc'\<rparr>"
      by (auto simp: update_longest_road_def bind_eq_Some_conv)
    from keep_scan_none[OF acc] obtain ls where
      ls: "map_e (calculate_longest_road s) [0..<?n] = Some ls"
      and av: "acc = (if fold max ls 0 < MIN_LONGEST_ROAD then (None, longest_road_length s)
                      else (index_of (fold max ls 0) ls, fold max ls 0))"
      by blast
    note nth = map_e_nth[OF ls]
    have mx: "\<forall>x\<in>set ls. x \<le> fold max ls 0" by (simp add: fold_max_ge_elem)
    show ?thesis
    proof (cases "fold max ls 0 < MIN_LONGEST_ROAD")
      case True
      then have "acc' = (None, longest_road_length s)" using acc' av by simp
      then show ?thesis using ls by (simp add: e)
    next
      case False
      from fold_max_index[of ls] False obtain i where i: "index_of (fold max ls 0) ls = Some i"
        "i < length ls" "ls ! i = fold max ls 0" by auto
      then have "calculate_longest_road s i = Some (fold max ls 0)" using nth by simp
      then have "acc' = (Some i, fold max ls 0)" using acc' av i(1) False by simp
      then show ?thesis using ls i(2) nth(1) mx by (auto simp: e)
    qed
  qed
  then obtain ls where ls: "map_e (calculate_longest_road s) [0..<?n] = Some ls"
    and r: "longest_road_player s' = None
              \<or> (\<exists>i. longest_road_player s' = Some i \<and> i < ?n
                     \<and> (\<forall>x\<in>set ls. x \<le> longest_road_length s'))"
    by blast
  note nth = map_e_nth[OF ls]
  show ?thesis
  proof (intro allI impI conjI)
    fix h assume h: "longest_road_player s' = Some h"
    with r have hn: "h < ?n" and all: "\<forall>x\<in>set ls. x \<le> longest_road_length s'" by auto
    show "h < player_count s'" using hn by (simp add: n')
    fix p assume "p < player_count s'"
    then have p: "p < ?n" by (simp add: n')
    then have "ls ! p \<in> set ls" using nth(1) by simp
    then show "\<exists>l. calculate_longest_road s' p = Some l \<and> l \<le> longest_road_length s'"
      using all nth(2)[OF p] by (auto simp: c)
  qed
qed

lemma award_inv_none: "longest_road_player s' = None \<Longrightarrow> award_inv s'"
  by (simp add: award_inv_def)

lemma award_inv_board:
  assumes "award_inv s" and "topology s' = topology s"
    and "\<And>p e. owns_road s' p e = owns_road s p e"
    and "\<And>p v. blocked_at s' p v = blocked_at s p v"
    and "longest_road_player s' = longest_road_player s"
    and "longest_road_length s' = longest_road_length s"
    and "player_count s' = player_count s"
    and "phase s' \<noteq> SETUP_PLACE_SETTLEMENT" and "phase s' \<noteq> SETUP_PLACE_ROAD"
  shows "award_inv s'"
proof -
  have "calculate_longest_road s' p = calculate_longest_road s p" for p
    by (rule calculate_longest_road_cong) (simp_all add: assms(2,3,4))
  then show ?thesis using assms(1,5-9) by (simp add: award_inv_def)
qed

lemma award_inv_same:
  assumes "award_inv s" and "topology s' = topology s"
    and "edge_roads s' = edge_roads s" and "vertex_buildings s' = vertex_buildings s"
    and "longest_road_player s' = longest_road_player s"
    and "longest_road_length s' = longest_road_length s"
    and "player_count s' = player_count s"
    and "phase s' \<noteq> SETUP_PLACE_SETTLEMENT" and "phase s' \<noteq> SETUP_PLACE_ROAD"
  shows "award_inv s'"
  by (rule award_inv_board[OF assms(1,2) _ _ assms(5-9)])
    (simp_all add: owns_road_def blocked_at_def assms(3,4))

lemma legal_places:
  assumes "get_legal_actions s = Some acts" and "a \<in> set acts"
    and "(\<exists>e. a = BUILD_ROAD e) \<or> (\<exists>e. a = PLACE_ROAD_BUILDING_ROAD e) \<or> (\<exists>v. a = BUILD_SETTLEMENT v)"
  shows "places s a"
  using assms legal_BUILD_ROAD[OF assms(1)] legal_PLACE_ROAD_BUILDING_ROAD[OF assms(1)]
    legal_BUILD_SETTLEMENT[OF assms(1)]
  by (auto simp: places_def)

lemma placement_award_inv:
  assumes "award_inv s" and "get_legal_actions s = Some acts" and "a \<in> set acts"
    and "(\<exists>e. a = BUILD_ROAD e) \<or> (\<exists>e. a = PLACE_ROAD_BUILDING_ROAD e) \<or> (\<exists>v. a = BUILD_SETTLEMENT v)"
    and "apply_action g a s = Some s'"
  shows "award_inv s'"
proof -
  from legal_action_phase[OF assms(2,3)] assms(4)
  have ph: "phase s = TRADE_BUILD_PLAY \<or> phase s = ROAD_BUILDING_PLACE" by auto
  from placement_decompose[OF assms(5) legal_places[OF assms(2,3,4)]] obtain s1 where
    u: "update_longest_road s1 = Some s'" and n: "player_count s1 = player_count s"
    and h1: "longest_road_player s1 = longest_road_player s"
    and p1: "phase s1 = phase s \<or> phase s1 = TRADE_BUILD_PLAY"
    by blast
  have "\<And>h. longest_road_player s1 = Some h \<Longrightarrow> h < player_count s1"
    using assms(1) by (simp add: award_inv_def h1 n)
  note post = update_longest_road_post[OF u this]
  from update_longest_road_frame[OF u] obtain lp ll where
    "s' = s1\<lparr>longest_road_player := lp, longest_road_length := ll\<rparr>" by blast
  then have "phase s' = phase s1" by simp
  then have "phase s' \<noteq> SETUP_PLACE_SETTLEMENT" "phase s' \<noteq> SETUP_PLACE_ROAD"
    using ph p1 by auto
  then show ?thesis using post by (simp add: award_inv_def)
qed

lemma apply_action_award_inv:
  assumes "award_inv s" and "get_legal_actions s = Some acts" and "a \<in> set acts"
    and "apply_action g a s = Some s'"
  shows "award_inv s'"
proof (cases a)
  case (PLACE_SETUP_SETTLEMENT v)
  from legal_action_phase[OF assms(2,3)] PLACE_SETUP_SETTLEMENT assms(1)
  have "longest_road_player s = None" by (simp add: award_inv_def)
  moreover from assms(4) PLACE_SETUP_SETTLEMENT have "apply_setup_settlement v s = Some s'"
    by (simp add: apply_action_def)
  from apply_setup_settlement_frame[OF this]
  have "longest_road_player s' = longest_road_player s" by auto
  ultimately show ?thesis by (simp add: award_inv_none)
next
  case (PLACE_SETUP_ROAD e)
  from legal_action_phase[OF assms(2,3)] PLACE_SETUP_ROAD assms(1)
  have "longest_road_player s = None" by (simp add: award_inv_def)
  moreover from assms(4) PLACE_SETUP_ROAD
  have "longest_road_player s' = longest_road_player s"
    by (auto simp: apply_action_def apply_setup_road_eq Let_def split: if_splits)
  ultimately show ?thesis by (simp add: award_inv_none)
next
  case ROLL_DICE_action
  with assms(4) have "apply_roll_dice g s = Some s'" by (simp add: apply_action_def)
  from apply_roll_dice_frame[OF this] show ?thesis
    by (intro award_inv_same[OF assms(1)]) auto
next
  case (DISCARD_RESOURCES counts)
  from legal_action_phase[OF assms(2,3)] DISCARD_RESOURCES have ph: "phase s = DISCARD" by simp
  from assms(4) DISCARD_RESOURCES obtain res where "apply_discard res s = Some s'"
    by (auto simp: apply_action_def bind_eq_Some_conv)
  then show ?thesis using ph
    by (intro award_inv_same[OF assms(1)])
      (auto simp: apply_discard_eq split: list.splits if_splits)
next
  case (MOVE_ROBBER_action h)
  with assms(4) have "apply_move_robber h s = Some s'" by (simp add: apply_action_def)
  from apply_move_robber_frame[OF this] show ?thesis
    by (intro award_inv_same[OF assms(1)]) auto
next
  case (STEAL_RESOURCE victim)
  with assms(4) have "apply_steal g victim s = Some s'" by (simp add: apply_action_def)
  from apply_steal_frame[OF this] show ?thesis
    by (intro award_inv_same[OF assms(1)]) auto
next
  case (BUILD_ROAD e)
  then show ?thesis using placement_award_inv[OF assms(1,2,3) _ assms(4)] by simp
next
  case (BUILD_SETTLEMENT v)
  then show ?thesis using placement_award_inv[OF assms(1,2,3) _ assms(4)] by simp
next
  case (BUILD_CITY v)
  from legal_action_phase[OF assms(2,3)] BUILD_CITY have ph: "phase s = TRADE_BUILD_PLAY" by simp
  from legal_BUILD_CITY[OF assms(2)] assms(3) BUILD_CITY
  have v: "v < length (vertex_buildings s)"
    "vertex_buildings s ! v = Some (Settlement, current_player s)" by simp_all
  from assms(4) BUILD_CITY have
    s': "s' = s\<lparr>vertex_buildings := (vertex_buildings s)[v := Some (City, current_player s)],
            players := (players s)[current_player s := (players s ! current_player s)
               \<lparr>remaining_cities := remaining_cities (players s ! current_player s) - 1,
                remaining_settlements := remaining_settlements (players s ! current_player s) + 1,
                resources := (\<lambda>r. resources (players s ! current_player s) r - CITY_COST r)\<rparr>],
            bank := (\<lambda>r. bank s r + CITY_COST r)\<rparr>"
    by (simp add: apply_action_def apply_build_city_eq split: if_splits)
  show ?thesis
  proof (rule award_inv_board[OF assms(1)])
    show "blocked_at s' p x = blocked_at s p x" for p x
      using v by (cases "x = v") (simp_all add: s' blocked_at_def nth_e_def)
  qed (simp_all add: s' owns_road_def ph)
next
  case BUY_DEV_CARD
  from legal_action_phase[OF assms(2,3)] BUY_DEV_CARD have ph: "phase s = TRADE_BUILD_PLAY" by simp
  from assms(4) BUY_DEV_CARD show ?thesis using ph
    by (intro award_inv_same[OF assms(1)])
      (auto simp: apply_action_def apply_buy_dev_card_eq split: if_splits)
next
  case PLAY_KNIGHT
  with assms(4) have "apply_play_knight s = Some s'" by (simp add: apply_action_def)
  from apply_play_knight_frame[OF this] show ?thesis
    by (intro award_inv_same[OF assms(1)]) auto
next
  case PLAY_ROAD_BUILDING
  from legal_action_phase[OF assms(2,3)] PLAY_ROAD_BUILDING
  have ph: "phase s = TRADE_BUILD_PLAY" by simp
  from assms(4) PLAY_ROAD_BUILDING show ?thesis using ph
    by (intro award_inv_same[OF assms(1)])
      (auto simp: apply_action_def apply_play_road_building_eq Let_def split: if_splits)
next
  case (PLACE_ROAD_BUILDING_ROAD e)
  then show ?thesis using placement_award_inv[OF assms(1,2,3) _ assms(4)] by simp
next
  case PLAY_YEAR_OF_PLENTY
  with assms(4) show ?thesis
    by (intro award_inv_same[OF assms(1)])
      (auto simp: apply_action_def apply_play_year_of_plenty_eq split: if_splits)
next
  case (PICK_YEAR_OF_PLENTY_RESOURCES r1 r2)
  with assms(4) show ?thesis
    by (intro award_inv_same[OF assms(1)])
      (auto simp: apply_action_def apply_pick_yop_eq split: if_splits)
next
  case PLAY_MONOPOLY
  with assms(4) show ?thesis
    by (intro award_inv_same[OF assms(1)])
      (auto simp: apply_action_def apply_play_monopoly_eq split: if_splits)
next
  case (PICK_MONOPOLY_RESOURCE r)
  with assms(4) have "apply_pick_monopoly r s = Some s'" by (simp add: apply_action_def)
  from apply_pick_monopoly_frame[OF this] show ?thesis
    by (intro award_inv_same[OF assms(1)]) auto
next
  case (MARITIME_TRADE give receive)
  from legal_action_phase[OF assms(2,3)] MARITIME_TRADE
  have ph: "phase s = TRADE_BUILD_PLAY" by simp
  from assms(4) MARITIME_TRADE show ?thesis using ph
    by (intro award_inv_same[OF assms(1)])
      (auto simp: apply_action_def apply_maritime_trade_eq split: if_splits option.splits)
next
  case END_TURN
  from legal_action_phase[OF assms(2,3)] END_TURN have ph: "phase s = TRADE_BUILD_PLAY" by simp
  from assms(4) END_TURN show ?thesis using ph
    by (intro award_inv_same[OF assms(1)])
      (auto simp: apply_action_def apply_end_turn_eq Let_def split: if_splits option.splits)
qed

lemma reachable_award_inv: "reachable s \<Longrightarrow> award_inv s"
proof (induction rule: reachable.induct)
  case (reachable_reset n n_players terrains numbers deck hs s)
  then have "longest_road_player s = None"
    by (auto simp: reset_def bind_eq_Some_conv Let_def)
  then show ?case by (rule award_inv_none)
next
  case (reachable_step s acts a g s' reward don info)
  from reachable_step.hyps(4) have "apply_action g a s = Some s'" by (simp add: step_Some)
  from apply_action_award_inv[OF reachable_step.IH reachable_step.hyps(2,3) this] show ?case .
qed

lemma upt_72:
  "[0..<72] = [0, 1, 2, 3, 4, 5, 6, 7, 8, 9, 10, 11, 12, 13, 14, 15, 16, 17]
     @ [18, 19, 20, 21, 22, 23, 24, 25, 26, 27, 28, 29, 30, 31, 32, 33, 34, 35]
     @ [36, 37, 38, 39, 40, 41, 42, 43, 44, 45, 46, 47, 48, 49, 50, 51, 52, 53]
     @ [54, 55, 56, 57, 58, 59, 60, 61, 62, 63, 64, 65, 66, 67, 68, 69, 70, 71]"
  by code_simp

lemma road_example_fields:
  "topology road_example = Some standard_topology" "player_count road_example = 3"
  "current_player road_example = 1" "phase road_example = TRADE_BUILD_PLAY"
  "longest_road_player road_example = Some 0" "longest_road_length road_example = 5"
  "length (edge_roads road_example) = 72" "length (players road_example) = 3"
  "edge_roads road_example ! 37 = None"
  by (simp_all add: road_example_def)

lemma road_example_blocked:
  assumes "vertex_buildings s = vertex_buildings road_example"
  shows "blocked_at s p v
           = (if v < 54 then Some ((v = 0 \<and> p \<noteq> 0) \<or> (v = 47 \<and> p \<noteq> 1)) else None)"
  by (auto simp: assms blocked_at_def road_example_def nth_e_def nth_list_update)

lemma road_example_lengths:
  assumes "topology s = Some standard_topology"
    and "vertex_buildings s = vertex_buildings road_example"
    and "edge_roads s = edge_roads road_example"
  shows "map_e (calculate_longest_road s) [0, 1, 2] = Some [5, 5, 0]"
proof -
  have e: "filter_e (owns_road s 0) [0..<72] = Some [0, 1, 2, 3, 4]"
    "filter_e (owns_road s (Suc 0)) [0..<72] = Some [49, 50, 63, 64, 65]"
    "filter_e (owns_road s 2) [0..<72] = Some []"
    by (simp_all add: upt_72 owns_road_def assms(3) road_example_def nth_e_def)
  show ?thesis
    unfolding calculate_longest_road_alt
    by (simp add: get_topology_def assms(1) standard_topology_tables e
        lr_dfs_edges_step road_example_blocked[OF assms(2)] nth_e_def
        std_edge_endpoints_def std_vertex_adjacent_edges_def del: lr_dfs_edges.simps(2))
qed

lemma road_example_lengths_after:
  assumes "topology s = Some standard_topology"
    and "vertex_buildings s = vertex_buildings road_example"
    and "edge_roads s = (edge_roads road_example)[37 := Some 1]"
  shows "map_e (calculate_longest_road s) [0, 1, 2] = Some [5, 6, 0]"
proof -
  have e: "filter_e (owns_road s 0) [0..<72] = Some [0, 1, 2, 3, 4]"
    "filter_e (owns_road s (Suc 0)) [0..<72] = Some [37, 49, 50, 63, 64, 65]"
    "filter_e (owns_road s 2) [0..<72] = Some []"
    by (simp_all add: upt_72 owns_road_def assms(3) road_example_def nth_e_def)
  show ?thesis
    unfolding calculate_longest_road_alt
    by (simp add: get_topology_def assms(1) standard_topology_tables e
        lr_dfs_edges_step road_example_blocked[OF assms(2)] nth_e_def
        std_edge_endpoints_def std_vertex_adjacent_edges_def del: lr_dfs_edges.simps(2))
qed

lemma map_e_three:
  assumes "map_e f [0, 1, 2::nat] = Some [a, b, c]"
  shows "f 0 = Some a" and "f 1 = Some b" and "f 2 = Some c"
  using assms by (auto simp: bind_eq_Some_conv)

lemma upt_3: "[0..<3] = [0, 1, 2]"
  by code_simp

lemma road_example_award_inv: "award_inv road_example"
proof -
  note c = map_e_three[OF road_example_lengths[OF road_example_fields(1) refl refl]]
  have "\<exists>l. calculate_longest_road road_example p = Some l \<and> l \<le> 5" if "p < 3" for p
  proof -
    from that have "p = 0 \<or> p = 1 \<or> p = 2" by arith
    then show ?thesis using c by auto
  qed
  then show ?thesis by (simp add: award_inv_def road_example_fields)
qed

lemma road_example_build:
  "\<exists>s1. apply_build_road 1 37 False road_example = Some s1
        \<and> topology s1 = Some standard_topology \<and> player_count s1 = 3
        \<and> vertex_buildings s1 = vertex_buildings road_example
        \<and> edge_roads s1 = (edge_roads road_example)[37 := Some 1]
        \<and> longest_road_player s1 = Some 0 \<and> longest_road_length s1 = 5"
  by (simp add: apply_build_road_eq road_example_fields)

lemma road_example_update:
  assumes "topology s1 = Some standard_topology" and "player_count s1 = 3"
    and "vertex_buildings s1 = vertex_buildings road_example"
    and "edge_roads s1 = (edge_roads road_example)[37 := Some 1]"
    and "longest_road_player s1 = Some 0" and "longest_road_length s1 = 5"
  shows "update_longest_road s1
           = Some (s1\<lparr>longest_road_player := Some 1, longest_road_length := 6\<rparr>)"
proof -
  note c = map_e_three[OF road_example_lengths_after[OF assms(1,3,4)]]
  have c1: "calculate_longest_road s1 (Suc 0) = Some 6" using c(2) by simp
  show ?thesis
    by (simp add: update_longest_road_def assms(2,5,6) upt_3 lr_scan_keep_def c c1
        MIN_LONGEST_ROAD_def)
qed

lemma road_example_step:
  "\<exists>s'. apply_action g (BUILD_ROAD 37) road_example = Some s'
        \<and> player_count s' = 3
        \<and> map_e (calculate_longest_road s') [0, 1, 2] = Some [5, 6, 0]
        \<and> longest_road_player s' = Some 1 \<and> longest_road_length s' = 6"
proof -
  from road_example_build obtain s1 where
    b: "apply_build_road 1 37 False road_example = Some s1"
    and f: "topology s1 = Some standard_topology" "player_count s1 = 3"
      "vertex_buildings s1 = vertex_buildings road_example"
      "edge_roads s1 = (edge_roads road_example)[37 := Some 1]"
      "longest_road_player s1 = Some 0" "longest_road_length s1 = 5"
    by blast
  let ?s' = "s1\<lparr>longest_road_player := Some 1, longest_road_length := 6\<rparr>"
  have "apply_action g (BUILD_ROAD 37) road_example = Some ?s'"
    unfolding apply_action_def action.case road_example_fields(3) b Option.bind.simps
    by (rule road_example_update[OF f])
  moreover have "map_e (calculate_longest_road ?s') [0, 1, 2] = Some [5, 6, 0]"
    by (rule road_example_lengths_after) (simp_all add: f)
  ultimately show ?thesis using f(2) by simp
qed

theorem C4_longest_road_award_witness:
  "award_inv road_example \<and> longest_road_player road_example = Some 0
   \<and> places road_example (BUILD_ROAD 37)
   \<and> (\<exists>s'. apply_action \<lparr>draw1 = 0, draw2 = 0\<rparr> (BUILD_ROAD 37) road_example = Some s'
          \<and> map_e (calculate_longest_road s') [0..<player_count s'] = Some [5, 6, 0]
          \<and> longest_road_player s' = Some 1 \<and> longest_road_length s' = 6
          \<and> [5, 6, 0] ! 0 < [5, 6, 0::int] ! 1)"
proof -
  have p: "places road_example (BUILD_ROAD 37)"
    by (simp add: places_def road_example_fields)
  from road_example_step obtain s' where
    a: "apply_action \<lparr>draw1 = 0, draw2 = 0\<rparr> (BUILD_ROAD 37) road_example = Some s'"
    and n: "player_count s' = 3"
    and m: "map_e (calculate_longest_road s') [0, 1, 2] = Some [5, 6, 0]"
    and h: "longest_road_player s' = Some 1" "longest_road_length s' = 6"
    by blast
  from C4_longest_road_award[OF road_example_award_inv road_example_fields(5) p a]
  obtain ls where ls: "map_e (calculate_longest_road s') [0..<player_count s'] = Some ls"
    and k: "5 \<le> ls ! 0 \<longrightarrow> longest_road_player s' = Some 0
              \<or> (\<exists>p<player_count s'. longest_road_player s' = Some p \<and> ls ! 0 < ls ! p)"
    by blast
  from ls m n have e: "ls = [5, 6, 0]" by (simp add: upt_3)
  with k h n have "[5, 6, 0] ! 0 < [5, 6, 0::int] ! 1" by auto
  with road_example_award_inv road_example_fields(5) p a ls e h show ?thesis by blast
qed

subsection \<open>A game up to the first hand-out of resources\<close>

lemma play_single:
  assumes "get_legal_actions s = Some acts" and "a \<in> set acts"
    and "apply_action g a s = Some s'"
  shows "play g [a] s = Some s'"
  using assms by (simp add: step_def Let_def)

lemma play_append: "play g (xs @ ys) s = Option.bind (play g xs s) (play g ys)"
proof (induction xs arbitrary: s)
  case Nil
  show ?case by simp
next
  case (Cons a xs)
  show ?case
  proof (cases "get_legal_actions s")
    case None
    then show ?thesis by simp
  next
    case (Some acts)
    show ?thesis
    proof (cases "a \<in> set acts")
      case False
      then show ?thesis using Some by simp
    next
      case True
      show ?thesis
      proof (cases "step g a s")
        case None
        then show ?thesis using Some True by simp
      next
        case (Some r)
        then show ?thesis using \<open>get_legal_actions s = Some acts\<close> True Cons.IH by simp
      qed
    qed
  qed
qed

lemma play_then:
  assumes "play g xs s = Some s1" and "play g ys s1 = Some s2"
  shows "play g (xs @ ys) s = Some s2"
  using assms by (simp add: play_append)

lemma play_reachable:
  assumes "play g xs s = Some s'" and "reachable s"
  shows "reachable s'"
  using assms
proof (induction xs arbitrary: s)
  case Nil
  then show ?case by simp
next
  case (Cons a xs)
  from Cons.prems(1) obtain acts r where acts: "get_legal_actions s = Some acts"
    and a: "a \<in> set acts" and r: "step g a s = Some r" and p: "play g xs (fst r) = Some s'"
    by (auto simp: bind_eq_Some_conv split: if_splits)
  obtain s1 rw dn inf where "r = (s1, rw, dn, inf)" by (cases r) auto
  with r have "step g a s = Some (s1, rw, dn, inf)" and "fst r = s1" by simp_all
  with reachable_step[OF Cons.prems(2) acts a] p Cons.IH show ?case by auto
qed

lemma any_e_total:
  assumes "\<forall>x\<in>set xs. \<exists>b. f x = Some b"
  shows "any_e f xs = Some (\<exists>x\<in>set xs. f x = Some True)"
  using assms by (induction xs) auto

lemma std_adjacent_vertices_bound:
  assumes "v < 54" and "n \<in> set (std_vertex_adjacent_vertices ! v)"
  shows "n < 54"
proof -
  have "list_all (list_all (\<lambda>n. n < 54)) std_vertex_adjacent_vertices"
    by (simp add: std_vertex_adjacent_vertices_def)
  moreover have "length std_vertex_adjacent_vertices = 54"
    by (simp add: std_vertex_adjacent_vertices_def)
  ultimately have "list_all (\<lambda>n. n < 54) (std_vertex_adjacent_vertices ! v)"
    using assms(1) by (simp add: list_all_length)
  then show ?thesis using assms(2) by (simp add: list_all_iff)
qed

lemma std_adjacent_edges_bound:
  assumes "v < 54" and "e \<in> set (std_vertex_adjacent_edges ! v)"
  shows "e < 72"
proof -
  have "list_all (list_all (\<lambda>e. e < 72)) std_vertex_adjacent_edges"
    by (simp add: std_vertex_adjacent_edges_def)
  moreover have "length std_vertex_adjacent_edges = 54"
    by (simp add: std_vertex_adjacent_edges_def)
  ultimately have "list_all (\<lambda>n. n < 72) (std_vertex_adjacent_edges ! v)"
    using assms(1) by (simp add: list_all_length)
  then show ?thesis using assms(2) by (simp add: list_all_iff)
qed

lemma setup_settlement_legal:
  assumes "phase s = SETUP_PLACE_SETTLEMENT" and "topology s = Some standard_topology"
    and "length (vertex_buildings s) = 54" and "v < 54" and "vertex_buildings s ! v = None"
    and "list_all (\<lambda>n. vertex_buildings s ! n = None) (std_vertex_adjacent_vertices ! v)"
  shows "\<exists>acts. get_legal_actions s = Some acts \<and> PLACE_SETUP_SETTLEMENT v \<in> set acts"
proof -
  let ?f = "\<lambda>vid.
             do { b \<leftarrow> nth_e (vertex_buildings s) vid;
                  if b \<noteq> None then Some False
                  else do { adjs \<leftarrow> nth_e (vertex_adjacent_vertices standard_topology) vid;
                            has_adj \<leftarrow> any_e (is_occupied s) adjs;
                            Some (\<not> has_adj) } }"
  have occ: "any_e (is_occupied s) (std_vertex_adjacent_vertices ! x)
               = Some (\<exists>n\<in>set (std_vertex_adjacent_vertices ! x). is_occupied s n = Some True)"
    if "x < 54" for x
  proof (rule any_e_total, intro ballI)
    fix n assume "n \<in> set (std_vertex_adjacent_vertices ! x)"
    with that have "n < 54" by (rule std_adjacent_vertices_bound)
    then show "\<exists>b. is_occupied s n = Some b" by (simp add: is_occupied_def nth_e_def assms(3))
  qed
  have len: "length std_vertex_adjacent_vertices = 54"
    by (simp add: std_vertex_adjacent_vertices_def)
  have tot: "?f x \<noteq> None" if "x < 54" for x
  proof (cases "vertex_buildings s ! x")
    case None
    then show ?thesis
      using that by (simp add: nth_e_def assms(3) standard_topology_tables len occ)
  next
    case (Some b)
    then show ?thesis using that by (simp add: nth_e_def assms(3))
  qed
  have "\<forall>n\<in>set (std_vertex_adjacent_vertices ! v). is_occupied s n \<noteq> Some True"
  proof
    fix n assume n: "n \<in> set (std_vertex_adjacent_vertices ! v)"
    with assms(4) have "n < 54" by (rule std_adjacent_vertices_bound)
    moreover from n assms(6) have "vertex_buildings s ! n = None" by (simp add: list_all_iff)
    ultimately show "is_occupied s n \<noteq> Some True"
      by (simp add: is_occupied_def nth_e_def assms(3))
  qed
  then have v: "?f v = Some True"
    using assms(4,5) by (simp add: nth_e_def assms(3) standard_topology_tables len occ)
  define vs where "vs = filter (\<lambda>x. ?f x = Some True) [0..<54]"
  have "filter_e ?f [0..<54] = Some vs"
    unfolding filter_e_Some vs_def using tot by simp
  then have "get_valid_setup_settlement_vertices s = Some vs"
    by (simp add: get_valid_setup_settlement_vertices_def assms(2) standard_topology_tables)
  moreover have "v \<in> set vs" unfolding vs_def using v assms(4) by simp
  ultimately show ?thesis by (simp add: get_legal_actions_def assms(1))
qed

lemma setup_road_legal:
  assumes "phase s = SETUP_PLACE_ROAD" and "topology s = Some standard_topology"
    and "last_placed_vertex s = Some v" and "v < 54" and "length (edge_roads s) = 72"
    and "e \<in> set (std_vertex_adjacent_edges ! v)" and "edge_roads s ! e = None"
  shows "\<exists>acts. get_legal_actions s = Some acts \<and> PLACE_SETUP_ROAD e \<in> set acts"
proof -
  let ?f = "\<lambda>eid. do { r \<leftarrow> nth_e (edge_roads s) eid; Some (r = None) }"
  let ?es = "std_vertex_adjacent_edges ! v"
  have len: "length std_vertex_adjacent_edges = 54"
    by (simp add: std_vertex_adjacent_edges_def)
  have tot: "?f x \<noteq> None" if "x \<in> set ?es" for x
    using std_adjacent_edges_bound[OF assms(4) that] by (simp add: nth_e_def assms(5))
  have e: "?f e = Some True"
    using std_adjacent_edges_bound[OF assms(4,6)] assms(7) by (simp add: nth_e_def assms(5))
  define es where "es = filter (\<lambda>x. ?f x = Some True) ?es"
  have "filter_e ?f ?es = Some es"
    unfolding filter_e_Some es_def using tot by simp
  then have "get_valid_setup_road_edges s = Some es"
    using assms(4)
    by (simp add: get_valid_setup_road_edges_def assms(2,3) standard_topology_tables nth_e_def len)
  moreover have "e \<in> set es" unfolding es_def using e assms(6) by simp
  ultimately show ?thesis by (simp add: get_legal_actions_def assms(1))
qed

lemma apply_setup_settlement_first:
  assumes "setup_round s \<noteq> 1" and "v < length (vertex_buildings s)"
    and "current_player s < length (players s)"
  shows "apply_setup_settlement v s =
           Some (s\<lparr>vertex_buildings := (vertex_buildings s)[v := Some (Settlement, current_player s)],
                   players := (players s)[current_player s := (players s ! current_player s)
                      \<lparr>remaining_settlements :=
                         remaining_settlements (players s ! current_player s) - 1\<rparr>],
                   last_placed_vertex := Some v, phase := SETUP_PLACE_ROAD\<rparr>)"
  using assms by (simp add: apply_setup_settlement_def update_player_eq upd_e_eq Let_def)

lemma hands_update_same:
  assumes "i < length ps" and "resources p = resources (ps ! i)"
  shows "map resources (ps[i := p]) = map resources ps"
  using assms by (simp add: list_eq_iff_nth_eq nth_list_update)

lemma settle_step:
  assumes "at_setup s SETUP_PLACE_SETTLEMENT cp idx None vb er" and "idx < 3" and "cp < 3"
    and "length vb = 54" and "v < 54" and "vb ! v = None"
    and "list_all (\<lambda>n. vb ! n = None) (std_vertex_adjacent_vertices ! v)"
  shows "\<exists>s'. play g [PLACE_SETUP_SETTLEMENT v] s = Some s'
           \<and> at_setup s' SETUP_PLACE_ROAD cp idx (Some v) (vb[v := Some (Settlement, cp)]) er"
proof -
  note f = assms(1)[unfolded at_setup_def]
  from f assms(4-7) setup_settlement_legal[of s v] obtain acts where
    l: "get_legal_actions s = Some acts" "PLACE_SETUP_SETTLEMENT v \<in> set acts"
    by auto
  let ?s' = "s\<lparr>vertex_buildings := (vertex_buildings s)[v := Some (Settlement, current_player s)],
                   players := (players s)[current_player s := (players s ! current_player s)
                      \<lparr>remaining_settlements :=
                         remaining_settlements (players s ! current_player s) - 1\<rparr>],
                   last_placed_vertex := Some v, phase := SETUP_PLACE_ROAD\<rparr>"
  have "apply_setup_settlement v s = Some ?s'"
    using f assms(2-5) by (intro apply_setup_settlement_first) simp_all
  then have "play g [PLACE_SETUP_SETTLEMENT v] s = Some ?s'"
    by (intro play_single[OF l]) (simp add: apply_action_def)
  moreover have "at_setup ?s' SETUP_PLACE_ROAD cp idx (Some v) (vb[v := Some (Settlement, cp)]) er"
    using f assms(2,3) by (simp add: at_setup_def hands_def hands_update_same)
  ultimately show ?thesis by blast
qed

lemma road_step:
  assumes "at_setup s SETUP_PLACE_ROAD cp idx (Some v) vb er" and "idx < 5" and "cp < 3"
    and "length er = 72" and "v < 54" and "e \<in> set (std_vertex_adjacent_edges ! v)"
    and "er ! e = None"
  shows "\<exists>s'. play g [PLACE_SETUP_ROAD e] s = Some s'
           \<and> at_setup s' SETUP_PLACE_SETTLEMENT (get_setup_order 3 ! Suc idx) (Suc idx) None
                vb (er[e := Some cp])"
proof -
  note f = assms(1)[unfolded at_setup_def]
  from f assms(4-7) setup_road_legal[of s v e] obtain acts where
    l: "get_legal_actions s = Some acts" "PLACE_SETUP_ROAD e \<in> set acts"
    by auto
  from std_adjacent_edges_bound[OF assms(5,6)] have e: "e < 72" .
  let ?s' = "s\<lparr>edge_roads := (edge_roads s)[e := Some (current_player s)],
                players := (players s)[current_player s := (players s ! current_player s)
                     \<lparr>remaining_roads := remaining_roads (players s ! current_player s) - 1\<rparr>],
                current_player := get_setup_order (player_count s) ! (setup_index s + 1),
                setup_index := setup_index s + 1,
                setup_round := (if setup_index s + 1 \<ge> player_count s then 1 else 0),
                phase := SETUP_PLACE_SETTLEMENT, last_placed_vertex := None\<rparr>"
  have "apply_setup_road e s = Some ?s'"
    using f assms(2-4) e by (simp add: apply_setup_road_eq Let_def)
  then have "play g [PLACE_SETUP_ROAD e] s = Some ?s'"
    by (intro play_single[OF l]) (simp add: apply_action_def)
  moreover have "at_setup ?s' SETUP_PLACE_SETTLEMENT (get_setup_order 3 ! Suc idx) (Suc idx) None
                vb (er[e := Some cp])"
    using f assms(2,3) by (simp add: at_setup_def hands_def hands_update_same)
  ultimately show ?thesis by blast
qed

lemma second_settlement_step:
  assumes "at_setup s SETUP_PLACE_SETTLEMENT 2 3 None vb er" and "length vb = 54"
    and "vb ! 29 = None"
    and "list_all (\<lambda>n. vb ! n = None) (std_vertex_adjacent_vertices ! 29)"
  shows "\<exists>s'. play g [PLACE_SETUP_SETTLEMENT 29] s = Some s'
           \<and> map (\<lambda>p. resources p Wool) (players s') = [0, 0, 2] \<and> bank s' Wool = 17
           \<and> map (\<lambda>p. resources p Grain) (players s') = [0, 0, 1] \<and> bank s' Grain = 18"
proof -
  note f = assms(1)[unfolded at_setup_def]
  from f assms(2-4) setup_settlement_legal[of s 29] obtain acts where
    l: "get_legal_actions s = Some acts" "PLACE_SETUP_SETTLEMENT 29 \<in> set acts"
    by auto
  from f obtain p0 p1 p2 where ps: "players s = [p0, p1, p2]"
    by (auto simp: length_Suc_conv numeral_3_eq_3)
  with f have r: "resources p0 = empty_resources" "resources p1 = empty_resources"
    "resources p2 = empty_resources"
    by (simp_all add: hands_def)
  have "\<exists>s'. apply_setup_settlement 29 s = Some s'
           \<and> map (\<lambda>p. resources p Wool) (players s') = [0, 0, 2] \<and> bank s' Wool = 17
           \<and> map (\<lambda>p. resources p Grain) (players s') = [0, 0, 1] \<and> bank s' Grain = 18"
    using f assms(2)
    by (simp add: apply_setup_settlement_def update_player_eq upd_e_eq Let_def nth_e_def
        standard_topology_tables std_vertex_adjacent_hexes_def TERRAIN_DISTRIBUTION_def
        add_resource_def bank_add_def ps r empty_resources_def BANK_PER_RESOURCE_def)
  then obtain s' where a: "apply_setup_settlement 29 s = Some s'"
    and h: "map (\<lambda>p. resources p Wool) (players s') = [0, 0, 2]" "bank s' Wool = 17"
      "map (\<lambda>p. resources p Grain) (players s') = [0, 0, 1]" "bank s' Grain = 18"
    by (elim exE conjE) (rule that)
  from a have "play g [PLACE_SETUP_SETTLEMENT 29] s = Some s'"
    by (intro play_single[OF l]) (simp add: apply_action_def)
  with h show ?thesis by (intro exI conjI)
qed

lemma reset_at_setup:
  "\<exists>s. reset 3 TERRAIN_DISTRIBUTION NUMBER_TOKEN_DISTRIBUTION DEV_CARD_DISTRIBUTION [] = Some s
       \<and> at_setup s SETUP_PLACE_SETTLEMENT 0 0 None (replicate 54 None) (replicate 72 None)"
  by (simp add: reset_def TERRAIN_DISTRIBUTION_def NUMBER_TOKEN_DISTRIBUTION_def nth_e_def
      at_setup_def standard_topology_tables hands_def upt_3 new_player_def)

lemma opening_run:
  "\<exists>s0 s. reset 3 TERRAIN_DISTRIBUTION NUMBER_TOKEN_DISTRIBUTION DEV_CARD_DISTRIBUTION [] = Some s0
       \<and> play g [PLACE_SETUP_SETTLEMENT 0, PLACE_SETUP_ROAD 0, PLACE_SETUP_SETTLEMENT 20,
                  PLACE_SETUP_ROAD 24, PLACE_SETUP_SETTLEMENT 10, PLACE_SETUP_ROAD 11,
                  PLACE_SETUP_SETTLEMENT 29] s0 = Some s
       \<and> map (\<lambda>p. resources p Wool) (players s) = [0, 0, 2] \<and> bank s Wool = 17
       \<and> map (\<lambda>p. resources p Grain) (players s) = [0, 0, 1] \<and> bank s Grain = 18"
proof -
  let ?vb1 = "(replicate 54 None)[0 := Some (Settlement, 0::nat)]"
  let ?vb2 = "?vb1[20 := Some (Settlement, 1::nat)]"
  let ?vb3 = "?vb2[10 := Some (Settlement, 2::nat)]"
  let ?er0 = "replicate 72 (None :: nat option)"
  let ?er1 = "?er0[0 := Some 0]"
  let ?er2 = "?er1[24 := Some 1]"
  let ?er3 = "?er2[11 := Some 2]"
  from reset_at_setup obtain s0 where
    s0: "reset 3 TERRAIN_DISTRIBUTION NUMBER_TOKEN_DISTRIBUTION DEV_CARD_DISTRIBUTION [] = Some s0"
    and a0: "at_setup s0 SETUP_PLACE_SETTLEMENT 0 0 None (replicate 54 None) ?er0"
    by blast
  have o: "get_setup_order 3 ! Suc 0 = 1" "get_setup_order 3 ! Suc 1 = 2"
    "get_setup_order 3 ! Suc 2 = 2"
    by (simp_all add: get_setup_order_def upt_3)
  have "\<exists>s'. play g [PLACE_SETUP_SETTLEMENT 0] s0 = Some s'
          \<and> at_setup s' SETUP_PLACE_ROAD 0 0 (Some 0) ?vb1 ?er0"
    by (rule settle_step[OF a0]) (simp_all add: std_vertex_adjacent_vertices_def)
  then obtain s1 where p1: "play g [PLACE_SETUP_SETTLEMENT 0] s0 = Some s1"
    and a1: "at_setup s1 SETUP_PLACE_ROAD 0 0 (Some 0) ?vb1 ?er0"
    by blast
  have "\<exists>s'. play g [PLACE_SETUP_ROAD 0] s1 = Some s'
          \<and> at_setup s' SETUP_PLACE_SETTLEMENT (get_setup_order 3 ! Suc 0) (Suc 0) None ?vb1 ?er1"
    by (rule road_step[OF a1]) (simp_all add: std_vertex_adjacent_edges_def)
  then obtain s2 where p2: "play g [PLACE_SETUP_ROAD 0] s1 = Some s2"
    and a2: "at_setup s2 SETUP_PLACE_SETTLEMENT 1 1 None ?vb1 ?er1"
    unfolding o by auto
  have "\<exists>s'. play g [PLACE_SETUP_SETTLEMENT 20] s2 = Some s'
          \<and> at_setup s' SETUP_PLACE_ROAD 1 1 (Some 20) ?vb2 ?er1"
    by (rule settle_step[OF a2]) (simp_all add: std_vertex_adjacent_vertices_def)
  then obtain s3 where p3: "play g [PLACE_SETUP_SETTLEMENT 20] s2 = Some s3"
    and a3: "at_setup s3 SETUP_PLACE_ROAD 1 1 (Some 20) ?vb2 ?er1"
    by blast
  have "\<exists>s'. play g [PLACE_SETUP_ROAD 24] s3 = Some s'
          \<and> at_setup s' SETUP_PLACE_SETTLEMENT (get_setup_order 3 ! Suc 1) (Suc 1) None ?vb2 ?er2"
    by (rule road_step[OF a3]) (simp_all add: std_vertex_adjacent_edges_def)
  then obtain s4 where p4: "play g [PLACE_SETUP_ROAD 24] s3 = Some s4"
    and a4: "at_setup s4 SETUP_PLACE_SETTLEMENT 2 2 None ?vb2 ?er2"
    unfolding o by (auto simp: numeral_2_eq_2)
  have "\<exists>s'. play g [PLACE_SETUP_SETTLEMENT 10] s4 = Some s'
          \<and> at_setup s' SETUP_PLACE_ROAD 2 2 (Some 10) ?vb3 ?er2"
    by (rule settle_step[OF a4]) (simp_all add: std_vertex_adjacent_vertices_def)
  then obtain s5 where p5: "play g [PLACE_SETUP_SETTLEMENT 10] s4 = Some s5"
    and a5: "at_setup s5 SETUP_PLACE_ROAD 2 2 (Some 10) ?vb3 ?er2"
    by blast
  have "\<exists>s'. play g [PLACE_SETUP_ROAD 11] s5 = Some s'
          \<and> at_setup s' SETUP_PLACE_SETTLEMENT (get_setup_order 3 ! Suc 2) (Suc 2) None ?vb3 ?er3"
    by (rule road_step[OF a5]) (simp_all add: std_vertex_adjacent_edges_def)
  then obtain s6 where p6: "play g [PLACE_SETUP_ROAD 11] s5 = Some s6"
    and a6: "at_setup s6 SETUP_PLACE_SETTLEMENT 2 3 None ?vb3 ?er3"
    unfolding o by (auto simp: numeral_3_eq_3)
  have "\<exists>s'. play g [PLACE_SETUP_SETTLEMENT 29] s6 = Some s'
           \<and> map (\<lambda>p. resources p Wool) (players s') = [0, 0, 2] \<and> bank s' Wool = 17
           \<and> map (\<lambda>p. resources p Grain) (players s') = [0, 0, 1] \<and> bank s' Grain = 18"
    by (rule second_settlement_step[OF a6]) (simp_all add: std_vertex_adjacent_vertices_def)
  then obtain s7 where p7: "play g [PLACE_SETUP_SETTLEMENT 29] s6 = Some s7"
    and h: "map (\<lambda>p. resources p Wool) (players s7) = [0, 0, 2]" "bank s7 Wool = 17"
      "map (\<lambda>p. resources p Grain) (players s7) = [0, 0, 1]" "bank s7 Grain = 18"
    by (elim exE conjE) (rule that)
  note q = play_then[OF p1 play_then[OF p2 play_then[OF p3 play_then[OF p4
             play_then[OF p5 play_then[OF p6 p7]]]]]]
  from q have "play g [PLACE_SETUP_SETTLEMENT 0, PLACE_SETUP_ROAD 0, PLACE_SETUP_SETTLEMENT 20,
                  PLACE_SETUP_ROAD 24, PLACE_SETUP_SETTLEMENT 10, PLACE_SETUP_ROAD 11,
                  PLACE_SETUP_SETTLEMENT 29] s0 = Some s7"
    by simp
  with s0 h show ?thesis by (intro exI conjI)
qed

theorem C1_resource_conservation_witness:
  "\<exists>s0 s. reset 3 TERRAIN_DISTRIBUTION NUMBER_TOKEN_DISTRIBUTION DEV_CARD_DISTRIBUTION [] = Some s0
       \<and> play \<lparr>draw1 = 0, draw2 = 0\<rparr>
            [PLACE_SETUP_SETTLEMENT 0, PLACE_SETUP_ROAD 0, PLACE_SETUP_SETTLEMENT 20,
             PLACE_SETUP_ROAD 24, PLACE_SETUP_SETTLEMENT 10, PLACE_SETUP_ROAD 11,
             PLACE_SETUP_SETTLEMENT 29] s0 = Some s
       \<and> reachable s
       \<and> map (\<lambda>p. resources p Wool) (players s) = [0, 0, 2] \<and> bank s Wool = 17
       \<and> map (\<lambda>p. resources p Grain) (players s) = [0, 0, 1] \<and> bank s Grain = 18
       \<and> list_all (\<lambda>r. 0 \<le> bank s r \<and> list_all (\<lambda>p. 0 \<le> resources p r) (players s)
                         \<and> (\<Sum>p\<leftarrow>players s. resources p r) + bank s r = 19) RESOURCES"
proof -
  let ?g = "\<lparr>draw1 = 0, draw2 = 0\<rparr>"
  from opening_run[of ?g] obtain s0 s where
    s0: "reset 3 TERRAIN_DISTRIBUTION NUMBER_TOKEN_DISTRIBUTION DEV_CARD_DISTRIBUTION [] = Some s0"
    and p: "play ?g [PLACE_SETUP_SETTLEMENT 0, PLACE_SETUP_ROAD 0, PLACE_SETUP_SETTLEMENT 20,
             PLACE_SETUP_ROAD 24, PLACE_SETUP_SETTLEMENT 10, PLACE_SETUP_ROAD 11,
             PLACE_SETUP_SETTLEMENT 29] s0 = Some s"
    and h: "map (\<lambda>p. resources p Wool) (players s) = [0, 0, 2]" "bank s Wool = 17"
      "map (\<lambda>p. resources p Grain) (players s) = [0, 0, 1]" "bank s Grain = 18"
    by (elim exE conjE) (rule that)
  have "CatanEnv_init 3 = Inr 3" by (simp add: CatanEnv_init_def)
  then have "reachable s0"
    by (rule reachable_reset[OF _ _ _ _ s0]) simp_all
  with p have r: "reachable s" by (rule play_reachable)
  have "0 \<le> bank s r \<and> list_all (\<lambda>p. 0 \<le> resources p r) (players s)
          \<and> (\<Sum>p\<leftarrow>players s. resources p r) + bank s r = 19" for r
    using C1_resource_conservation[OF r, of r] by (simp add: list_all_iff)
  then have "list_all (\<lambda>r. 0 \<le> bank s r \<and> list_all (\<lambda>p. 0 \<le> resources p r) (players s)
                         \<and> (\<Sum>p\<leftarrow>players s. resources p r) + bank s r = 19) RESOURCES"
    by (simp add: list_all_iff)
  with s0 p r h show ?thesis by (intro exI conjI)
qed

end
